(* ===== verification/Prelude.thy ===== *)
theory Prelude
  imports Main "HOL-Library.Word"
begin

text \<open>
  Shared vocabulary of the development: machine integers, error codes and exceptions, the
  generic model of a coroutine as a machine that is resumed by completions of the operations
  it initiated, and the lemmas on such machines, on lists and on \<open>size_t\<close> sums that every
  component uses.

  Boost.Asio is not part of the repository. Its operations are therefore never defined here:
  a coroutine only \<^emph>\<open>initiates\<close> an operation (a value of an action type, collected in a trace)
  and is resumed by a completion, which is an \<^emph>\<open>input\<close> of the model. What the code relies on
  (an \<open>async_read_some\<close> delivers at most as many bytes as the buffer holds, a successful
  \<open>async_write\<close> transferred everything, and so on) appears as a named predicate on the
  completions.
\<close>

section \<open>Collections of facts\<close>

named_theorems size_simps \<open>unfolding of size_t arithmetic\<close>

section \<open>Machine types\<close>

type_synonym size_t = "64 word"
type_synonym byte = "8 word"

text \<open>Values of \<open>boost::system::error_code\<close>, as far as the code tells them apart; \<open>if (ec)\<close> is
  \<open>ec \<noteq> Success\<close>. \<open>OperationAborted\<close> is \<open>error::operation_aborted\<close>, which is the same value as
  \<open>errc::operation_canceled\<close>.\<close>

datatype error_code = Success | Eof | OperationAborted | NeedBuffer | OtherError nat

text \<open>What a \<open>std::exception_ptr\<close> can hold; the null pointer is \<open>None\<close>. \<open>first_exception()\<close> of a
  \<open>multiple_exceptions\<close> is again an \<open>exception_ptr\<close>.\<close>

datatype exn =
    MultipleExceptions "exn option"
  | SystemError error_code
  | StdException string
  | ForeignException

type_synonym exception_ptr = "exn option"

text \<open>POSIX signals, as far as the code tells them apart.\<close>

datatype signum = SIGINT | SIGTERM | SIGTSTP | OtherSignal int

section \<open>Lists\<close>

lemma take_drop_append [simp]: "take n xs @ drop n xs @ ys = xs @ ys"
  by (simp flip: append_assoc)

section \<open>Coroutines as resumable machines\<close>

text \<open>
  A coroutine is suspended at a \<open>co_await\<close> (its live variables are the state), has returned a
  value, or has left by an exception. Its body maps the state and the completion that resumes it
  to the actions performed up to the next suspension point and the new control state.
\<close>

datatype ('s, 'r) ctl = Suspended 's | Returned 'r | Threw exn

type_synonym ('s, 'e, 'a, 'r) body = "'s \<Rightarrow> 'e \<Rightarrow> 'a list \<times> ('s, 'r) ctl"

fun drive :: "('s, 'e, 'a, 'r) body \<Rightarrow> ('s, 'r) ctl \<Rightarrow> 'e list \<Rightarrow> 'a list \<times> ('s, 'r) ctl" where
  "drive f c [] = ([], c)"
| "drive f c (e # es) =
     (case c of
        Suspended s \<Rightarrow>
          (case f s e of (as, c') \<Rightarrow> (case drive f c' es of (bs, c'') \<Rightarrow> (as @ bs, c'')))
      | _ \<Rightarrow> ([], c))"

definition finished :: "('s, 'r) ctl \<Rightarrow> bool" where
  "finished c \<longleftrightarrow> (\<forall>s. c \<noteq> Suspended s)"

lemma finished_simps [simp]:
  "\<not> finished (Suspended s)" "finished (Returned r)" "finished (Threw x)"
  by (auto simp: finished_def)

lemma drive_finished [simp]: "finished c \<Longrightarrow> drive f c es = ([], c)"
  by (cases es; cases c) auto

lemma drive_Returned [simp]: "drive f (Returned r) es = ([], Returned r)"
  and drive_Threw [simp]: "drive f (Threw x) es = ([], Threw x)"
  by (simp_all)

lemma drive_Suspended_Cons:
  "f s e = (as, c) \<Longrightarrow> drive f c es = (bs, c') \<Longrightarrow>
   drive f (Suspended s) (e # es) = (as @ bs, c')"
  by simp

lemma drive_append:
  "drive f c (es @ fs) =
     (case drive f c es of (as, c') \<Rightarrow> (case drive f c' fs of (bs, c'') \<Rightarrow> (as @ bs, c'')))"
proof (induction es arbitrary: c)
  case Nil
  then show ?case by (simp split: prod.splits)
next
  case (Cons e es)
  then show ?case by (cases c) (auto split: prod.splits)
qed

lemma drive_snoc:
  assumes "drive f c es = (as, Suspended s)" and "f s e = (bs, c')"
  shows "drive f c (es @ [e]) = (as @ bs, c')"
  using assms by (simp add: drive_append)

text \<open>An invariant that relates the completions consumed so far and the actions performed so far to
  the control state holds after every run.\<close>

lemma drive_invariant:
  assumes run: "drive f c es = (as, c')"
    and start: "I [] [] c"
    and step: "\<And>es as s e bs c'. I es as (Suspended s) \<Longrightarrow> f s e = (bs, c') \<Longrightarrow>
                 I (es @ [e]) (as @ bs) c'"
    and stop: "\<And>es as c e. I es as c \<Longrightarrow> finished c \<Longrightarrow> I (es @ [e]) as c"
  shows "I es as c'"
  using run
proof (induction es arbitrary: as c' rule: rev_induct)
  case Nil
  with start show ?case by simp
next
  case (snoc e es)
  obtain as1 c1 where run1: "drive f c es = (as1, c1)" by fastforce
  have I1: "I es as1 c1" by (rule snoc.IH [OF run1])
  show ?case
  proof (cases c1)
    case (Suspended s)
    obtain bs c2 where s: "f s e = (bs, c2)" by fastforce
    with snoc.prems run1 Suspended have "as = as1 @ bs" "c' = c2"
      by (auto simp: drive_append)
    with step I1 s Suspended show ?thesis by simp
  next
    case (Returned r)
    with snoc.prems run1 have "as = as1" "c' = c1" by (auto simp: drive_append)
    with stop I1 Returned show ?thesis by simp
  next
    case (Threw x)
    with snoc.prems run1 have "as = as1" "c' = c1" by (auto simp: drive_append)
    with stop I1 Threw show ?thesis by simp
  qed
qed

section \<open>Streams\<close>

text \<open>The handles a stream coroutine works on: the one peer of an echo session, or the source and
  the sink of a copying coroutine.\<close>

datatype handle = Peer | Source | Sink

datatype stream_op =
    AsyncReadSome handle nat
  | AsyncWrite handle "byte list"
  | ShutdownSend handle
  | ShutdownBoth handle
  | Close handle

text \<open>Completions. \<open>ReadDone ec bs\<close> is the completion \<open>(ec, n)\<close> of \<open>async_read_some\<close> that put the
  \<open>n = length bs\<close> bytes \<open>bs\<close> at the start of the caller's buffer, so that \<open>buffer(data, n)\<close> is
  \<open>bs\<close>; \<open>WriteDone ec n\<close> is that of \<open>async_write\<close>.\<close>

datatype stream_event = ReadDone error_code "byte list" | WriteDone error_code size_t

fun sent_by :: "stream_op \<Rightarrow> byte list" where
  "sent_by (AsyncWrite h bs) = bs"
| "sent_by _ = []"

definition sent :: "stream_op list \<Rightarrow> byte list" where
  "sent ops = concat (map sent_by ops)"

fun received_by :: "stream_event \<Rightarrow> byte list" where
  "received_by (ReadDone ec bs) = (if ec = Success then bs else [])"
| "received_by (WriteDone ec n) = []"

definition received :: "stream_event list \<Rightarrow> byte list" where
  "received es = concat (map received_by es)"

lemma sent_simps [simp]:
  "sent [] = []" "sent (op # ops) = sent_by op @ sent ops" "sent (ops @ ops') = sent ops @ sent ops'"
  by (simp_all add: sent_def)

lemma received_simps [simp]:
  "received [] = []" "received (e # es) = received_by e @ received es"
  "received (es @ es') = received es @ received es'"
  by (simp_all add: received_def)

section \<open>Counting in an updated list\<close>

lemma length_filter_update:
  "i < length xs \<Longrightarrow>
   length (filter P (xs[i := x])) + of_bool (P (xs ! i)) = length (filter P xs) + of_bool (P x)"
proof (induction xs arbitrary: i)
  case (Cons y ys)
  then show ?case by (cases i) auto
qed simp

section \<open>size_t sums\<close>

lemma of_nat_length_append [size_simps]:
  "(of_nat (length (xs @ ys)) :: size_t) = of_nat (length xs) + of_nat (length ys)"
  by simp

lemma unat_of_nat_size_t:
  "n < 2 ^ 64 \<Longrightarrow> unat (of_nat n :: size_t) = n"
  by (simp add: unat_of_nat)

lemma unat_size_t_bound: "unat (w :: size_t) < 2 ^ 64"
  using unsigned_less [of w, where ?'a = nat] by simp

lemma unat_min_size_t [size_simps]: "unat (min a b :: size_t) = min (unat a) (unat b)"
  by (simp add: min_def word_le_nat_alt)

end
