(* ===== verification/Relay.thy ===== *)
theory Relay
  imports Prelude
begin

text \<open>
  The interface shared by the coroutines that move bytes: a loop that reads a block and writes it
  (echo sessions, \<open>cat\<close>, the proxy's \<open>forward\<close>), the same loop with a byte count, and a loop that
  only counts what it reads. Each interface is a locale; its lemmas are proved once here and reach
  the components through interpretations.
\<close>

section \<open>Completions that answer the outstanding operation\<close>

text \<open>
  A read/write loop has one outstanding operation. \<open>answers stop r es\<close> says that the completions
  \<open>es\<close> answer the operations in turn, starting with a read when \<open>r\<close>: a failed read delivers no
  bytes, and no completion arrives once the loop has ended (after a read error for which \<open>stop\<close>
  holds, or a write error).
\<close>

fun answers :: "(error_code \<Rightarrow> bool) \<Rightarrow> bool \<Rightarrow> stream_event list \<Rightarrow> bool" where
  "answers stop r [] = True"
| "answers stop True (ReadDone ec bs # es) =
     ((ec \<noteq> Success \<longrightarrow> bs = []) \<and> (if stop ec then es = [] else answers stop False es))"
| "answers stop False (WriteDone ec n # es) =
     (if ec = Success then answers stop True es else es = [])"
| "answers stop _ _ = False"

lemma received_by_error: "(ec \<noteq> Success \<longrightarrow> bs = []) \<Longrightarrow> received_by (ReadDone ec bs) = bs"
  by auto

section \<open>Read/write loops\<close>

locale relay_loop =
  fixes body :: "('s, stream_event, stream_op, 'r) body"
    and rd :: "'s \<Rightarrow> bool"
    and wr :: "'s \<Rightarrow> bool"
    and stop :: "error_code \<Rightarrow> bool"
  assumes stop_Success: "\<not> stop Success"
    and read_on: "rd s \<Longrightarrow> \<not> stop ec \<Longrightarrow>
      \<exists>s' h. body s (ReadDone ec bs) = ([AsyncWrite h bs], Suspended s') \<and> wr s'"
    and read_stop: "rd s \<Longrightarrow> stop ec \<Longrightarrow>
      \<exists>ops c. body s (ReadDone ec bs) = (ops, c) \<and> sent ops = [] \<and> finished c"
    and write_on: "wr s \<Longrightarrow>
      \<exists>s' h k. body s (WriteDone Success n) = ([AsyncReadSome h k], Suspended s') \<and> rd s'"
    and write_stop: "wr s \<Longrightarrow> ec \<noteq> Success \<Longrightarrow>
      \<exists>ops c. body s (WriteDone ec n) = (ops, c) \<and> sent ops = [] \<and> finished c"
begin

abbreviation waits :: "bool \<Rightarrow> 's \<Rightarrow> bool" where
  "waits r s \<equiv> (if r then rd s else wr s)"

text \<open>One completion: what was received is sent on, and the loop waits for the next operation or has
  ended.\<close>

lemma relay_step:
  assumes "waits r s" and "answers stop r (e # es)" and "body s e = (ops, c)"
  shows "sent ops = received_by e \<and>
    (finished c \<and> es = [] \<or> (\<exists>s'. c = Suspended s' \<and> waits (\<not> r) s' \<and> answers stop (\<not> r) es))"
proof (cases e)
  case (ReadDone ec bs)
  with assms have r: r "rd s" and b: "ec \<noteq> Success \<longrightarrow> bs = []" by (cases r; simp)+
  show ?thesis
  proof (cases "stop ec")
    case True
    with stop_Success b have "bs = []" by metis
    with True r ReadDone assms read_stop [OF r(2) True, of bs] show ?thesis by auto
  next
    case False
    with r b ReadDone assms read_on [OF r(2) False, of bs] show ?thesis
      by (auto simp: received_by_error)
  qed
next
  case (WriteDone ec n)
  with assms have w: "\<not> r" "wr s" by (cases r; simp)+
  show ?thesis
  proof (cases "ec = Success")
    case True
    with w WriteDone assms write_on [OF w(2), of n] show ?thesis by auto
  next
    case False
    with w WriteDone assms write_stop [OF w(2) False, of n] show ?thesis by auto
  qed
qed

text \<open>Every byte received is handed to a write, in order, and nothing else is; until it ends, the loop
  waits for an operation.\<close>

lemma relay_exact:
  assumes "waits r s" and "answers stop r es" and "drive body (Suspended s) es = (ops, c)"
  shows "sent ops = received es \<and> (\<forall>s'. c = Suspended s' \<longrightarrow> rd s' \<or> wr s')"
  using assms
proof (induction es arbitrary: r s ops c)
  case Nil
  then show ?case by (cases r) auto
next
  case (Cons e es)
  obtain ops1 c1 where b: "body s e = (ops1, c1)" by fastforce
  note step = relay_step [OF Cons.prems(1,2) b]
  show ?case
  proof (cases "finished c1")
    case True
    with step Cons.prems(3) b show ?thesis by auto
  next
    case False
    with step obtain s1 where s1: "c1 = Suspended s1" "waits (\<not> r) s1" "answers stop (\<not> r) es"
      by auto
    obtain ops2 c2 where run: "drive body (Suspended s1) es = (ops2, c2)" by fastforce
    from Cons.IH [OF s1(2,3) run] step s1(1) run Cons.prems(3) b show ?thesis by auto
  qed
qed

lemma relay_sent:
  assumes "rd s" and "answers stop True es" and "drive body (Suspended s) es = (ops, c)"
  shows "sent ops = received es"
  using relay_exact [of True s es] assms by simp

end

section \<open>Read/write loops that count\<close>

text \<open>\<open>acct s\<close> is the number of bytes accounted for in state \<open>s\<close>, the block being written included;
  end of file makes the loop return it.\<close>

locale counting_relay = relay_loop body rd wr stop
  for body :: "('s, stream_event, stream_op, size_t) body" and rd wr stop +
  fixes acct :: "'s \<Rightarrow> size_t"
  assumes acct_read: "rd s \<Longrightarrow> body s (ReadDone Success bs) = (ops, Suspended s') \<Longrightarrow>
      acct s' = acct s + of_nat (length bs)"
    and acct_write: "wr s \<Longrightarrow> body s (WriteDone Success n) = (ops, Suspended s') \<Longrightarrow> acct s' = acct s"
    and stop_eof: "stop ec \<longleftrightarrow> ec \<noteq> Success"
    and eof: "rd s \<Longrightarrow> \<exists>ops. body s (ReadDone Eof bs) = (ops, Returned (acct s))"
begin

lemma acct_step:
  assumes "waits r s" and "answers stop r (e # es)" and "body s e = (ops, Suspended s')"
  shows "acct s' = acct s + of_nat (length (received_by e))"
proof (cases e)
  case (ReadDone ec bs)
  with assms have r: "rd s" by (cases r) auto
  have "ec = Success"
    using read_stop [OF r, of ec bs] assms(3) ReadDone stop_eof by (cases "ec = Success") auto
  with acct_read [OF r] assms(3) ReadDone show ?thesis by auto
next
  case (WriteDone ec n)
  with assms have w: "wr s" by (cases r) auto
  have "ec = Success"
    using write_stop [OF w, of ec n] assms(3) WriteDone by (cases "ec = Success") auto
  with acct_write [OF w] assms(3) WriteDone show ?thesis by auto
qed

lemma acct_run:
  assumes "waits r s" and "answers stop r es" and "drive body (Suspended s) es = (ops, Suspended s')"
  shows "acct s' = acct s + of_nat (length (received es))"
  using assms
proof (induction es arbitrary: r s ops)
  case Nil
  then show ?case by simp
next
  case (Cons e es)
  obtain ops1 c1 where b: "body s e = (ops1, c1)" by fastforce
  note step = relay_step [OF Cons.prems(1,2) b]
  have "\<not> finished c1" using Cons.prems(3) b by (cases c1) auto
  with step obtain s1 where s1: "c1 = Suspended s1" "waits (\<not> r) s1" "answers stop (\<not> r) es" by auto
  obtain ops2 where run: "drive body (Suspended s1) es = (ops2, Suspended s')"
    using Cons.prems(3) b s1(1) by (auto split: prod.splits)
  from Cons.IH [OF s1(2,3) run] acct_step [OF Cons.prems(1,2)] b s1(1)
  show ?case by (simp add: algebra_simps)
qed

text \<open>When the source ends, the loop returns the number of bytes it moved.\<close>

lemma count_at_eof:
  assumes "rd s" and "answers stop True es" and "drive body (Suspended s) es = (ops, Suspended s')"
    and "rd s'"
  shows "snd (drive body (Suspended s) (es @ [ReadDone Eof []]))
    = Returned (acct s + of_nat (length (received es)))"
proof -
  have "acct s' = acct s + of_nat (length (received es))"
    using acct_run [of True s es ops s'] assms by simp
  moreover obtain ops' where "body s' (ReadDone Eof []) = (ops', Returned (acct s'))"
    using eof [OF assms(4), of "[]"] by auto
  ultimately show ?thesis using assms(3) by (simp add: drive_append)
qed

end

section \<open>Loops that only count\<close>

locale byte_counter =
  fixes body :: "('s, stream_event, stream_op, size_t) body"
    and ready :: "'s \<Rightarrow> bool"
    and tally :: "'s \<Rightarrow> size_t"
    and stops :: "error_code \<Rightarrow> bool"
  assumes stops_Success: "\<not> stops Success"
    and count_on: "ready s \<Longrightarrow> \<exists>s' h k. body s (ReadDone Success bs) = ([AsyncReadSome h k], Suspended s')
      \<and> ready s' \<and> tally s' = tally s + of_nat (length bs)"
    and count_stop: "ready s \<Longrightarrow> stops ec \<Longrightarrow> body s (ReadDone ec []) = ([], Returned (tally s))"
begin

lemma tally_run:
  assumes "ready s"
  shows "\<exists>ops s'. drive body (Suspended s) (map (ReadDone Success) bss) = (ops, Suspended s')
    \<and> ready s' \<and> tally s' = tally s + of_nat (length (concat bss)) \<and> sent ops = []"
  using assms
proof (induction bss arbitrary: s)
  case Nil
  then show ?case by simp
next
  case (Cons bs bss)
  from count_on [OF Cons.prems, of bs] obtain s1 h k where
    s1: "body s (ReadDone Success bs) = ([AsyncReadSome h k], Suspended s1)" "ready s1"
    "tally s1 = tally s + of_nat (length bs)" by auto
  from Cons.IH [OF s1(2)] obtain ops s' where
    "drive body (Suspended s1) (map (ReadDone Success) bss) = (ops, Suspended s')"
    "ready s'" "tally s' = tally s1 + of_nat (length (concat bss))" "sent ops = []" by auto
  with s1 show ?case by (auto simp: algebra_simps)
qed

lemma tally_total:
  assumes "ready s" and "stops ec"
  shows "snd (drive body (Suspended s) (map (ReadDone Success) bss @ [ReadDone ec []]))
    = Returned (tally s + of_nat (length (concat bss)))"
proof -
  from tally_run [OF assms(1), of bss] obtain ops s' where
    run: "drive body (Suspended s) (map (ReadDone Success) bss) = (ops, Suspended s')"
    "ready s'" "tally s' = tally s + of_nat (length (concat bss))" by auto
  from count_stop [OF run(2) assms(2)] run show ?thesis by (simp add: drive_append)
qed

end

end
