(* ===== verification/Asio_Coro.thy ===== *)
theory Asio_Coro
  imports Prelude
begin

text \<open>
  The helpers of \<open>include/asio-coro.hpp\<close>: translation of exception pointers to error codes and
  messages, the \<open>log_exception\<close> handlers, cancellation masks, the \<open>yield\<close> and \<open>sleep\<close> coroutines
  and the names of address families.

  \<open>error_code::message()\<close> and the enumerators of \<open>asio::cancellation_type\<close> belong to Boost; they
  are parameters (\<open>message\<close>, and a record \<open>cancel_enum\<close> whose documented properties are
  \<open>cancel_enum_ok\<close>).
\<close>

unbundle bit_operations_syntax

section \<open>Exception pointers\<close>

fun code :: "exception_ptr \<Rightarrow> exn + error_code" where
  "code None = Inr Success"
| "code (Some (MultipleExceptions p)) = code p"
| "code (Some (SystemError ec)) = Inr ec"
| "code (Some x) = Inl x"

fun what :: "(error_code \<Rightarrow> string) \<Rightarrow> exception_ptr \<Rightarrow> exn + string" where
  "what message None = Inr ''Success(ep)''"
| "what message (Some (MultipleExceptions p)) = what message p"
| "what message (Some (SystemError ec)) = Inr (message ec)"
| "what message (Some (StdException w)) = Inr w"
| "what message (Some x) = Inl x"

text \<open>The two overloads of \<open>log_exception\<close>: the lines printed, or the exception that \<open>what\<close> lets
  through.\<close>

definition log_exception :: "(error_code \<Rightarrow> string) \<Rightarrow> exception_ptr \<Rightarrow> exn + string list" where
  "log_exception message p =
     (case p of None \<Rightarrow> Inr []
      | Some _ \<Rightarrow> (case what message p of Inl x \<Rightarrow> Inl x | Inr w \<Rightarrow> Inr [w]))"

definition log_exception_prefix ::
  "(error_code \<Rightarrow> string) \<Rightarrow> string \<Rightarrow> exception_ptr \<Rightarrow> string list \<Rightarrow> exn + string list" where
  "log_exception_prefix message prefix p args =
     (case what message p of Inl x \<Rightarrow> Inl x
      | Inr w \<Rightarrow> Inr ((prefix @ '': '' @ w) # map (\<lambda>a. prefix @ '':   result='' @ a) args))"

text \<open>The exception at the end of a chain of \<open>first_exception()\<close> links.\<close>

fun innermost :: "exception_ptr \<Rightarrow> exception_ptr" where
  "innermost (Some (MultipleExceptions p)) = innermost p"
| "innermost p = p"

lemma innermost_not_multiple: "innermost p \<noteq> Some (MultipleExceptions q)"
  by (induction p rule: innermost.induct) auto

lemma code_innermost:
  "code p = (case innermost p of None \<Rightarrow> Inr Success | Some (SystemError ec) \<Rightarrow> Inr ec | Some x \<Rightarrow> Inl x)"
  by (induction p rule: innermost.induct) (auto split: exn.splits)

lemma what_innermost:
  "what message p =
     (case innermost p of None \<Rightarrow> Inr ''Success(ep)'' | Some (SystemError ec) \<Rightarrow> Inr (message ec)
      | Some (StdException w) \<Rightarrow> Inr w | Some x \<Rightarrow> Inl x)"
  by (induction p rule: innermost.induct) (auto split: exn.splits)

section \<open>Cancellation types\<close>

type_synonym cancellation_type = "32 word"

record cancel_enum =
  ct_none :: cancellation_type
  ct_terminal :: cancellation_type
  ct_partial :: cancellation_type
  ct_total :: cancellation_type
  ct_all :: cancellation_type
  ct_received :: "cancellation_type \<Rightarrow> cancellation_type \<Rightarrow> cancellation_type"

text \<open>The enumerators, and what the library does with them: \<open>ct_received ty c\<close> is what \<open>cs.cancelled()\<close> of a
  coroutine that has not changed its cancellation state reports after \<open>ty\<close> has been emitted to it, when
  it reported \<open>c\<close> before.

  The documented properties: \<open>none\<close> is the empty bitmask, the three types are bitmasks for
  disjoint, non-empty sets of bits, and \<open>all\<close> contains them. A spawned coroutine accepts terminal
  cancellation only, and what it accepts is accumulated.\<close>

definition cancel_enum_ok :: "cancel_enum \<Rightarrow> bool" where
  "cancel_enum_ok E \<longleftrightarrow> ct_none E = 0
     \<and> ct_terminal E \<noteq> 0 \<and> ct_partial E \<noteq> 0 \<and> ct_total E \<noteq> 0
     \<and> ct_terminal E AND ct_partial E = 0 \<and> ct_terminal E AND ct_total E = 0
     \<and> ct_partial E AND ct_total E = 0
     \<and> ct_all E AND (ct_terminal E OR ct_partial E OR ct_total E)
         = ct_terminal E OR ct_partial E OR ct_total E
     \<and> (\<forall>ty c. ct_received E ty c = c OR (ty AND ct_terminal E))"

text \<open>\<open>isCancelled(state, mask)\<close>; the first argument is \<open>state.cancelled()\<close>.\<close>

definition isCancelled :: "cancel_enum \<Rightarrow> cancellation_type \<Rightarrow> cancellation_type \<Rightarrow> bool" where
  "isCancelled E cancelled m \<longleftrightarrow> cancelled AND m \<noteq> ct_none E"

lemma isCancelled_all:
  assumes "cancel_enum_ok E"
    and "c AND (ct_terminal E OR ct_partial E OR ct_total E) = c"
  shows "isCancelled E c (ct_all E) \<longleftrightarrow> c \<noteq> ct_none E"
proof -
  let ?m = "ct_terminal E OR ct_partial E OR ct_total E"
  have "c AND ct_all E = (c AND ?m) AND ct_all E" using assms(2) by simp
  also have "\<dots> = c AND (ct_all E AND ?m)" by (simp add: ac_simps)
  also have "\<dots> = c AND ?m" using assms(1) by (simp add: cancel_enum_ok_def)
  also have "\<dots> = c" using assms(2) by simp
  finally show ?thesis by (simp add: isCancelled_def)
qed

text \<open>\<open>make_system_error(errc)\<close> builds a system error code; the code uses it for
  \<open>operation_canceled\<close> only.\<close>

definition make_system_error :: "error_code \<Rightarrow> error_code" where
  "make_system_error e = e"

section \<open>Timers\<close>

text \<open>Actions of the two elementary coroutines. The argument of \<open>ResetCancellationState\<close> names the
  filter passed to \<open>this_coro::reset_cancellation_state\<close>.\<close>

datatype cancel_filter = EnableTerminal | EnablePartial | EnableTotal

datatype timer_op = PostSelf | ExpiresAfter int | ResetCancellationState cancel_filter | AsyncWait

definition yield_start :: "timer_op list \<times> (unit, unit) ctl" where
  "yield_start = ([PostSelf], Suspended ())"

definition yield_body :: "(unit, unit, timer_op, unit) body" where
  "yield_body s e = ([], Returned ())"

definition sleep_start :: "int \<Rightarrow> timer_op list \<times> (unit, unit) ctl" where
  "sleep_start timeout =
     ([ExpiresAfter timeout, ResetCancellationState EnableTotal, AsyncWait], Suspended ())"

definition sleep_body :: "(unit, error_code, timer_op, unit) body" where
  "sleep_body s ec = ([], if ec = Success then Returned () else Threw (SystemError ec))"

lemma sleep_outcome:
  "drive sleep_body (snd (sleep_start t)) [ec] =
     ([], if ec = Success then Returned () else Threw (SystemError ec))"
  by (simp add: sleep_start_def sleep_body_def)

section \<open>Text of buffers and exceptions\<close>

text \<open>\<open>make_string_view(buffer)\<close>: the bytes of the buffer as characters.\<close>

definition make_string_view :: "byte list \<Rightarrow> string" where
  "make_string_view buffer = map (\<lambda>b. char_of (unat b)) buffer"

lemma make_string_view_exact:
  "map (\<lambda>c. of_nat (of_char c)) (make_string_view bs) = bs" "length (make_string_view bs) = length bs"
proof -
  have "(of_nat (of_char (char_of (unat b) :: char)) :: byte) = b" for b :: byte
  proof -
    have "unat b < 256" using unsigned_less [of b, where ?'a = nat] by simp
    then have "(of_char (char_of (unat b) :: char) :: nat) = unat b"
      by (simp add: of_char_of)
    then show ?thesis by simp
  qed
  then show "map (\<lambda>c. of_nat (of_char c)) (make_string_view bs) = bs" "length (make_string_view bs) = length bs"
    by (simp_all add: make_string_view_def map_idI)
qed

text \<open>\<open>PrintTo(ep, os)\<close>, for the output written so far; what \<open>what\<close> lets through leaves it.\<close>

definition PrintTo :: "(error_code \<Rightarrow> string) \<Rightarrow> exception_ptr \<Rightarrow> string \<Rightarrow> exn + string" where
  "PrintTo message ep os = map_sum id (\<lambda>w. os @ w) (what message ep)"

section \<open>Awaitables as types\<close>

text \<open>C++ types, as far as the concepts look at them: \<open>asio::awaitable<R>\<close>, qualified types and
  references; all other types are opaque. The result type of a call without arguments and that of a
  call with a socket are found by the language's overload resolution; they are parameters (\<open>None\<close>: the
  call is ill-formed).\<close>

datatype cpp_type =
    VoidType
  | OtherType string
  | AwaitableType cpp_type
  | ConstType cpp_type
  | VolatileType cpp_type
  | LvalueRef cpp_type
  | RvalueRef cpp_type

fun remove_reference :: "cpp_type \<Rightarrow> cpp_type" where
  "remove_reference (LvalueRef t) = t"
| "remove_reference (RvalueRef t) = t"
| "remove_reference t = t"

fun remove_cv :: "cpp_type \<Rightarrow> cpp_type" where
  "remove_cv (ConstType t) = remove_cv t"
| "remove_cv (VolatileType t) = remove_cv t"
| "remove_cv t = t"

definition remove_cvref :: "cpp_type \<Rightarrow> cpp_type" where
  "remove_cvref t = remove_cv (remove_reference t)"

fun is_awaitable_impl :: "cpp_type \<Rightarrow> bool" where
  "is_awaitable_impl (AwaitableType r) = True"
| "is_awaitable_impl t = False"

definition is_awaitable_v :: "cpp_type \<Rightarrow> bool" where
  "is_awaitable_v t = is_awaitable_impl (remove_cvref t)"

definition AwaitableOf :: "cpp_type \<Rightarrow> bool" where
  "AwaitableOf t = is_awaitable_v t"

definition CallableAwaitable :: "(cpp_type \<Rightarrow> cpp_type option) \<Rightarrow> cpp_type \<Rightarrow> bool" where
  "CallableAwaitable invoke_result f = (case invoke_result f of None \<Rightarrow> False | Some r \<Rightarrow> AwaitableOf r)"

definition AwaitableOrCallableAwaitable :: "(cpp_type \<Rightarrow> cpp_type option) \<Rightarrow> cpp_type \<Rightarrow> bool" where
  "AwaitableOrCallableAwaitable invoke_result t = (AwaitableOf t \<or> CallableAwaitable invoke_result t)"

definition TestConcept :: "(cpp_type \<Rightarrow> cpp_type option) \<Rightarrow> cpp_type \<Rightarrow> bool" where
  "TestConcept call_with_socket f \<longleftrightarrow> call_with_socket f = Some (AwaitableType VoidType)"

text \<open>\<open>include/concepts.hpp\<close>: the concepts of streams are the traits of Boost.Beast, which are parameters.\<close>

definition AsyncReadStream :: "(cpp_type \<Rightarrow> bool) \<Rightarrow> cpp_type \<Rightarrow> bool" where
  "AsyncReadStream is_async_read_stream t = is_async_read_stream t"

definition AsyncWriteStream :: "(cpp_type \<Rightarrow> bool) \<Rightarrow> cpp_type \<Rightarrow> bool" where
  "AsyncWriteStream is_async_write_stream t = is_async_write_stream t"

text \<open>Types that exist: qualifiers are not applied to references, and there are no references to
  references.\<close>

fun plain :: "cpp_type \<Rightarrow> bool" where
  "plain (LvalueRef t) = False"
| "plain (RvalueRef t) = False"
| "plain (ConstType t) = plain t"
| "plain (VolatileType t) = plain t"
| "plain t = True"

fun type_ok :: "cpp_type \<Rightarrow> bool" where
  "type_ok (LvalueRef t) = plain t"
| "type_ok (RvalueRef t) = plain t"
| "type_ok t = plain t"

lemma remove_cv_plain: "plain t \<Longrightarrow> remove_cv t \<noteq> LvalueRef u \<and> remove_cv t \<noteq> RvalueRef u
    \<and> remove_cv t \<noteq> ConstType u \<and> remove_cv t \<noteq> VolatileType u"
  by (induction t rule: plain.induct) auto

lemma plain_no_reference: "plain t \<Longrightarrow> remove_reference t = t"
  by (cases t) auto

lemma awaitable_cases: "is_awaitable_impl t \<longleftrightarrow> (\<exists>r. t = AwaitableType r)"
  by (cases t) auto

section \<open>Process groups\<close>

text \<open>\<open>setpgid_initializer::on_exec_setup\<close>, called in the child before \<open>exec\<close>: the child becomes the leader
  of a process group of its own; the result of the system call is ignored.\<close>

datatype exec_setup = SetPgid int int

definition on_exec_setup :: "exec_setup list \<times> error_code" where
  "on_exec_setup = ([SetPgid 0 0], Success)"

section \<open>Address families\<close>

text \<open>An unscoped enumeration over \<open>std::uint8_t\<close>: any byte value can be stored in it.\<close>

type_synonym AddressFamily = byte

definition IPv4 :: AddressFamily where "IPv4 = 0"
definition IPv6 :: AddressFamily where "IPv6 = 1"

definition to_string_family :: "AddressFamily \<Rightarrow> string" where
  "to_string_family family =
     (if family = IPv4 then ''IPv4'' else if family = IPv6 then ''IPv6'' else ''Unknown'')"

section \<open>Properties\<close>

text \<open>\<open>code()\<close> and \<open>what()\<close> look through any nesting of \<open>multiple_exceptions\<close> down to the first
  exception and agree on it: a null pointer is success, a \<open>system_error\<close> yields its code and the
  code's message, any other \<open>std::exception\<close> has a text but makes \<open>code()\<close> throw that exception,
  and an exception of a foreign type escapes from both.\<close>

lemma code_what_agree:
  "(case innermost p of
      None \<Rightarrow> code p = Inr Success \<and> what message p = Inr ''Success(ep)''
    | Some (SystemError ec) \<Rightarrow> code p = Inr ec \<and> what message p = Inr (message ec)
    | Some (StdException w) \<Rightarrow> code p = Inl (StdException w) \<and> what message p = Inr w
    | Some ForeignException \<Rightarrow> code p = Inl ForeignException \<and> what message p = Inl ForeignException
    | Some (MultipleExceptions q) \<Rightarrow> False)"
  using innermost_not_multiple [of p]
  by (simp add: code_innermost what_innermost split: option.splits exn.splits)

text \<open>The concepts classify types as documented. For a type without reference, \<open>AwaitableOf\<close> does not
  depend on added qualifiers and references, and it holds exactly if the type is
  \<open>asio::awaitable<R>\<close> below them; \<open>CallableAwaitable\<close> holds exactly for a type that can be called without
  arguments and then yields such a type; so an awaitable that is not callable satisfies the combined
  concept by one alternative only.\<close>

lemma awaitable_concepts:
  assumes "plain t"
  shows "(\<forall>q \<in> {LvalueRef, RvalueRef, ConstType, VolatileType, LvalueRef \<circ> ConstType, RvalueRef \<circ> ConstType}.
            type_ok (q t) \<and> AwaitableOf (q t) = AwaitableOf t)
    \<and> (AwaitableOf t \<longleftrightarrow> (\<exists>r. remove_cv t = AwaitableType r))
    \<and> (CallableAwaitable ires t \<longleftrightarrow> (\<exists>r r'. ires t = Some r \<and> remove_cvref r = AwaitableType r'))
    \<and> (AwaitableOf t \<and> ires t = None \<longrightarrow> AwaitableOrCallableAwaitable ires t \<and> \<not> CallableAwaitable ires t)"
  using plain_no_reference [OF assms] assms
  by (auto simp: AwaitableOf_def is_awaitable_v_def remove_cvref_def awaitable_cases CallableAwaitable_def
      AwaitableOrCallableAwaitable_def split: option.splits)

end
