(* ===== verification/Stream_Utils.thy ===== *)
theory Stream_Utils
  imports Relay Asio_Coro "HOL-Library.Sublist"
begin

text \<open>
  The stream coroutines of \<open>include/stream_utils.hpp\<close>: both overloads of \<open>write\<close>, \<open>write_and_close\<close>,
  \<open>read_all\<close>, \<open>count\<close> and \<open>cat\<close>. A completion of \<open>async_write\<close> comes with the value of
  \<open>cs.cancelled()\<close> that the coroutine reads right after it.
\<close>

section \<open>write\<close>

type_synonym write_event = "error_code \<times> size_t \<times> cancellation_type"

text \<open>The overload for contiguous ranges.\<close>

definition write_block_start :: "byte list \<Rightarrow> stream_op list \<times> (unit, size_t) ctl" where
  "write_block_start rng = ([AsyncWrite Sink rng], Suspended ())"

definition write_block :: "cancel_enum \<Rightarrow> (unit, write_event, stream_op, size_t) body" where
  "write_block E s e =
     (case e of (ec, n, cancelled) \<Rightarrow>
        if cancelled \<noteq> ct_none E then ([], Returned n)
        else if ec \<noteq> Success then ([], Threw (SystemError ec))
        else ([], Returned n))"

text \<open>The overload for other ranges. \<open>ranges::views::chunk\<close> (range-v3) is a parameter, applied to the size of
  the temporary buffer. Documented behaviour: the chunks are consecutive pieces of the range, of the
  given size except for the last one, which may be shorter but is not empty.\<close>

type_synonym chunk_view = "nat \<Rightarrow> byte list \<Rightarrow> byte list list"

definition chunk_ok :: "chunk_view \<Rightarrow> bool" where
  "chunk_ok chunk \<longleftrightarrow> (\<forall>n xs. 0 < n \<longrightarrow> concat (chunk n xs) = xs
     \<and> (\<forall>c \<in> set (butlast (chunk n xs)). length c = n)
     \<and> (\<forall>c \<in> set (chunk n xs). c \<noteq> [] \<and> length c \<le> n))"

definition chunk_size :: nat where "chunk_size = 64 * 1024"

text \<open>The loop head: the next chunk is copied and written, or \<open>total\<close> is returned. The state is
  \<open>total\<close> and the chunks after the one being written.\<close>

fun write_next :: "size_t \<Rightarrow> byte list list \<Rightarrow> stream_op list \<times> (size_t \<times> byte list list, size_t) ctl" where
  "write_next tot [] = ([], Returned tot)"
| "write_next tot (c # rest) = ([AsyncWrite Sink c], Suspended (tot, rest))"

definition write_range_start :: "chunk_view \<Rightarrow> byte list \<Rightarrow> stream_op list \<times> (size_t \<times> byte list list, size_t) ctl" where
  "write_range_start chunk rng = write_next 0 (chunk chunk_size rng)"

definition write_range :: "cancel_enum \<Rightarrow> (size_t \<times> byte list list, write_event, stream_op, size_t) body" where
  "write_range E s e =
     (case (s, e) of ((tot, rest), (ec, n, cancelled)) \<Rightarrow>
        let tot = tot + n
        in if cancelled \<noteq> ct_none E then ([], Returned tot)
           else if ec \<noteq> Success then ([], Threw (SystemError ec))
           else write_next tot rest)"

section \<open>write_and_close\<close>

text \<open>\<open>stream.close()\<close> after \<open>co_await write(...)\<close> has returned.\<close>

fun then_close :: "stream_op list \<times> ('s, size_t) ctl \<Rightarrow> stream_op list \<times> ('s, size_t) ctl" where
  "then_close (ops, Returned n) = (ops @ [Close Sink], Returned n)"
| "then_close (ops, c) = (ops, c)"

definition write_and_close_start :: "chunk_view \<Rightarrow> byte list \<Rightarrow> stream_op list \<times> (size_t \<times> byte list list, size_t) ctl" where
  "write_and_close_start chunk rng = then_close (write_range_start chunk rng)"

definition write_and_close :: "cancel_enum \<Rightarrow> (size_t \<times> byte list list, write_event, stream_op, size_t) body" where
  "write_and_close E s e = then_close (write_range E s e)"

text \<open>The overload with a timeout does not close.\<close>

definition write_and_close_timed :: "cancel_enum \<Rightarrow> (size_t \<times> byte list list, write_event, stream_op, size_t) body" where
  "write_and_close_timed E s e = write_range E s e"

section \<open>read_all and count\<close>

text \<open>\<open>async_read(stream, dynamic_buffer(buffer), transfer_all())\<close> completes with an error code and the
  contents of the buffer.\<close>

definition read_all :: "(unit, error_code \<times> byte list, stream_op, byte list) body" where
  "read_all s e =
     (case e of (ec, buf) \<Rightarrow>
        if ec \<noteq> Success \<and> ec \<noteq> Eof then ([], Threw (SystemError ec))
        else ([Close Source], Returned buf))"

definition count_start :: "stream_op list \<times> (size_t, size_t) ctl" where
  "count_start = ([AsyncReadSome Source chunk_size], Suspended 0)"

fun count :: "(size_t, stream_event, stream_op, size_t) body" where
  "count tot (ReadDone ec bs) =
     (if ec = Success then ([AsyncReadSome Source chunk_size], Suspended (tot + of_nat (length bs)))
      else if ec \<noteq> Eof then ([], Threw (SystemError ec))
      else ([], Returned tot))"
| "count tot e = ([], Suspended tot)"

section \<open>cat\<close>

datatype cat_state = CatRead size_t | CatWrite size_t size_t

definition cat_start :: "stream_op list \<times> (cat_state, size_t) ctl" where
  "cat_start = ([AsyncReadSome Source chunk_size], Suspended (CatRead 0))"

text \<open>The handler around the loop: end of file closes the output, anything else is rethrown.\<close>

definition cat_catch :: "error_code \<Rightarrow> size_t \<Rightarrow> stream_op list \<times> (cat_state, size_t) ctl" where
  "cat_catch ec tot =
     (if ec \<noteq> Eof then ([], Threw (SystemError ec)) else ([Close Sink], Returned tot))"

fun cat :: "(cat_state, stream_event, stream_op, size_t) body" where
  "cat (CatRead tot) (ReadDone ec bs) =
     (if ec \<noteq> Success then cat_catch ec tot
      else ([AsyncWrite Sink bs], Suspended (CatWrite (of_nat (length bs)) tot)))"
| "cat (CatWrite n tot) (WriteDone ec m) =
     (if ec \<noteq> Success then cat_catch ec tot
      else ([AsyncReadSome Source chunk_size], Suspended (CatRead (tot + n))))"
| "cat s e = ([], Suspended s)"

section \<open>Interfaces\<close>

interpretation count_loop: byte_counter count "\<lambda>_. True" "\<lambda>tot. tot" "\<lambda>ec. ec = Eof"
  by unfold_locales auto

fun cat_acct :: "cat_state \<Rightarrow> size_t" where
  "cat_acct (CatRead tot) = tot"
| "cat_acct (CatWrite n tot) = tot + n"

fun cat_reads :: "cat_state \<Rightarrow> bool" where
  "cat_reads (CatRead _) = True"
| "cat_reads (CatWrite _ _) = False"

interpretation cat_loop: counting_relay cat cat_reads "\<lambda>s. \<not> cat_reads s" "\<lambda>ec. ec \<noteq> Success" cat_acct
proof unfold_locales
  fix s :: cat_state and ec bs
  assume "cat_reads s" "\<not> ec \<noteq> Success"
  then show "\<exists>s' h. cat s (ReadDone ec bs) = ([AsyncWrite h bs], Suspended s') \<and> \<not> cat_reads s'"
    by (cases s) auto
next
  fix s :: cat_state and ec :: error_code and bs
  assume "cat_reads s" "ec \<noteq> Success"
  then show "\<exists>ops c. cat s (ReadDone ec bs) = (ops, c) \<and> sent ops = [] \<and> finished c"
    by (cases s) (auto simp: cat_catch_def)
next
  fix s :: cat_state and n
  assume "\<not> cat_reads s"
  then show "\<exists>s' h k. cat s (WriteDone Success n) = ([AsyncReadSome h k], Suspended s') \<and> cat_reads s'"
    by (cases s) auto
next
  fix s :: cat_state and ec :: error_code and n
  assume "\<not> cat_reads s" "ec \<noteq> Success"
  then show "\<exists>ops c. cat s (WriteDone ec n) = (ops, c) \<and> sent ops = [] \<and> finished c"
    by (cases s) (auto simp: cat_catch_def)
next
  fix s :: cat_state and bs ops s'
  assume "cat_reads s" "cat s (ReadDone Success bs) = (ops, Suspended s')"
  then show "cat_acct s' = cat_acct s + of_nat (length bs)" by (cases s) auto
next
  fix s :: cat_state and n ops s'
  assume "\<not> cat_reads s" "cat s (WriteDone Success n) = (ops, Suspended s')"
  then show "cat_acct s' = cat_acct s" by (cases s) auto
next
  fix s :: cat_state and bs
  assume "cat_reads s"
  then show "\<exists>ops. cat s (ReadDone Eof bs) = (ops, Returned (cat_acct s))"
    by (cases s) (auto simp: cat_catch_def)
qed simp_all

section \<open>Chunks\<close>

text \<open>An instance of the parameter.\<close>

function chunks :: "nat \<Rightarrow> 'a list \<Rightarrow> 'a list list" where
  "chunks n xs = (if xs = [] \<or> n = 0 then [] else take n xs # chunks n (drop n xs))"
  by pat_completeness auto
termination
  by (relation "measure (\<lambda>(n, xs). length xs)") auto

declare chunks.simps [simp del]

lemma concat_chunks: "0 < n \<Longrightarrow> concat (chunks n xs) = xs"
proof (induction n xs rule: chunks.induct)
  case (1 n xs)
  then show ?case by (subst chunks.simps) auto
qed

lemma chunks_bounds: "c \<in> set (chunks n xs) \<Longrightarrow> c \<noteq> [] \<and> length c \<le> n"
proof (induction n xs rule: chunks.induct)
  case (1 n xs)
  show ?case
  proof (cases "xs = [] \<or> n = 0")
    case True
    with "1.prems" show ?thesis by (simp add: chunks.simps)
  next
    case False
    then have "chunks n xs = take n xs # chunks n (drop n xs)" by (subst chunks.simps) simp
    with "1.prems" "1.IH" [OF False] False show ?thesis by auto
  qed
qed

lemma chunks_full: "c \<in> set (butlast (chunks n xs)) \<Longrightarrow> length c = n"
proof (induction n xs rule: chunks.induct)
  case (1 n xs)
  show ?case
  proof (cases "xs = [] \<or> n = 0")
    case True
    with "1.prems" show ?thesis by (simp add: chunks.simps)
  next
    case False
    then have rec: "chunks n xs = take n xs # chunks n (drop n xs)" by (subst chunks.simps) simp
    show ?thesis
    proof (cases "length xs \<le> n")
      case True
      then have "chunks n (drop n xs) = []" by (simp add: chunks.simps)
      with "1.prems" rec show ?thesis by simp
    qed (use "1.prems" "1.IH" [OF False] rec in \<open>auto split: if_splits\<close>)
  qed
qed

lemma chunks_ok: "chunk_ok chunks"
  using chunks_bounds chunks_full by (fastforce simp: chunk_ok_def concat_chunks)

section \<open>Runs of the chunked write\<close>

abbreviation written :: "write_event list \<Rightarrow> size_t" where
  "written es \<equiv> sum_list (map (\<lambda>(ec, n, x). n) es)"

lemma write_range_cases:
  "write_range E (tot, rest) (ec, n, x) =
     (if x \<noteq> ct_none E then ([], Returned (tot + n))
      else if ec \<noteq> Success then ([], Threw (SystemError ec))
      else write_next (tot + n) rest)"
  by (simp add: write_range_def Let_def)

lemma write_run:
  assumes "drive (write_range E) (snd (write_next tot cs)) es = (ops, c)"
  shows "prefix (fst (write_next tot cs) @ ops) (map (AsyncWrite Sink) cs)
    \<and> (\<forall>t. c = Returned t \<longrightarrow>
         (\<exists>k \<le> length es. t = tot + written (take k es) \<and> length (fst (write_next tot cs) @ ops) = k))
    \<and> (\<forall>x. c = Threw x \<longrightarrow>
         (\<exists>ec n. (ec, n, ct_none E) \<in> set es \<and> ec \<noteq> Success \<and> x = SystemError ec))"
  using assms
proof (induction es arbitrary: tot cs ops c)
  case Nil
  then show ?case by (cases cs) auto
next
  case (Cons e es)
  obtain ec n x where e: "e = (ec, n, x)" by (cases e)
  show ?case
  proof (cases cs)
    case Nil
    with Cons.prems show ?thesis by force
  next
    case (Cons c0 rest)
    note cs = this
    consider (stop) "x \<noteq> ct_none E" | (fail) "x = ct_none E" "ec \<noteq> Success"
      | (go) "x = ct_none E" "ec = Success" by blast
    then show ?thesis
    proof cases
      case stop
      with Cons.prems cs e have "ops = []" "c = Returned (tot + n)"
        by (auto simp: write_range_cases)
      then show ?thesis using cs e by (auto intro!: exI [of _ 1])
    next
      case fail
      with Cons.prems cs e have "ops = []" "c = Threw (SystemError ec)"
        by (auto simp: write_range_cases)
      then show ?thesis using cs e fail by auto
    next
      case go
      obtain ops' c' where run: "drive (write_range E) (snd (write_next (tot + n) rest)) es = (ops', c')"
        by fastforce
      with Cons.prems cs e go have ops: "ops = fst (write_next (tot + n) rest) @ ops'" "c = c'"
        by (auto simp: write_range_cases split: prod.splits)
      note IH = Cons.IH [OF run]
      have "\<exists>k \<le> length (e # es). t = tot + written (take k (e # es))
          \<and> length (fst (write_next tot cs) @ ops) = k" if "c = Returned t" for t
      proof -
        from IH that ops obtain k where "k \<le> length es" "t = tot + n + written (take k es)"
          "length (fst (write_next (tot + n) rest) @ ops') = k" by auto
        then show ?thesis using cs e ops by (intro exI [of _ "Suc k"]) (auto simp: algebra_simps)
      qed
      with IH ops cs show ?thesis by auto blast
    qed
  qed
qed

lemma write_run_complete:
  assumes "es = map (\<lambda>c. (Success, of_nat (length c), ct_none E)) cs"
  shows "drive (write_range E) (snd (write_next tot cs)) es
    = (tl (map (AsyncWrite Sink) cs), Returned (tot + of_nat (length (concat cs))))"
  using assms
proof (induction cs arbitrary: tot es)
  case Nil
  then show ?case by simp
next
  case (Cons c cs)
  from Cons.IH [OF refl, of "tot + of_nat (length c)"] Cons.prems
  show ?case by (cases cs) (auto simp: write_range_cases algebra_simps)
qed

lemma sent_map_AsyncWrite [simp]: "sent (map (AsyncWrite h) cs) = concat cs"
  by (induction cs) auto

lemma prefix_sent: "prefix xs ys \<Longrightarrow> prefix (sent xs) (sent ys)"
  by (auto simp: prefix_def)

section \<open>Properties\<close>

text \<open>C8: Writing a non-contiguous range: when every \<open>async_write\<close> succeeds completely and the coroutine
  is not cancelled, the whole range has been written in order, in blocks of at most 64 KiB none of
  which is empty, and the result is its length.\<close>

theorem write_range_complete:
  assumes "es = map (\<lambda>c. (Success, of_nat (length c), ct_none E)) (chunk chunk_size rng)"
    and "chunk_ok chunk" and "drive (write_range E) (snd (write_range_start chunk rng)) es = (ops, c)"
  shows "sent (fst (write_range_start chunk rng) @ ops) = rng \<and> c = Returned (of_nat (length rng))
    \<and> (\<forall>op \<in> set (fst (write_range_start chunk rng) @ ops). \<exists>bs. op = AsyncWrite Sink bs \<and> bs \<noteq> [] \<and> length bs \<le> 65536)"
proof -
  let ?cs = "chunk chunk_size rng"
  have cat: "concat ?cs = rng" using assms(2) by (simp add: chunk_ok_def chunk_size_def)
  from write_run_complete [OF assms(1), of 0] assms(3)
  have run: "ops = tl (map (AsyncWrite Sink) ?cs)" "c = Returned (of_nat (length rng))"
    by (auto simp: write_range_start_def cat)
  have all: "fst (write_range_start chunk rng) @ ops = map (AsyncWrite Sink) ?cs"
    by (cases ?cs) (simp_all add: write_range_start_def run)
  have "sent (fst (write_range_start chunk rng) @ ops) = rng" unfolding all by (simp add: cat)
  moreover have "\<forall>op \<in> set (fst (write_range_start chunk rng) @ ops).
      \<exists>bs. op = AsyncWrite Sink bs \<and> bs \<noteq> [] \<and> length bs \<le> 65536"
    unfolding all using assms(2) [unfolded chunk_ok_def, rule_format, of 65536 rng] by (auto simp: chunk_size_def)
  ultimately show ?thesis using run(2) by blast
qed

theorem write_range_complete_witness:
  "chunks chunk_size [1, 2, 3] = [[1, 2, 3 :: byte]]
   \<and> snd (drive (write_range \<lparr>ct_none = 0, ct_terminal = 1, ct_partial = 2, ct_total = 4, ct_all = -1, ct_received = (\<lambda>ty c. c OR (ty AND 1))\<rparr>)
        (snd (write_range_start chunks [1, 2, 3])) [(Success, 3, 0)]) = Returned 3"
proof -
  let ?E = "\<lparr>ct_none = 0, ct_terminal = 1, ct_partial = 2, ct_total = 4, ct_all = -1, ct_received = (\<lambda>ty c. c OR (ty AND 1))\<rparr> :: cancel_enum"
  have c: "chunks chunk_size [1, 2, 3] = [[1, 2, 3 :: byte]]" by (simp add: chunks.simps chunk_size_def)
  obtain ops c where run: "drive (write_range ?E) (snd (write_range_start chunks [1, 2, 3])) [(Success, 3, 0)] = (ops, c)"
    by fastforce
  have "c = Returned (of_nat (length [1, 2, 3 :: byte]))"
    by (rule write_range_complete [OF _ chunks_ok run, THEN conjunct2, THEN conjunct1]) (simp add: c)
  then show ?thesis using c run by simp
qed

text \<open>C29: However the writes complete, what a chunked \<open>write\<close> hands to the stream is a prefix of the
  range; cancellation never raises an error: a returned value is the sum of the byte counts of exactly
  the writes that completed, and an exception is the error of a write that completed without
  cancellation.\<close>

theorem write_range_prefix:
  assumes "chunk_ok chunk" and "drive (write_range E) (snd (write_range_start chunk rng)) es = (ops, c)"
  shows "prefix (sent (fst (write_range_start chunk rng) @ ops)) rng
    \<and> (\<forall>t. c = Returned t \<longrightarrow> (\<exists>k \<le> length es. t = written (take k es)
           \<and> length (fst (write_range_start chunk rng) @ ops) = k))
    \<and> (\<forall>x. c = Threw x \<longrightarrow> (\<exists>ec n. (ec, n, ct_none E) \<in> set es \<and> ec \<noteq> Success \<and> x = SystemError ec))"
proof -
  have "concat (chunk chunk_size rng) = rng" using assms(1) by (simp add: chunk_ok_def chunk_size_def)
  with write_run [OF assms(2) [unfolded write_range_start_def]] show ?thesis
    using prefix_sent [of "fst (write_range_start chunk rng) @ ops" "map (AsyncWrite Sink) (chunk chunk_size rng)"]
    by (simp add: write_range_start_def)
qed

theorem write_range_prefix_witness:
  "\<exists>ops. drive (write_range \<lparr>ct_none = 0, ct_terminal = 1, ct_partial = 2, ct_total = 4, ct_all = -1, ct_received = (\<lambda>ty c. c OR (ty AND 1))\<rparr>)
        (snd (write_range_start chunks [1, 2, 3])) [(OperationAborted, 2, 2)] = (ops, Returned 2)
     \<and> prefix (sent (fst (write_range_start chunks [1, 2, 3]) @ ops)) [1, 2, 3]"
proof -
  let ?E = "\<lparr>ct_none = 0, ct_terminal = 1, ct_partial = 2, ct_total = 4, ct_all = -1, ct_received = (\<lambda>ty c. c OR (ty AND 1))\<rparr> :: cancel_enum"
  have run: "drive (write_range ?E) (snd (write_range_start chunks [1, 2, 3])) [(OperationAborted, 2, 2)] = ([], Returned 2)"
    by (simp add: write_range_start_def chunks.simps chunk_size_def write_range_cases)
  from write_range_prefix [OF chunks_ok run] run show ?thesis by blast
qed

text \<open>\<open>cat\<close> copies exactly what it reads to its output, in order; when the input ends it returns
  the number of bytes copied and closes the output, and \<open>count\<close> returns the number of bytes of its
  input.\<close>

lemma cat_copies:
  assumes "answers (\<lambda>ec. ec \<noteq> Success) True es" and "drive cat (snd cat_start) es = (ops, Suspended (CatRead t))"
  shows "sent ops = received es
    \<and> drive cat (snd cat_start) (es @ [ReadDone Eof []])
        = (ops @ [Close Sink], Returned (of_nat (length (received es))))
    \<and> snd (drive count (snd count_start) (map (ReadDone Success) bss @ [ReadDone Eof []]))
        = Returned (of_nat (length (concat bss)))"
proof -
  from assms(2) have run: "drive cat (Suspended (CatRead 0)) es = (ops, Suspended (CatRead t))"
    by (simp add: cat_start_def)
  have "sent ops = received es" by (rule cat_loop.relay_sent [OF _ assms(1) run]) simp
  moreover have "snd (drive cat (Suspended (CatRead 0)) (es @ [ReadDone Eof []]))
      = Returned (cat_acct (CatRead 0) + of_nat (length (received es)))"
    by (rule cat_loop.count_at_eof [OF _ assms(1) run]) simp_all
  moreover have "snd (drive count (Suspended 0) (map (ReadDone Success) bss @ [ReadDone Eof []]))
      = Returned (0 + of_nat (length (concat bss)))"
    by (rule count_loop.tally_total) simp_all
  ultimately show ?thesis
    using run by (simp add: cat_start_def count_start_def drive_append cat_catch_def)
qed

end
