(* ===== verification/Formatters.thy ===== *)
theory Formatters
  imports Asio_Coro
begin

text \<open>
  The \<open>std::formatter\<close> specialisations of \<open>include/formatters.hpp\<close> (addresses, endpoints,
  cancellation types, byte counts) and the size literals of \<open>include/literals.hpp\<close>.

  Textual forms of addresses belong to Boost and are parameters (a record \<open>addr_ops\<close>). Binary
  floating point is modelled exactly: the conversion of a \<open>size_t\<close> to \<open>double\<close> rounds to 53
  significant bits (ties to even), the divisions by 1024 are exact, and \<open>{:.2f}\<close> rounds the exact
  value to hundredths, ties to even.
\<close>

section \<open>Literals\<close>

definition lit_k :: "size_t \<Rightarrow> size_t" where "lit_k k = k * 1024"
definition lit_m :: "size_t \<Rightarrow> size_t" where "lit_m m = m * 1024 * 1024"
definition lit_g :: "size_t \<Rightarrow> size_t" where "lit_g g = g * 1024 * 1024 * 1024"

section \<open>Numerals\<close>

definition digit_char :: "nat \<Rightarrow> char" where
  "digit_char d = (if d < 10 then char_of (48 + d) else char_of (87 + d))"

function to_base :: "nat \<Rightarrow> nat \<Rightarrow> string" where
  "to_base b n = (if b < 2 \<or> n < b then [digit_char n] else to_base b (n div b) @ [digit_char (n mod b)])"
  by pat_completeness auto
termination
  by (relation "measure (\<lambda>(b, n). n)") auto

declare to_base.simps [simp del]

definition dec :: "nat \<Rightarrow> string" where "dec n = to_base 10 n"
definition hex :: "nat \<Rightarrow> string" where "hex n = to_base 16 n"

definition digit_value :: "char \<Rightarrow> nat" where
  "digit_value c = (let v = of_char c in if v < 58 then v - 48 else v - 87)"

definition from_base :: "nat \<Rightarrow> string \<Rightarrow> nat" where
  "from_base b s = foldl (\<lambda>acc c. acc * b + digit_value c) 0 s"

lemma digit_value_char [simp]: "d < 16 \<Longrightarrow> digit_value (digit_char d) = d"
  by (auto simp: digit_value_def digit_char_def Let_def)

text \<open>Evaluation of concrete numerals.\<close>

lemma digit_char_table:
  "digit_char 0 = CHR ''0''" "digit_char 1 = CHR ''1''" "digit_char 2 = CHR ''2''" "digit_char 3 = CHR ''3''"
  "digit_char 4 = CHR ''4''" "digit_char 5 = CHR ''5''" "digit_char 6 = CHR ''6''" "digit_char 7 = CHR ''7''"
  "digit_char 8 = CHR ''8''" "digit_char 9 = CHR ''9''" "digit_char 10 = CHR ''a''" "digit_char 11 = CHR ''b''"
  "digit_char 12 = CHR ''c''" "digit_char 13 = CHR ''d''" "digit_char 14 = CHR ''e''" "digit_char 15 = CHR ''f''"
  by code_simp+

lemma digit_char_Suc_0: "digit_char (Suc 0) = CHR ''1''"
  by code_simp

lemmas show_nat_simps = dec_def hex_def to_base.simps digit_char_table digit_char_Suc_0

lemma from_to_base:
  assumes "2 \<le> b" and "b \<le> 16"
  shows "from_base b (to_base b n) = n"
  using assms
proof (induction b n rule: to_base.induct)
  case (1 b n)
  show ?case
  proof (cases "n < b")
    case True
    with "1.prems" show ?thesis by (subst to_base.simps) (simp add: from_base_def)
  next
    case False
    with 1 have IH: "from_base b (to_base b (n div b)) = n div b" by simp
    have "n mod b < b" using "1.prems" by simp
    with "1.prems" have "n mod b < 16" by linarith
    with False IH "1.prems" show ?thesis
      by (subst to_base.simps) (simp add: from_base_def)
  qed
qed

section \<open>IP addresses and endpoints\<close>

datatype address = V4 "32 word" | V6 "128 word"

record addr_ops =
  is_v4_mapped :: "128 word \<Rightarrow> bool"
  make_address_v4 :: "128 word \<Rightarrow> 32 word"
  show_v4 :: "32 word \<Rightarrow> string"
  show_v6 :: "128 word \<Rightarrow> string"

definition normalize :: "addr_ops \<Rightarrow> address \<Rightarrow> address" where
  "normalize A addr =
     (case addr of V6 a \<Rightarrow> (if is_v4_mapped A a then V4 (make_address_v4 A a) else addr) | _ \<Rightarrow> addr)"

fun put_address :: "addr_ops \<Rightarrow> address \<Rightarrow> string" where
  "put_address A (V4 a) = show_v4 A a"
| "put_address A (V6 a) = show_v6 A a"

definition format_address :: "addr_ops \<Rightarrow> address \<Rightarrow> string" where
  "format_address A addr = put_address A (normalize A addr)"

record endpoint =
  ep_address :: address
  ep_port :: "16 word"

text \<open>\<open>parse\<close> sees the rest of the format specification; it yields the \<open>colored\<close> flag and the
  position it stopped at, or \<open>None\<close> for \<open>format_error\<close>.\<close>

definition parse_endpoint_spec :: "string \<Rightarrow> (bool \<times> string) option" where
  "parse_endpoint_spec s =
     (let (colored, it) = (case s of CHR ''c'' # r \<Rightarrow> (True, r) | _ \<Rightarrow> (False, s))
      in if it \<noteq> [] \<and> hd it \<noteq> CHR ''}'' then None else Some (colored, it))"

definition esc :: "string \<Rightarrow> string" where "esc s = CHR 0x1B # s"

definition format_endpoint :: "addr_ops \<Rightarrow> bool \<Rightarrow> endpoint \<Rightarrow> string" where
  "format_endpoint A colored e =
     (let ep = e\<lparr>ep_address := normalize A (ep_address e)\<rparr>;
          a = format_address A (ep_address ep); port = dec (unat (ep_port ep))
      in if colored then
           (case ep_address ep of
              V4 _ \<Rightarrow> esc ''[35m'' @ a @ esc ''[0m'' @ '':'' @ port
            | V6 _ \<Rightarrow> ''['' @ esc ''[34m'' @ a @ esc ''[0m'' @ '']:'' @ port)
         else
           (case ep_address ep of
              V4 _ \<Rightarrow> a @ '':'' @ port
            | V6 _ \<Rightarrow> ''['' @ a @ '']:'' @ port))"

lemma normalize_idem [simp]: "normalize A (normalize A addr) = normalize A addr"
  by (auto simp: normalize_def split: address.splits)

section \<open>Cancellation types\<close>

text \<open>The lambda \<open>append_if\<close> and the variables it captures: the output, \<open>first\<close> and \<open>type\<close>.\<close>

definition append_if ::
  "cancellation_type \<Rightarrow> string \<Rightarrow> string \<times> bool \<times> cancellation_type \<Rightarrow> string \<times> bool \<times> cancellation_type" where
  "append_if flag name st =
     (case st of (out, first, ty) \<Rightarrow>
        if ty AND flag = flag
        then (out @ (if first then '''' else ''|'') @ name, False, ty AND NOT flag)
        else (out, first, ty))"

definition format_cancellation_type :: "cancel_enum \<Rightarrow> cancellation_type \<Rightarrow> string" where
  "format_cancellation_type E ty =
     (if ty = ct_none E then ''none''
      else if ty = ct_all E then ''all''
      else
        (case append_if (ct_total E) ''total''
                (append_if (ct_partial E) ''partial''
                   (append_if (ct_terminal E) ''terminal'' ([], True, ty))) of
           (out, first, rest) \<Rightarrow>
             if rest \<noteq> ct_none E
             then out @ (if first then '''' else ''|'') @ ''0x'' @ hex (unat rest)
             else out))"

text \<open>Specification: the names of the flags that are set, in order, and the remaining bits in
  hexadecimal, separated by bars.\<close>

fun join_bar :: "string list \<Rightarrow> string" where
  "join_bar [] = []"
| "join_bar [x] = x"
| "join_bar (x # y # xs) = x @ ''|'' @ join_bar (y # xs)"

definition flag_names :: "cancel_enum \<Rightarrow> cancellation_type \<Rightarrow> string list" where
  "flag_names E ty =
     (if ty AND ct_terminal E = ct_terminal E then [''terminal''] else [])
     @ (if ty AND ct_partial E = ct_partial E then [''partial''] else [])
     @ (if ty AND ct_total E = ct_total E then [''total''] else [])"

definition flag_bits :: "cancel_enum \<Rightarrow> cancellation_type \<Rightarrow> cancellation_type" where
  "flag_bits E ty =
     (if ty AND ct_terminal E = ct_terminal E then ct_terminal E else 0)
     OR (if ty AND ct_partial E = ct_partial E then ct_partial E else 0)
     OR (if ty AND ct_total E = ct_total E then ct_total E else 0)"

definition type_tokens :: "cancel_enum \<Rightarrow> cancellation_type \<Rightarrow> string list" where
  "type_tokens E ty =
     (let rest = ty AND NOT (flag_bits E ty)
      in flag_names E ty @ (if rest \<noteq> 0 then [''0x'' @ hex (unat rest)] else []))"

lemma word_disjoint_and_not:
  fixes a b t :: cancellation_type
  assumes "a AND b = 0"
  shows "(t AND NOT a) AND b = t AND b"
proof (rule bit_word_eqI)
  fix n assume "n < LENGTH(32)"
  have "\<not> (bit a n \<and> bit b n)" using assms by (metis bit_0_eq bit_and_iff bot_apply bot_bool_def)
  then show "bit ((t AND NOT a) AND b) n = bit (t AND b) n"
    using \<open>n < LENGTH(32)\<close> by (auto simp: bit_simps)
qed

lemma join_bar_snoc: "join_bar (xs @ [y]) = join_bar xs @ (if xs = [] then '''' else ''|'') @ y"
  by (induction xs rule: join_bar.induct) auto

text \<open>One call of \<open>append_if\<close>, on an output that is the bar-separated list of the names so far.\<close>

definition strip_flag :: "cancellation_type \<Rightarrow> cancellation_type \<Rightarrow> cancellation_type" where
  "strip_flag flag t = (if t AND flag = flag then t AND NOT flag else t)"

lemma append_if_names:
  "append_if flag name (join_bar names, names = [], t) =
     (let names' = names @ (if t AND flag = flag then [name] else [])
      in (join_bar names', names' = [], strip_flag flag t))"
  by (simp add: append_if_def strip_flag_def join_bar_snoc Let_def)

lemma strip_flag_other: "flag AND g = 0 \<Longrightarrow> strip_flag flag t AND g = t AND g"
  by (simp add: strip_flag_def word_disjoint_and_not)

lemma strip_flag_bits:
  assumes "cancel_enum_ok E"
  shows "strip_flag (ct_total E) (strip_flag (ct_partial E) (strip_flag (ct_terminal E) t))
    = t AND NOT (flag_bits E t)"
proof -
  let ?t1 = "strip_flag (ct_terminal E) t" and ?t2 = "strip_flag (ct_partial E) (strip_flag (ct_terminal E) t)"
  have p: "?t1 AND ct_partial E = t AND ct_partial E"
    and l: "?t2 AND ct_total E = t AND ct_total E"
    using assms by (simp_all add: strip_flag_other cancel_enum_ok_def)
  have "strip_flag (ct_total E) ?t2 = (if t AND ct_total E = ct_total E then ?t2 AND NOT (ct_total E) else ?t2)"
    by (simp add: strip_flag_def [of "ct_total E"] l)
  moreover have "?t2 = (if t AND ct_partial E = ct_partial E then ?t1 AND NOT (ct_partial E) else ?t1)"
    by (simp add: strip_flag_def [of "ct_partial E"] p)
  ultimately show ?thesis
    by (simp add: strip_flag_def [of "ct_terminal E"] flag_bits_def ac_simps)
qed

lemma append_flags:
  assumes "cancel_enum_ok E"
  shows "append_if (ct_total E) ''total''
           (append_if (ct_partial E) ''partial'' (append_if (ct_terminal E) ''terminal'' ([], True, t)))
    = (join_bar (flag_names E t), flag_names E t = [], t AND NOT (flag_bits E t))"
proof -
  have d: "strip_flag (ct_terminal E) t AND ct_partial E = t AND ct_partial E"
    "strip_flag (ct_partial E) (strip_flag (ct_terminal E) t) AND ct_total E = t AND ct_total E"
    using assms by (simp_all add: strip_flag_other cancel_enum_ok_def)
  let ?n1 = "if t AND ct_terminal E = ct_terminal E then [''terminal''] else []"
    and ?n2 = "if t AND ct_partial E = ct_partial E then [''partial''] else []"
  have 1: "append_if (ct_terminal E) ''terminal'' ([], True, t)
    = (join_bar ?n1, ?n1 = [], strip_flag (ct_terminal E) t)"
    using append_if_names [of "ct_terminal E" "''terminal''" "[]" t] by (simp add: Let_def)
  have 2: "append_if (ct_partial E) ''partial'' (join_bar ?n1, ?n1 = [], strip_flag (ct_terminal E) t)
    = (join_bar (?n1 @ ?n2), ?n1 @ ?n2 = [], strip_flag (ct_partial E) (strip_flag (ct_terminal E) t))"
    by (simp only: append_if_names d Let_def)
  show ?thesis
    unfolding 1 2 append_if_names d strip_flag_bits [OF assms] flag_names_def Let_def by simp
qed

section \<open>Byte counts\<close>

text \<open>Division rounded to nearest, ties to even.\<close>

definition round_div :: "nat \<Rightarrow> nat \<Rightarrow> nat" where
  "round_div n d =
     (let q = n div d; r = n mod d in if 2 * r < d \<or> (2 * r = d \<and> even q) then q else Suc q)"

fun bit_len :: "nat \<Rightarrow> nat" where
  "bit_len n = (if n = 0 then 0 else Suc (bit_len (n div 2)))"

declare bit_len.simps [simp del]

text \<open>\<open>static_cast<double>\<close> of an unsigned integer, as the integer the double stands for.\<close>

definition to_double :: "nat \<Rightarrow> nat" where
  "to_double n =
     (if n < 2 ^ 53 then n else let u = 2 ^ (bit_len n - 53) in round_div n u * u)"

definition bytes_units :: "string list" where
  "bytes_units = [''bytes'', ''KiB'', ''MiB'', ''GiB'', ''TiB'', ''PiB'']"

text \<open>The loop: \<open>size\<close> is the exact quotient \<open>m / d\<close>.\<close>

function bytes_loop :: "nat \<Rightarrow> nat \<Rightarrow> nat \<Rightarrow> nat \<times> nat" where
  "bytes_loop m d index =
     (if m \<ge> 1024 * d \<and> index < length bytes_units - 1 then bytes_loop m (d * 1024) (Suc index)
      else (d, index))"
  by pat_completeness auto
termination
  by (relation "measure (\<lambda>(m, d, index). length bytes_units - index)") (auto simp: bytes_units_def)

declare bytes_loop.simps [simp del]

definition two_digits :: "nat \<Rightarrow> string" where
  "two_digits n = [digit_char (n div 10), digit_char (n mod 10)]"

definition format_fixed2 :: "nat \<Rightarrow> nat \<Rightarrow> string" where
  "format_fixed2 m d =
     (let q = round_div (100 * m) d in dec (q div 100) @ ''.'' @ two_digits (q mod 100))"

definition format_bytes :: "size_t \<Rightarrow> string" where
  "format_bytes bs =
     (if bs < 1024 then dec (unat bs) @ '' '' @ bytes_units ! 0
      else
        (let m = to_double (unat bs); (d, index) = bytes_loop m 1 0
         in format_fixed2 m d @ '' '' @ bytes_units ! index))"

lemma round_div_error:
  assumes "0 < d"
  shows "2 * \<bar>int (round_div n d) * int d - int n\<bar> \<le> int d"
proof -
  let ?q = "n div d" and ?r = "n mod d"
  have n: "int n = int ?q * int d + int ?r"
    by (metis div_mult_mod_eq of_nat_add of_nat_mult)
  have r: "?r < d" using assms by simp
  show ?thesis
  proof (cases "2 * ?r < d \<or> (2 * ?r = d \<and> even ?q)")
    case True
    then have "round_div n d = ?q" by (simp add: round_div_def)
    then have "int (round_div n d) * int d - int n = - int ?r" using n by simp
    with True show ?thesis by auto
  next
    case False
    then have "round_div n d = Suc ?q" by (auto simp: round_div_def Let_def)
    then have "int (round_div n d) * int d - int n = int d - int ?r"
      using n by (simp add: algebra_simps)
    with False r show ?thesis by auto
  qed
qed

lemma round_div_ge: "0 < d \<Longrightarrow> a * d \<le> n \<Longrightarrow> a \<le> round_div n d"
  by (auto simp: round_div_def Let_def less_eq_div_iff_mult_less_eq intro: le_SucI)

lemma round_div_le:
  assumes "0 < d" and "n \<le> a * d"
  shows "round_div n d \<le> a"
proof (cases "n = a * d")
  case True
  with assms show ?thesis by (simp add: round_div_def Let_def)
next
  case False
  with assms have "n div d < a" by (simp add: div_less_iff_less_mult)
  then show ?thesis by (auto simp: round_div_def Let_def)
qed

lemma bytes_loop_result:
  assumes "bytes_loop m d index = (d', index')" and "index \<le> 5" and "d = 1024 ^ index"
    and "d \<le> m"
  shows "index \<le> index' \<and> index' \<le> 5 \<and> d' = 1024 ^ index' \<and> d' \<le> m
    \<and> (index' < 5 \<longrightarrow> m < 1024 ^ Suc index')"
  using assms
proof (induction m d index rule: bytes_loop.induct)
  case (1 m d index)
  show ?case
  proof (cases "m \<ge> 1024 * d \<and> index < length bytes_units - 1")
    case True
    then have "bytes_loop m d index = bytes_loop m (d * 1024) (Suc index)"
      by (subst bytes_loop.simps) simp
    with "1.prems"(1) have "bytes_loop m (d * 1024) (Suc index) = (d', index')" by simp
    from "1.IH" [OF True this] True "1.prems" show ?thesis
      by (auto simp: bytes_units_def)
  next
    case False
    then have "bytes_loop m d index = (d, index)" by (subst bytes_loop.simps) auto
    with False "1.prems" show ?thesis by (auto simp: bytes_units_def)
  qed
qed

lemma to_double_exact: "n < 2 ^ 53 \<Longrightarrow> to_double n = n"
  by (simp add: to_double_def)

lemma bit_len_ge: "2 ^ k \<le> n \<Longrightarrow> k < bit_len n"
proof (induction k arbitrary: n)
  case 0
  then show ?case by (subst bit_len.simps) simp
next
  case (Suc k)
  then have "2 ^ k \<le> n div 2" by simp
  moreover have "0 < n" using Suc.prems by (cases n) auto
  ultimately show ?case using Suc.IH [of "n div 2"] by (subst bit_len.simps) simp
qed

lemma bit_len_bounds: "0 < n \<Longrightarrow> 2 ^ (bit_len n - 1) \<le> n"
proof (induction n rule: bit_len.induct)
  case (1 n)
  show ?case
  proof (cases "n div 2 = 0")
    case True
    then have "bit_len n = 1" using "1.prems" by (simp add: bit_len.simps)
    then show ?thesis using "1.prems" by simp
  next
    case False
    with 1 have "2 ^ (bit_len (n div 2) - 1) \<le> n div 2" by simp
    moreover have "bit_len n = Suc (bit_len (n div 2))" "0 < bit_len (n div 2)"
      using False "1.prems" by (simp_all add: bit_len.simps [of n] bit_len.simps [of "n div 2"])
    ultimately show ?thesis by (cases "bit_len (n div 2)") auto
  qed
qed

text \<open>Conversion to \<open>double\<close> is monotone at the powers of two the loop compares with.\<close>

lemma to_double_ge_1024: "1024 \<le> n \<Longrightarrow> 1024 \<le> to_double n"
proof (cases "n < 2 ^ 53")
  case True
  then show "1024 \<le> n \<Longrightarrow> 1024 \<le> to_double n" by (simp add: to_double_def)
next
  case False
  let ?u = "2 ^ (bit_len n - 53) :: nat"
  have len: "53 < bit_len n" using False by (intro bit_len_ge) simp
  have "2 ^ 52 * ?u = (2 :: nat) ^ (bit_len n - 1)"
    unfolding power_add [symmetric] using len by (intro arg_cong [where f = "\<lambda>k. 2 ^ k"]) arith
  also have "\<dots> \<le> n" using False by (intro bit_len_bounds) simp
  finally have "2 ^ 52 \<le> round_div n ?u" by (intro round_div_ge) simp_all
  moreover have "1 \<le> ?u" by simp
  ultimately have "2 ^ 52 * 1 \<le> round_div n ?u * ?u" by (intro mult_le_mono) auto
  then show "1024 \<le> to_double n" using False by (simp add: to_double_def Let_def)
qed

section \<open>Properties\<close>

text \<open>Formatting a cancellation type that is neither \<open>none\<close> nor \<open>all\<close> lists, separated by bars
  and in the order terminal, partial, total, exactly the types whose bits are all set, followed by
  the bits that belong to none of them in hexadecimal; the hexadecimal text determines those bits.\<close>

lemma format_cancellation_type_tokens:
  assumes "cancel_enum_ok E" and "ty \<noteq> ct_none E" and "ty \<noteq> ct_all E"
  shows "format_cancellation_type E ty = join_bar (type_tokens E ty)
    \<and> from_base 16 (hex (unat (ty AND NOT (flag_bits E ty)))) = unat (ty AND NOT (flag_bits E ty))"
proof
  have none: "ct_none E = 0" using assms(1) by (simp add: cancel_enum_ok_def)
  show "format_cancellation_type E ty = join_bar (type_tokens E ty)"
    using assms(2,3) none
    by (simp add: format_cancellation_type_def append_flags [OF assms(1)] type_tokens_def
        join_bar_snoc Let_def)
  show "from_base 16 (hex (unat (ty AND NOT (flag_bits E ty)))) = unat (ty AND NOT (flag_bits E ty))"
    by (simp add: hex_def from_to_base)
qed

definition asio_enum :: cancel_enum where
  "asio_enum = \<lparr>ct_none = 0, ct_terminal = 1, ct_partial = 2, ct_total = 4, ct_all = 0xFFFFFFFF,
     ct_received = (\<lambda>ty c. c OR (ty AND 1))\<rparr>"

lemma asio_enum_ok [simp]: "cancel_enum_ok asio_enum"
  unfolding cancel_enum_ok_def asio_enum_def by simp

text \<open>A byte count of at least 1024 is printed with a unit whose index \<open>k\<close> lies between 1 (KiB)
  and 5 (PiB), so the table of units is never read out of range; the unit is the largest one that
  does not exceed the (double) value, except that nothing is larger than PiB; the printed number of
  hundredths \<open>q\<close> is within half a hundredth of the exact quotient, at least 1.00, and below PiB at
  most 1024.00.\<close>

lemma format_bytes_unit:
  assumes "1024 \<le> bs"
  defines "m \<equiv> to_double (unat bs)"
  shows "\<exists>k q. format_bytes bs = dec (q div 100) @ ''.'' @ two_digits (q mod 100) @ '' '' @ bytes_units ! k
    \<and> 1 \<le> k \<and> k < length bytes_units
    \<and> 1024 ^ k \<le> m \<and> (k < 5 \<longrightarrow> m < 1024 ^ Suc k)
    \<and> 2 * \<bar>int q * 1024 ^ k - 100 * int m\<bar> \<le> 1024 ^ k
    \<and> 100 \<le> q \<and> (k < 5 \<longrightarrow> q \<le> 102400)"
proof -
  have "unat (1024 :: size_t) = 1024" by simp
  then have ge: "1024 \<le> m" unfolding m_def
    using assms(1) by (intro to_double_ge_1024) (simp add: word_le_nat_alt)
  obtain d k where dk: "bytes_loop m 1 0 = (d, k)" by fastforce
  from bytes_loop_result [OF this] ge
  have k: "k \<le> 5" "d = 1024 ^ k" "d \<le> m" "k < 5 \<longrightarrow> m < 1024 ^ Suc k" by auto
  have k1: "1 \<le> k" using k ge by (cases k) auto
  let ?q = "round_div (100 * m) d"
  have d0: "0 < d" using k by simp
  have fmt: "format_bytes bs = dec (?q div 100) @ ''.'' @ two_digits (?q mod 100) @ '' '' @ bytes_units ! k"
    using assms(1) dk by (simp add: format_bytes_def format_fixed2_def Let_def m_def not_less)
  have err: "2 * \<bar>int ?q * 1024 ^ k - 100 * int m\<bar> \<le> 1024 ^ k"
    using round_div_error [OF d0, of "100 * m"] k(2) by simp
  have lo: "100 \<le> ?q" using k(3) d0 by (intro round_div_ge) auto
  have hi: "k < 5 \<longrightarrow> ?q \<le> 102400" using k d0 by (auto intro!: round_div_le)
  show ?thesis using fmt k k1 err lo hi by (intro exI [of _ k] exI [of _ ?q]) (simp add: bytes_units_def)
qed

end
