(* ===== verification/Log_Lines.thy ===== *)
theory Log_Lines
  imports Formatters
begin

text \<open>
  Logging from a pipe: \<open>split_lines\<close> of \<open>include/log.hpp\<close> and both overloads of \<open>log\<close> in
  \<open>lib/log.cpp\<close>, with the cancellation filter and the cancellation handler that \<open>log\<close> installs.

  While \<open>async_read_until\<close> is outstanding it appends data to the stream buffer (\<open>Fill\<close>); the
  cancellation handler may be invoked at any such moment (\<open>CancelSlot\<close>), also when the operation has
  already finished but the coroutine has not been resumed yet; \<open>ReadUntilDone\<close> resumes the
  coroutine. Output other than the calls of \<open>handleLine\<close> is not recorded.
\<close>

abbreviation LF :: char where "LF \<equiv> CHR 0x0A"

section \<open>Splitting\<close>

text \<open>\<open>std::views::split\<close> at a character: an empty range has no parts; otherwise there is one more part
  than there are delimiters.\<close>

fun split_parts :: "char \<Rightarrow> string \<Rightarrow> string list" where
  "split_parts d [] = [[]]"
| "split_parts d (c # cs) =
     (if c = d then [] # split_parts d cs
      else (case split_parts d cs of [] \<Rightarrow> [[c]] | p # ps \<Rightarrow> (c # p) # ps))"

definition views_split :: "char \<Rightarrow> string \<Rightarrow> string list" where
  "views_split d s = (if s = [] then [] else split_parts d s)"

definition ends_with :: "string \<Rightarrow> char \<Rightarrow> bool" where
  "ends_with s c \<longleftrightarrow> s \<noteq> [] \<and> last s = c"

definition split_lines :: "string \<Rightarrow> string list" where
  "split_lines ls = views_split LF (if ends_with ls LF then butlast ls else ls)"

section \<open>log\<close>

datatype log_event =
    Fill string
  | CancelSlot cancellation_type
  | ReadUntilDone error_code nat cancellation_type

datatype log_action =
    AsyncReadUntil
  | HandleLine string
  | EmitSignal cancellation_type
  | ClosePipe

text \<open>The filter passed to \<open>reset_cancellation_state\<close>.\<close>

definition log_filter :: "cancel_enum \<Rightarrow> cancellation_type \<Rightarrow> cancellation_type" where
  "log_filter E ty = ty AND (ct_terminal E OR ct_partial E)"

definition log_start :: "log_action list \<times> (string, unit) ctl" where
  "log_start = ([AsyncReadUntil], Suspended [])"

text \<open>The handler assigned to the cancellation slot.\<close>

definition log_on_cancel :: "string \<Rightarrow> cancellation_type \<Rightarrow> log_action list" where
  "log_on_cancel buf ty = map HandleLine (views_split LF buf) @ [EmitSignal ty]"

text \<open>The code after the loop.\<close>

definition log_after_loop :: "string \<Rightarrow> error_code \<Rightarrow> log_action list \<times> (string, unit) ctl" where
  "log_after_loop buf ec =
     (let flush = map HandleLine (views_split LF buf)
      in if ec = Eof then (flush @ [ClosePipe], Returned ())
         else if ec \<noteq> Success then (flush, Threw (SystemError ec))
         else (flush, Returned ()))"

fun log_body :: "cancel_enum \<Rightarrow> (string, log_event, log_action, unit) body" where
  "log_body E buf (Fill inp) = ([], Suspended (buf @ inp))"
| "log_body E buf (CancelSlot ty) = (log_on_cancel buf ty, Suspended buf)"
| "log_body E buf (ReadUntilDone ec n cancelled) =
     (if isCancelled E cancelled (ct_all E)
      then ([], Threw (SystemError (make_system_error OperationAborted)))
      else if ec \<noteq> Success then log_after_loop buf ec
      else ([HandleLine (take n buf), AsyncReadUntil], Suspended (drop n buf)))"

text \<open>The overload that prints: what its \<open>handleLine\<close> writes.\<close>

definition print_line :: "string \<Rightarrow> string \<Rightarrow> string" where
  "print_line prefix line =
     (let line = (if ends_with line LF then butlast line else line)
      in prefix @ '': '' @ esc ''[32m'' @ line @ esc ''[0m'' @ [LF])"

section \<open>Lines of a text\<close>

text \<open>Reference: the lines of a text, each with its line feed; a last line without one is kept if it is
  not empty.\<close>

fun text_lines :: "string \<Rightarrow> string list" where
  "text_lines [] = []"
| "text_lines (c # cs) =
     (if c = LF then [c] # text_lines cs
      else (case text_lines cs of [] \<Rightarrow> [[c]] | l # ls \<Rightarrow> (c # l) # ls))"

definition is_line :: "string \<Rightarrow> bool" where
  "is_line l \<longleftrightarrow> (\<exists>xs. l = xs @ [LF] \<and> LF \<notin> set xs)"

lemma text_lines_concat: "concat (text_lines s) = s"
  by (induction s) (auto split: list.splits)

lemma text_lines_line: "LF \<notin> set xs \<Longrightarrow> text_lines ((xs @ [LF]) @ rest) = (xs @ [LF]) # text_lines rest"
  by (induction xs) auto

lemma text_lines_lines: "\<forall>l \<in> set ls. is_line l \<Longrightarrow> text_lines (concat ls @ rest) = ls @ text_lines rest"
proof (induction ls)
  case (Cons l ls)
  then obtain xs where "l = xs @ [LF]" "LF \<notin> set xs" by (auto simp: is_line_def)
  with Cons text_lines_line [of xs "concat ls @ rest"] show ?case by simp
qed simp

lemma text_lines_tail: "LF \<notin> set s \<Longrightarrow> text_lines s = (if s = [] then [] else [s])"
  by (induction s) auto

lemma split_parts_tail: "d \<notin> set s \<Longrightarrow> split_parts d s = [s]"
  by (induction s) auto

lemma views_split_tail: "LF \<notin> set s \<Longrightarrow> views_split LF s = text_lines s"
  by (simp add: views_split_def split_parts_tail text_lines_tail)

lemma split_parts_append: "d \<notin> set x \<Longrightarrow> split_parts d (x @ d # s) = x # split_parts d s"
  by (induction x) auto

section \<open>Documented behaviour of async_read_until\<close>

text \<open>On success \<open>n\<close> is the number of bytes up to and including the first delimiter in the buffer; on
  failure the buffer holds no delimiter.\<close>

definition line_end :: "string \<Rightarrow> nat \<Rightarrow> bool" where
  "line_end buf n \<longleftrightarrow> 0 < n \<and> n \<le> length buf \<and> is_line (take n buf)"

fun read_until_ok :: "cancel_enum \<Rightarrow> string \<Rightarrow> log_event list \<Rightarrow> bool" where
  "read_until_ok E buf [] = True"
| "read_until_ok E buf (Fill inp # es) = read_until_ok E (buf @ inp) es"
| "read_until_ok E buf (CancelSlot ty # es) = read_until_ok E buf es"
| "read_until_ok E buf (ReadUntilDone ec n x # es) =
     (if ec = Success then line_end buf n \<and> read_until_ok E (drop n buf) es
      else LF \<notin> set buf \<and> es = [])"

fun fills :: "log_event list \<Rightarrow> string" where
  "fills [] = []"
| "fills (Fill inp # es) = inp @ fills es"
| "fills (e # es) = fills es"

definition uncancelled :: "cancel_enum \<Rightarrow> log_event list \<Rightarrow> bool" where
  "uncancelled E es \<longleftrightarrow>
     (\<forall>e \<in> set es. case e of CancelSlot _ \<Rightarrow> False
        | ReadUntilDone _ _ x \<Rightarrow> \<not> isCancelled E x (ct_all E) | Fill _ \<Rightarrow> True)"

fun handled :: "log_action list \<Rightarrow> string list" where
  "handled [] = []"
| "handled (HandleLine l # as) = l # handled as"
| "handled (_ # as) = handled as"

lemma handled_append [simp]: "handled (xs @ ys) = handled xs @ handled ys"
  by (induction xs rule: handled.induct) auto

lemma handled_map [simp]: "handled (map HandleLine ls) = ls"
  by (induction ls) auto

lemma uncancelled_Cons:
  "uncancelled E (e # es) \<longleftrightarrow> (case e of CancelSlot _ \<Rightarrow> False
     | ReadUntilDone _ _ x \<Rightarrow> \<not> isCancelled E x (ct_all E) | Fill _ \<Rightarrow> True) \<and> uncancelled E es"
  by (auto simp: uncancelled_def)

text \<open>The lines handled, followed by the lines of what is still buffered, are the lines of the text
  that arrived; when the coroutine has ended nothing is left in the buffer.\<close>

lemma log_run:
  assumes "read_until_ok E buf es" and "uncancelled E es"
    and "drive (log_body E) (Suspended buf) es = (as, c)"
  shows "(\<forall>buf'. c = Suspended buf' \<longrightarrow> handled as @ text_lines buf' = text_lines (buf @ fills es))
    \<and> (finished c \<longrightarrow> handled as = text_lines (buf @ fills es))"
  using assms
proof (induction es arbitrary: buf as c)
  case Nil
  then show ?case by auto
next
  case (Cons e es)
  show ?case
  proof (cases e)
    case (Fill inp)
    with Cons.prems show ?thesis
      using Cons.IH [of "buf @ inp" as c] by (auto simp: uncancelled_Cons split: prod.splits)
  next
    case (CancelSlot ty)
    with Cons.prems show ?thesis by (simp add: uncancelled_Cons)
  next
    case (ReadUntilDone ec n x)
    with Cons.prems have nc: "\<not> isCancelled E x (ct_all E)" "uncancelled E es"
      by (simp_all add: uncancelled_Cons)
    show ?thesis
    proof (cases "ec = Success")
      case True
      with Cons.prems(1) ReadUntilDone have l: "line_end buf n" "read_until_ok E (drop n buf) es" by auto
      obtain as' where run: "drive (log_body E) (Suspended (drop n buf)) es = (as', c)"
        "as = HandleLine (take n buf) # AsyncReadUntil # as'"
        using Cons.prems(3) ReadUntilDone True nc by (auto split: prod.splits)
      have "text_lines (buf @ fills es) = take n buf # text_lines (drop n buf @ fills es)"
        using text_lines_lines [of "[take n buf]" "drop n buf @ fills es"] l(1)
        by (simp add: line_end_def append.assoc [symmetric] del: append_assoc)
      with Cons.IH [OF l(2) nc(2) run(1)] run(2) ReadUntilDone show ?thesis by simp
    next
      case False
      with Cons.prems(1) ReadUntilDone have "LF \<notin> set buf" "es = []" by auto
      with Cons.prems(3) ReadUntilDone False nc show ?thesis
        by (auto simp: log_after_loop_def Let_def views_split_tail split: if_splits)
    qed
  qed
qed

text \<open>How it ends is decided by the error code of the read that fails, and by nothing else.\<close>

lemma log_end:
  assumes "read_until_ok E buf es" and "uncancelled E es"
    and "drive (log_body E) (Suspended buf) es = (as, c)"
  shows "(\<forall>ec n x. ReadUntilDone ec n x \<in> set es \<and> ec \<noteq> Success \<longrightarrow>
        c = (if ec = Eof then Returned () else Threw (SystemError ec)) \<and> (ClosePipe \<in> set as \<longleftrightarrow> ec = Eof))
    \<and> ((\<forall>ec n x. ReadUntilDone ec n x \<in> set es \<longrightarrow> ec = Success) \<longrightarrow>
        (\<exists>buf'. c = Suspended buf') \<and> ClosePipe \<notin> set as)"
  using assms
proof (induction es arbitrary: buf as c)
  case (Cons e es)
  have nc: "uncancelled E es" using Cons.prems(2) by (simp add: uncancelled_Cons)
  obtain bs c1 where b: "log_body E buf e = (bs, c1)" by fastforce
  show ?case
  proof (cases c1)
    case (Suspended buf')
    obtain as' where run: "drive (log_body E) (Suspended buf') es = (as', c)" "as = bs @ as'"
      using Cons.prems(3) b Suspended by (auto split: prod.splits)
    have step: "ClosePipe \<notin> set bs" "read_until_ok E buf' es" "\<And>ec n x. e = ReadUntilDone ec n x \<Longrightarrow> ec = Success"
      using b Suspended Cons.prems(1,2)
      by (cases e; auto simp: log_after_loop_def Let_def uncancelled_Cons split: if_splits)+
    note IH = Cons.IH [OF step(2) nc run(1)]
    have "c = (if ec = Eof then Returned () else Threw (SystemError ec)) \<and> (ClosePipe \<in> set as \<longleftrightarrow> ec = Eof)"
      if "ReadUntilDone ec n x \<in> set (e # es)" "ec \<noteq> Success" for ec n x
    proof -
      have "ReadUntilDone ec n x \<in> set es" using that step(3) by auto
      with IH [THEN conjunct1, rule_format, of ec n x] that(2) step(1) run(2) show ?thesis by simp
    qed
    moreover have "(\<exists>buf'. c = Suspended buf') \<and> ClosePipe \<notin> set as"
      if "\<forall>ec n x. ReadUntilDone ec n x \<in> set (e # es) \<longrightarrow> ec = Success"
      using IH [THEN conjunct2] that step(1) run(2) by auto
    ultimately show ?thesis by blast
  qed (use Cons.prems b in \<open>cases e; auto simp: log_after_loop_def Let_def uncancelled_Cons split: if_splits\<close>)+
qed simp

section \<open>Runs after a cancellation\<close>

definition resumed_cancelled :: "cancel_enum \<Rightarrow> log_event list \<Rightarrow> bool" where
  "resumed_cancelled E es \<longleftrightarrow>
     (\<forall>e \<in> set es. case e of ReadUntilDone _ _ x \<Rightarrow> isCancelled E x (ct_all E) | _ \<Rightarrow> True)"

lemma cancelled_run:
  assumes "resumed_cancelled E es" and "drive (log_body E) (Suspended buf) es = (as, c)"
  shows "AsyncReadUntil \<notin> set as \<and> ClosePipe \<notin> set as \<and> (\<forall>r. c \<noteq> Returned r)
    \<and> (\<forall>x. c = Threw x \<longrightarrow> x = SystemError OperationAborted)
    \<and> ((\<forall>ty. CancelSlot ty \<notin> set es) \<longrightarrow> as = [])"
  using assms
proof (induction es arbitrary: buf as c)
  case Nil
  then show ?case by auto
next
  case (Cons e es)
  have r: "resumed_cancelled E es" using Cons.prems(1) by (simp add: resumed_cancelled_def)
  show ?case
  proof (cases e)
    case (Fill inp)
    with Cons.prems Cons.IH [OF r, of "buf @ inp" as c] show ?thesis by (auto split: prod.splits)
  next
    case (CancelSlot ty)
    obtain as' where run: "drive (log_body E) (Suspended buf) es = (as', c)" "as = log_on_cancel buf ty @ as'"
      using Cons.prems(2) CancelSlot by (auto split: prod.splits)
    with Cons.IH [OF r run(1)] CancelSlot show ?thesis by (auto simp: log_on_cancel_def)
  next
    case (ReadUntilDone ec n x)
    with Cons.prems show ?thesis by (auto simp: resumed_cancelled_def make_system_error_def)
  qed
qed

section \<open>Properties\<close>

text \<open>C5: Without cancellation, \<open>log\<close> loses nothing: when it ends, the sequence of strings passed to
  \<open>handleLine\<close> is exactly the sequence of lines of the text that came through the pipe (complete
  lines with their line feed, then the incomplete last line if there is one). It ends exactly when a
  read fails: at the end of the file it closes the pipe and returns, on every other error it leaves
  the pipe open and throws that error. At any earlier moment the lines handled and the lines still
  buffered together are the lines of the text so far, and the pipe is open.\<close>

theorem log_lines_exact:
  assumes "read_until_ok E [] es" and "uncancelled E es"
    and "drive (log_body E) (snd log_start) es = (as, c)"
  shows "(finished c \<longrightarrow> handled as = text_lines (fills es))
    \<and> (\<forall>buf. c = Suspended buf \<longrightarrow> handled as @ text_lines buf = text_lines (fills es))
    \<and> (\<forall>ec n x. ReadUntilDone ec n x \<in> set es \<and> ec \<noteq> Success \<longrightarrow>
         c = (if ec = Eof then Returned () else Threw (SystemError ec)) \<and> (ClosePipe \<in> set as \<longleftrightarrow> ec = Eof))
    \<and> ((\<forall>ec n x. ReadUntilDone ec n x \<in> set es \<longrightarrow> ec = Success) \<longrightarrow>
         (\<exists>buf. c = Suspended buf) \<and> ClosePipe \<notin> set as)"
proof -
  have run: "drive (log_body E) (Suspended []) es = (as, c)" using assms(3) by (simp add: log_start_def)
  show ?thesis using log_run [OF assms(1,2) run] log_end [OF assms(1,2) run] by simp
qed

theorem log_lines_exact_witness:
  "handled (fst (drive (log_body asio_enum) (snd log_start)
      [Fill ''a'', Fill [CHR ''b'', LF, CHR ''c''], ReadUntilDone Success 3 0, ReadUntilDone Eof 0 0]))
   = [[CHR ''a'', CHR ''b'', LF], ''c'']"
proof -
  let ?es = "[Fill ''a'', Fill [CHR ''b'', LF, CHR ''c''], ReadUntilDone Success 3 0, ReadUntilDone Eof 0 0]"
  have line: "is_line [CHR ''a'', CHR ''b'', LF]"
    unfolding is_line_def by (rule exI [of _ "''ab''"]) simp
  have "read_until_ok asio_enum [] ?es" using line by (simp add: line_end_def)
  moreover have "uncancelled asio_enum ?es" by (simp add: uncancelled_def isCancelled_def asio_enum_def)
  moreover have run: "drive (log_body asio_enum) (snd log_start) ?es
      = ([HandleLine [CHR ''a'', CHR ''b'', LF], AsyncReadUntil, HandleLine ''c'', ClosePipe], Returned ())"
    by (simp add: log_start_def isCancelled_def asio_enum_def log_after_loop_def views_split_def)
  ultimately have "handled [HandleLine [CHR ''a'', CHR ''b'', LF], AsyncReadUntil, HandleLine ''c'', ClosePipe]
      = text_lines (fills ?es)"
    using log_lines_exact by fastforce
  then show ?thesis using run by simp
qed

text \<open>From the moment its cancellation handler has run, \<open>log\<close> does not touch the pipe any more: it
  starts no read and does not close it; it never returns normally, and when it is resumed it throws
  \<open>operation_aborted\<close>. The handler passes on what is buffered at that moment and then emits the inner
  signal; afterwards no line is handled unless the handler is invoked again.\<close>

lemma log_cancelled_leaves_pipe:
  assumes "resumed_cancelled E es"
    and "drive (log_body E) (Suspended buf) (CancelSlot ty # es) = (as, c)"
  shows "AsyncReadUntil \<notin> set as \<and> ClosePipe \<notin> set as \<and> (\<forall>r. c \<noteq> Returned r)
    \<and> (\<forall>x. c = Threw x \<longrightarrow> x = SystemError OperationAborted)
    \<and> (\<exists>rest. as = map HandleLine (views_split LF buf) @ EmitSignal ty # rest
         \<and> ((\<forall>ty'. CancelSlot ty' \<notin> set es) \<longrightarrow> rest = []))"
proof -
  obtain as' where run: "drive (log_body E) (Suspended buf) es = (as', c)" "as = log_on_cancel buf ty @ as'"
    using assms(2) by (auto split: prod.splits)
  from cancelled_run [OF assms(1) run(1)] run(2) show ?thesis by (auto simp: log_on_cancel_def)
qed

text \<open>The cancellation handler does not consume the buffer: invoked twice before the coroutine is
  resumed, it passes the buffered lines on twice; and a buffered complete line is followed by a
  spurious empty line, which \<open>split_lines\<close> would have dropped.\<close>

lemma log_cancel_repeats:
  "handled (fst (drive (log_body E) (Suspended buf) [CancelSlot ty, CancelSlot ty']))
     = views_split LF buf @ views_split LF buf
   \<and> (is_line l \<longrightarrow>
        handled (fst (drive (log_body E) (Suspended l) [CancelSlot ty])) = [butlast l, []]
        \<and> (butlast l \<noteq> [] \<longrightarrow> split_lines l = [butlast l]))"
proof (intro conjI impI)
  show "handled (fst (drive (log_body E) (Suspended buf) [CancelSlot ty, CancelSlot ty']))
     = views_split LF buf @ views_split LF buf"
    by (simp add: log_on_cancel_def)
next
  assume "is_line l"
  then obtain xs where l: "l = xs @ [LF]" "LF \<notin> set xs" by (auto simp: is_line_def)
  then show "handled (fst (drive (log_body E) (Suspended l) [CancelSlot ty])) = [butlast l, []]"
    by (simp add: log_on_cancel_def views_split_def split_parts_append)
  show "split_lines l = [butlast l]" if "butlast l \<noteq> []"
    using l that by (simp add: split_lines_def ends_with_def views_split_def split_parts_tail)
qed

text \<open>C39: \<open>split_lines\<close> inverts joining lines with line feeds, for every list of lines without line
  feeds other than the list of one empty line; a text consisting of a single line feed, however, has
  no line at all.\<close>

theorem split_lines_roundtrip:
  assumes "\<forall>l \<in> set ls. LF \<notin> set l" and "ls \<noteq> [[]]"
  shows "split_lines (concat (map (\<lambda>l. l @ [LF]) ls)) = ls \<and> split_lines [LF] = []"
proof
  show "split_lines [LF] = []" by (simp add: split_lines_def ends_with_def views_split_def)
next
  have parts: "split_parts LF (concat (map (\<lambda>l. l @ [LF]) ks) @ k) = ks @ [k]"
    if "\<forall>l \<in> set ks. LF \<notin> set l" "LF \<notin> set k" for ks k
    using that by (induction ks) (auto simp: split_parts_tail split_parts_append)
  show "split_lines (concat (map (\<lambda>l. l @ [LF]) ls)) = ls"
  proof (cases ls rule: rev_exhaust)
    case Nil
    then show ?thesis by (simp add: split_lines_def ends_with_def views_split_def)
  next
    case (snoc ks k)
    let ?s = "concat (map (\<lambda>l. l @ [LF]) ks) @ k"
    have "concat (map (\<lambda>l. l @ [LF]) ls) = ?s @ [LF]" using snoc by simp
    moreover have "?s \<noteq> []" using snoc assms(2) by auto
    ultimately show ?thesis
      using parts [of ks k] snoc assms(1)
      by (auto simp: split_lines_def ends_with_def views_split_def butlast_append)
  qed
qed

theorem split_lines_roundtrip_witness:
  "split_lines [CHR ''a'', LF, LF, CHR ''b'', LF] = [''a'', [], ''b'']"
  using split_lines_roundtrip [of "[''a'', [], ''b'']"] by simp

text \<open>The cancellation filter of \<open>log\<close> passes terminal and partial cancellation unchanged and
  suppresses total cancellation.\<close>

lemma log_filter_types:
  assumes "cancel_enum_ok E"
  shows "log_filter E (ct_terminal E) = ct_terminal E \<and> log_filter E (ct_partial E) = ct_partial E
    \<and> log_filter E (ct_total E) = ct_none E"
  using assms
  by (simp add: log_filter_def cancel_enum_ok_def bit.conj_disj_distrib ac_simps)

end
