(* ===== verification/Echo_Client.thy ===== *)
theory Echo_Client
  imports Complex_Main Relay
begin

text \<open>
  The load generators \<open>bin/client.cpp\<close> and \<open>bin/corosio_client.cpp\<close>: write and read loops, the
  connection attempt over a list of endpoints, the checks of the command line and the distribution
  of the clients over the IO contexts. All counters are \<open>size_t\<close> and wrap around. Times are integers
  (nanoseconds); what the clock says is an input. The number of seconds given on the command line (a
  \<open>double\<close>) is a rational number: rounding of decimal fractions and NaN are outside the model.
\<close>

section \<open>Configuration\<close>

record ClientConfig =
  buffer_size :: size_t
  size_limit :: "size_t option"
  duration :: "int option"

text \<open>The constructor of \<open>Client\<close> asserts that the buffer is not empty.\<close>

definition new_Client :: "ClientConfig \<Rightarrow> ClientConfig option" where
  "new_Client config = (if buffer_size config > 0 then Some config else None)"

definition default_ClientConfig :: ClientConfig where
  "default_ClientConfig = \<lparr>buffer_size = 64 * 1024, size_limit = None, duration = Some 1000000000\<rparr>"

definition limit_of :: "ClientConfig \<Rightarrow> size_t" where
  "limit_of cfg = (case size_limit cfg of Some s \<Rightarrow> s | None \<Rightarrow> - 1)"

text \<open>The payload: 0..255, 0..255, ...\<close>

definition payload :: "size_t \<Rightarrow> byte list" where
  "payload n = map of_nat [0..<unat n]"

datatype client_op = WriteSome size_t | WriteAll size_t | ReadSome size_t | ShutdownWrite

section \<open>Write loop of client.cpp\<close>

text \<open>\<open>std::min(total - size, data.size())\<close>, on unsigned 64-bit values.\<close>

definition client_request :: "ClientConfig \<Rightarrow> size_t \<Rightarrow> size_t" where
  "client_request cfg tot = min (tot - limit_of cfg) (buffer_size cfg)"

definition client_write_head :: "ClientConfig \<Rightarrow> size_t \<Rightarrow> client_op list \<times> (size_t, size_t) ctl" where
  "client_write_head cfg tot =
     (if tot < limit_of cfg then ([WriteSome (client_request cfg tot)], Suspended tot)
      else ([ShutdownWrite], Returned tot))"

definition client_write_loop :: "ClientConfig \<Rightarrow> (size_t, error_code \<times> size_t, client_op, size_t) body" where
  "client_write_loop cfg tot e =
     (case e of (ec, n) \<Rightarrow>
        if ec = Success then client_write_head cfg (tot + n)
        else if ec = OperationAborted then ([ShutdownWrite], Returned tot)
        else ([], Threw (SystemError ec)))"

section \<open>Read loop of client.cpp\<close>

definition client_read_start :: "ClientConfig \<Rightarrow> stream_op list \<times> (size_t, size_t) ctl" where
  "client_read_start cfg = ([AsyncReadSome Peer (unat (buffer_size cfg))], Suspended 0)"

fun client_read :: "ClientConfig \<Rightarrow> (size_t, stream_event, stream_op, size_t) body" where
  "client_read cfg tot (ReadDone ec bs) =
     (if ec = Success
      then ([AsyncReadSome Peer (unat (buffer_size cfg))], Suspended (tot + of_nat (length bs)))
      else if ec = Eof \<or> ec = OperationAborted then ([], Returned tot)
      else ([], Threw (SystemError ec)))"
| "client_read cfg tot e = ([], Suspended tot)"

section \<open>Client of client.cpp\<close>

text \<open>\<open>Client::write\<close> spawns the write loop with a time limit, or awaits it directly. \<open>Client::run\<close>
  connects to a literal address as it is and resolves any other host; its last value is what \<open>read\<close>
  counted. \<open>make_address\<close> and the resolver are parameters: \<open>None\<close> is a failed \<open>make_address\<close>, and the
  resolver and \<open>async_connect\<close> answer with an error code; \<open>both\<close> is the completion of
  \<open>write(socket) && read(socket)\<close>.\<close>

datatype write_mode = CancelAfter int | Unlimited

definition client_write :: "ClientConfig \<Rightarrow> write_mode" where
  "client_write cfg = (case duration cfg of Some d \<Rightarrow> CancelAfter d | None \<Rightarrow> Unlimited)"

definition client_endpoints ::
  "(string \<Rightarrow> 'addr option) \<Rightarrow> (string \<Rightarrow> error_code \<times> 'addr list) \<Rightarrow> string \<Rightarrow> 16 word
    \<Rightarrow> error_code + ('addr \<times> 16 word) list" where
  "client_endpoints make_address resolve hst prt =
     (case make_address hst of
        Some addr \<Rightarrow> Inr [(addr, prt)]
      | None \<Rightarrow> (case resolve hst of (ec, addrs) \<Rightarrow>
          if ec = Success then Inr (map (\<lambda>a. (a, prt)) addrs) else Inl ec))"

definition client_run_total ::
  "(string \<Rightarrow> 'addr option) \<Rightarrow> (string \<Rightarrow> error_code \<times> 'addr list) \<Rightarrow> (('addr \<times> 16 word) list \<Rightarrow> error_code)
    \<Rightarrow> string \<Rightarrow> 16 word \<Rightarrow> exn + size_t \<times> size_t \<Rightarrow> exn + size_t" where
  "client_run_total make_address resolve connect hst prt both =
     (case client_endpoints make_address resolve hst prt of
        Inl ec \<Rightarrow> Inl (SystemError ec)
      | Inr eps \<Rightarrow>
          if connect eps \<noteq> Success then Inl (SystemError (connect eps))
          else (case both of
                  Inl x \<Rightarrow> Inl x
                | Inr (nwrite, nread) \<Rightarrow> Inr nread))"

text \<open>Summing the futures: \<open>as_tuple\<close> delivers the exception together with a value-initialised count.\<close>

fun client_totals :: "size_t \<Rightarrow> (exn + size_t) list \<Rightarrow> size_t" where
  "client_totals tot [] = tot"
| "client_totals tot (Inr n # fs) = client_totals (tot + n) fs"
| "client_totals tot (Inl x # fs) = client_totals (tot + 0) fs"

section \<open>Loops of corosio\_client.cpp\<close>

text \<open>The loop head; \<open>late\<close> says whether the clock has passed the deadline when it is read there.\<close>

definition corosio_chunk :: "ClientConfig \<Rightarrow> size_t \<Rightarrow> size_t" where
  "corosio_chunk cfg tot = min (limit_of cfg - tot) (buffer_size cfg)"

definition corosio_write_head :: "ClientConfig \<Rightarrow> size_t \<Rightarrow> bool \<Rightarrow> client_op list \<times> (size_t, size_t) ctl" where
  "corosio_write_head cfg tot late =
     (if \<not> tot < limit_of cfg then ([ShutdownWrite], Returned tot)
      else if duration cfg \<noteq> None \<and> late then ([ShutdownWrite], Returned tot)
      else ([WriteAll (corosio_chunk cfg tot)], Suspended tot))"

definition corosio_write_loop ::
  "ClientConfig \<Rightarrow> (size_t, error_code \<times> size_t \<times> bool, client_op, size_t) body" where
  "corosio_write_loop cfg tot e =
     (case e of (wec, wn, late) \<Rightarrow>
        if wec \<noteq> Success then ([ShutdownWrite], Returned tot)
        else corosio_write_head cfg (tot + wn) late)"

fun corosio_read_loop :: "size_t \<Rightarrow> (size_t, stream_event, stream_op, size_t) body" where
  "corosio_read_loop bsize tot (ReadDone rec bs) =
     (if rec \<noteq> Success then ([], Returned tot)
      else ([AsyncReadSome Peer (unat bsize)], Suspended (tot + of_nat (length bs))))"
| "corosio_read_loop bsize tot e = ([], Suspended tot)"

section \<open>Connecting (corosio\_client.cpp)\<close>

datatype 'ep connect_op = OpenSocket | Connect 'ep | CloseSocket

text \<open>The loop over the resolver results; each endpoint comes with the completion of \<open>connect\<close>. The
  result is the final \<open>last_ec\<close>.\<close>

fun connect_loop :: "error_code \<Rightarrow> ('ep \<times> error_code) list \<Rightarrow> 'ep connect_op list \<times> error_code" where
  "connect_loop last_ec [] = ([], last_ec)"
| "connect_loop last_ec ((ep, ec) # rest) =
     (if ec = Success then ([Connect ep], Success)
      else (case connect_loop ec rest of (ops, r) \<Rightarrow> ([Connect ep, CloseSocket, OpenSocket] @ ops, r)))"

record SessionStats =
  st_written :: size_t
  st_read :: size_t
  st_connected :: bool

definition no_stats :: SessionStats where
  "no_stats = \<lparr>st_written = 0, st_read = 0, st_connected = False\<rparr>"

text \<open>\<open>run_session\<close>: the completion of \<open>resolve\<close> (an error or the endpoints with what \<open>connect\<close> will say
  of each) and the totals of the two loops.\<close>

definition run_session ::
  "error_code \<times> ('ep \<times> error_code) list \<Rightarrow> size_t \<times> size_t \<Rightarrow> 'ep connect_op list \<times> SessionStats" where
  "run_session resolved totals =
     (case resolved of (resolve_ec, results) \<Rightarrow>
        if resolve_ec \<noteq> Success then ([], no_stats)
        else if results = [] then ([], no_stats)
        else
          (case connect_loop Success results of (ops, last_ec) \<Rightarrow>
             if last_ec \<noteq> Success then (OpenSocket # ops, no_stats)
             else (OpenSocket # ops @ [CloseSocket],
                   \<lparr>st_written = fst totals, st_read = snd totals, st_connected = True\<rparr>)))"

text \<open>\<open>client_task\<close>: what it adds to \<open>total_bytes\<close>.\<close>

definition client_task :: "size_t \<Rightarrow> SessionStats \<Rightarrow> size_t" where
  "client_task total_bytes stats = total_bytes + st_read stats"

section \<open>Command line and start-up\<close>

record Config =
  host :: string
  port :: "16 word"
  connections :: nat
  threads :: nat
  run_seconds :: rat

text \<open>\<open>hw\<close> is \<open>std::thread::hardware_concurrency()\<close>.\<close>

definition default_Config :: "nat \<Rightarrow> Config" where
  "default_Config hw = \<lparr>host = ''127.0.0.1'', port = 55555, connections = 1, threads = hw, run_seconds = 1\<rparr>"

datatype cmdline = CommandLineError | Help | Options Config bool

datatype client_run =
    Exit int
  | OutOfRange
  | RunDebug "nat list"
  | RunThreads nat "nat list"

text \<open>\<open>main\<close> of \<open>client.cpp\<close>: \<open>RunThreads n cs\<close> runs \<open>n\<close> contexts, client \<open>i\<close> on context \<open>cs ! i\<close>;
  \<open>RunDebug cs\<close> runs the single context 0.\<close>

definition client_main :: "cmdline \<Rightarrow> client_run" where
  "client_main cl =
     (case cl of
        CommandLineError \<Rightarrow> Exit 1
      | Help \<Rightarrow> Exit 1
      | Options cfg debug \<Rightarrow>
          if threads cfg = 0 then Exit 1
          else if run_seconds cfg < 0 then Exit 1
          else
            (let cfg = (if debug then cfg\<lparr>threads := 1\<rparr> else cfg);
                 n = min (threads cfg) (connections cfg);
                 cs = map (\<lambda>i. i mod n) [0..<connections cfg]
             in if debug then (if n = 0 then OutOfRange else RunDebug cs) else RunThreads n cs))"

text \<open>\<open>main\<close> of \<open>corosio_client.cpp\<close>; it has no debug mode and always runs context 0.\<close>

definition corosio_client_main :: "cmdline \<Rightarrow> client_run" where
  "corosio_client_main cl =
     (case cl of
        CommandLineError \<Rightarrow> Exit 1
      | Help \<Rightarrow> Exit 1
      | Options cfg _ \<Rightarrow>
          if threads cfg = 0 then Exit 1
          else if connections cfg = 0 then Exit 1
          else if run_seconds cfg < 0 then Exit 1
          else
            (let n = min (threads cfg) (connections cfg)
             in RunThreads n (map (\<lambda>i. i mod n) [0..<connections cfg])))"

text \<open>A duration of zero seconds means \<^emph>\<open>no limit\<close> in the Corosio client only.\<close>

definition corosio_duration :: "Config \<Rightarrow> int option" where
  "corosio_duration cfg = (if run_seconds cfg > 0 then Some \<lfloor>run_seconds cfg * 1000000000\<rfloor> else None)"

definition client_duration :: "Config \<Rightarrow> int option" where
  "client_duration cfg = Some \<lfloor>run_seconds cfg * 1000000000\<rfloor>"

text \<open>The throughput printed by \<open>client.cpp\<close>, with \<open>dt\<close> at least one millisecond.\<close>

definition client_rate :: "size_t \<Rightarrow> size_t \<Rightarrow> size_t" where
  "client_rate tot dt = tot * 1000 div 1024 div 1024 div max 1 dt"

section \<open>Interfaces\<close>

interpretation client_reader: byte_counter "client_read cfg" "\<lambda>_. True" "\<lambda>tot. tot"
    "\<lambda>ec. ec = Eof \<or> ec = OperationAborted"
  by unfold_locales auto

interpretation corosio_reader: byte_counter "corosio_read_loop bsize" "\<lambda>_. True" "\<lambda>tot. tot"
    "\<lambda>ec. ec \<noteq> Success"
  by unfold_locales auto

section \<open>Unsigned subtraction\<close>

lemma unat_sub_wrap:
  fixes a b :: size_t
  assumes "a < b"
  shows "unat (a - b) = 2 ^ 64 - (unat b - unat a)"
proof -
  have "unat (a - b) = (2 ^ 64 + unat a - unat b) mod 2 ^ 64"
    using assms by (simp add: unat_sub_if' word_less_nat_alt)
  also have "\<dots> = 2 ^ 64 + unat a - unat b"
    using assms unat_size_t_bound [of b] by (simp add: word_less_nat_alt)
  finally show ?thesis using assms by (simp add: word_less_nat_alt)
qed

lemma client_request_limited:
  assumes "tot < limit_of cfg" and "unat (limit_of cfg) - unat tot + unat (buffer_size cfg) \<le> 2 ^ 64"
  shows "client_request cfg tot = buffer_size cfg"
proof -
  have "buffer_size cfg \<le> tot - limit_of cfg"
    using assms by (simp add: word_le_nat_alt unat_sub_wrap)
  then show ?thesis by (simp add: client_request_def)
qed

lemma client_request_unlimited:
  "size_limit cfg = None \<Longrightarrow> client_request cfg tot = min (tot + 1) (buffer_size cfg)"
  by (simp add: client_request_def limit_of_def)

lemma client_totals_sum:
  "client_totals tot fs = tot + sum_list (map (\<lambda>f. case f of Inr n \<Rightarrow> n | Inl _ \<Rightarrow> 0) fs)"
  by (induction tot fs rule: client_totals.induct) (auto simp: algebra_simps)

text \<open>The number of buffers of size \<open>b\<close> that it takes to reach \<open>s\<close> bytes.\<close>

definition buffers_for :: "size_t \<Rightarrow> size_t \<Rightarrow> nat" where
  "buffers_for s b = (unat s + unat b - 1) div unat b"

lemma buffers_for_bounds:
  assumes "0 < b" and "unat s + unat b \<le> 2 ^ 64"
  shows "unat s \<le> buffers_for s b * unat b" and "buffers_for s b * unat b < unat s + unat b"
    and "k \<le> buffers_for s b \<Longrightarrow> unat (of_nat k * b) = k * unat b"
    and "k < buffers_for s b \<longleftrightarrow> k * unat b < unat s"
proof -
  have b: "0 < unat b" using assms(1) by (simp add: word_less_nat_alt)
  define q r where "q = (unat s + unat b - 1) div unat b" and "r = (unat s + unat b - 1) mod unat b"
  have qr: "unat s + unat b - 1 = q * unat b + r" "r < unat b" using b by (simp_all add: q_def r_def)
  have up: "unat s \<le> q * unat b" and low: "q * unat b < unat s + unat b" using qr b by linarith+
  then show "unat s \<le> buffers_for s b * unat b" "buffers_for s b * unat b < unat s + unat b"
    by (simp_all add: buffers_for_def q_def)
  show "unat (of_nat k * b) = k * unat b" if "k \<le> buffers_for s b"
  proof -
    have "k * unat b \<le> q * unat b" using that by (simp add: buffers_for_def q_def)
    then have "k * unat b < 2 ^ 64" using low assms(2) by linarith
    then have "of_nat k * b = of_nat (k * unat b)" "k * unat b < 2 ^ 64" by simp_all
    then show ?thesis by (simp only: unat_of_nat_size_t)
  qed
  show "k < buffers_for s b \<longleftrightarrow> k * unat b < unat s"
  proof
    assume "k < buffers_for s b"
    then have "Suc k * unat b \<le> q * unat b" by (simp add: buffers_for_def q_def del: mult_Suc)
    then show "k * unat b < unat s" using low by simp
  next
    assume "k * unat b < unat s"
    with up have "k * unat b < q * unat b" by linarith
    then show "k < buffers_for s b" by (simp add: buffers_for_def q_def)
  qed
qed

lemma buffers_for_exact:
  assumes "0 < b" and "unat s + unat b \<le> 2 ^ 64"
  shows "if unat b dvd unat s then of_nat (buffers_for s b) * b = s else s < of_nat (buffers_for s b) * b"
proof -
  have b: "0 < unat b" using assms(1) by (simp add: word_less_nat_alt)
  let ?k = "buffers_for s b"
  note bd = buffers_for_bounds(1,2) [OF assms] buffers_for_bounds(3) [OF assms le_refl]
  show ?thesis
  proof (cases "unat b dvd unat s")
    case True
    then obtain j where j: "unat s = j * unat b" by (metis dvd_def mult.commute)
    with bd(1,2) have "j * unat b \<le> ?k * unat b" "?k * unat b < Suc j * unat b" by simp_all
    then have "j \<le> ?k" "?k < Suc j" using b by (simp_all only: mult_le_cancel2 mult_less_cancel2)
    with j bd(3) have "unat (of_nat ?k * b) = unat s" by simp
    with True show ?thesis by (simp add: word_unat_eq_iff)
  next
    case False
    then have "unat s \<noteq> ?k * unat b" by auto
    with False bd show ?thesis by (simp add: word_less_nat_alt)
  qed
qed

lemma full_buffers_run:
  assumes "0 < buffer_size cfg" and "limit_of cfg = s" and "unat s + unat (buffer_size cfg) \<le> 2 ^ 64"
    and "k = buffers_for s (buffer_size cfg) - m" and "m \<le> buffers_for s (buffer_size cfg)"
  shows "snd (drive (client_write_loop cfg) (snd (client_write_head cfg (of_nat k * buffer_size cfg)))
      (replicate m (Success, buffer_size cfg))) = Returned (of_nat (buffers_for s (buffer_size cfg)) * buffer_size cfg)"
  using assms(4,5)
proof (induction m arbitrary: k)
  case 0
  have "\<not> of_nat k * buffer_size cfg < s"
    using buffers_for_bounds(1,3) [OF assms(1,3)] 0 by (simp add: word_less_nat_alt)
  with 0 assms(2) show ?case by (simp add: client_write_head_def)
next
  case (Suc m)
  then have k: "k < buffers_for s (buffer_size cfg)" "Suc k = buffers_for s (buffer_size cfg) - m" by auto
  then have "of_nat k * buffer_size cfg < s"
    using buffers_for_bounds(3,4) [OF assms(1,3), of k] by (simp add: word_less_nat_alt)
  then have "snd (client_write_head cfg (of_nat k * buffer_size cfg)) = Suspended (of_nat k * buffer_size cfg)"
    using assms(2) by (simp add: client_write_head_def)
  moreover have "of_nat k * buffer_size cfg + buffer_size cfg = of_nat (Suc k) * buffer_size cfg" by (simp add: algebra_simps)
  ultimately show ?case using Suc.IH [OF k(2)] Suc.prems(2)
    by (simp add: client_write_loop_def split_beta del: of_nat_Suc)
qed

section \<open>The Corosio write loop\<close>

text \<open>\<open>capy::write\<close> reports at most as many bytes as it was given.\<close>

fun corosio_answers :: "ClientConfig \<Rightarrow> size_t \<Rightarrow> (error_code \<times> size_t \<times> bool) list \<Rightarrow> bool" where
  "corosio_answers cfg tot [] = True"
| "corosio_answers cfg tot ((wec, wn, late) # es) =
     (wn \<le> corosio_chunk cfg tot \<and> (wec = Success \<longrightarrow> corosio_answers cfg (tot + wn) es))"

lemma corosio_chunk_fits:
  assumes "tot \<le> limit_of cfg" and "wn \<le> corosio_chunk cfg tot"
  shows "tot + wn \<le> limit_of cfg" and "unat (tot + wn) = unat tot + unat wn"
proof -
  have "unat wn \<le> unat (limit_of cfg - tot)"
    using assms(2) by (simp add: corosio_chunk_def word_le_nat_alt size_simps)
  also have "\<dots> = unat (limit_of cfg) - unat tot"
    using assms(1) by (simp add: unat_sub)
  finally have le: "unat tot + unat wn \<le> unat (limit_of cfg)"
    using assms(1) by (simp add: word_le_nat_alt)
  then have lt: "unat tot + unat wn < 2 ^ 64"
    using unat_size_t_bound [of "limit_of cfg"] by simp
  then show "unat (tot + wn) = unat tot + unat wn" by (simp add: unat_word_ariths)
  then show "tot + wn \<le> limit_of cfg" using le by (simp add: word_le_nat_alt)
qed

lemma corosio_write_cases:
  "corosio_write_loop cfg tot (wec, wn, late) =
     (if wec \<noteq> Success then ([ShutdownWrite], Returned tot) else corosio_write_head cfg (tot + wn) late)"
  by (simp add: corosio_write_loop_def)

lemma corosio_write_run:
  assumes "corosio_answers cfg tot es" and "tot \<le> limit_of cfg"
    and "drive (corosio_write_loop cfg) (snd (corosio_write_head cfg tot late)) es = (ops, c)"
  shows "(\<forall>t. c = Returned t \<or> c = Suspended t \<longrightarrow> tot \<le> t \<and> t \<le> limit_of cfg) \<and> (\<forall>x. c \<noteq> Threw x)"
  using assms
proof (induction es arbitrary: tot late ops c)
  case Nil
  then show ?case by (auto simp: corosio_write_head_def split: if_splits)
next
  case (Cons e es)
  obtain wec wn l where e: "e = (wec, wn, l)" by (cases e)
  show ?case
  proof (cases "snd (corosio_write_head cfg tot late) = Suspended tot \<and> wec = Success")
    case False
    with Cons.prems e show ?thesis
      by (auto simp: corosio_write_head_def corosio_write_cases split: if_splits)
  next
    case True
    from Cons.prems(1) e True have w: "wn \<le> corosio_chunk cfg tot" "corosio_answers cfg (tot + wn) es" by auto
    note fit = corosio_chunk_fits [OF Cons.prems(2) w(1)]
    have "tot \<le> tot + wn" using fit(2) by (simp add: word_le_nat_alt)
    moreover obtain ops' where "drive (corosio_write_loop cfg) (snd (corosio_write_head cfg (tot + wn) l)) es = (ops', c)"
      using Cons.prems(3) e True by (auto simp: corosio_write_cases split: prod.splits)
    ultimately show ?thesis using Cons.IH [OF w(2) fit(1)] by (auto intro: order_trans)
  qed
qed

lemma corosio_answers_append:
  assumes "corosio_answers cfg tot (es @ fs)"
    and "drive (corosio_write_loop cfg) (snd (corosio_write_head cfg tot late)) es = (ops, Suspended t)"
  shows "corosio_answers cfg tot es \<and> corosio_answers cfg t fs"
  using assms
proof (induction es arbitrary: tot late ops)
  case Nil
  then show ?case by (auto simp: corosio_write_head_def split: if_splits)
next
  case (Cons e es)
  obtain wec wn l where e: "e = (wec, wn, l)" by (cases e)
  have s: "snd (corosio_write_head cfg tot late) = Suspended tot" "wec = Success"
    using Cons.prems(2) e by (auto simp: corosio_write_head_def corosio_write_cases split: if_splits)
  moreover obtain ops' where "drive (corosio_write_loop cfg) (snd (corosio_write_head cfg (tot + wn) l)) es = (ops', Suspended t)"
    using Cons.prems(2) e s by (auto simp: corosio_write_cases split: prod.splits)
  ultimately show ?case using Cons.IH [of "tot + wn" l ops'] Cons.prems(1) e by simp
qed

text \<open>The completions of a run in which every write is complete and the deadline is never reached.\<close>

function full_writes :: "ClientConfig \<Rightarrow> size_t \<Rightarrow> (error_code \<times> size_t \<times> bool) list" where
  "full_writes cfg tot =
     (if tot < limit_of cfg \<and> 0 < buffer_size cfg
      then (Success, corosio_chunk cfg tot, False) # full_writes cfg (tot + corosio_chunk cfg tot) else [])"
  by pat_completeness auto
termination
proof (relation "measure (\<lambda>(cfg, tot). unat (limit_of cfg) - unat tot)")
  fix cfg tot
  assume a: "tot < limit_of cfg \<and> 0 < buffer_size cfg"
  then have "0 < corosio_chunk cfg tot"
    by (auto simp: corosio_chunk_def word_less_nat_alt size_simps word_le_nat_alt unat_sub)
  moreover note corosio_chunk_fits [of tot cfg "corosio_chunk cfg tot"]
  ultimately have "unat tot < unat (tot + corosio_chunk cfg tot)"
    "unat (tot + corosio_chunk cfg tot) \<le> unat (limit_of cfg)"
    using a by (auto simp: word_less_nat_alt word_le_nat_alt)
  then show "((cfg, tot + corosio_chunk cfg tot), (cfg, tot)) \<in> measure (\<lambda>(cfg, tot). unat (limit_of cfg) - unat tot)"
    by auto
qed simp

declare full_writes.simps [simp del]

lemma full_writes_run:
  assumes "0 < buffer_size cfg" and "tot \<le> limit_of cfg"
  shows "corosio_answers cfg tot (full_writes cfg tot)
    \<and> snd (drive (corosio_write_loop cfg) (snd (corosio_write_head cfg tot False)) (full_writes cfg tot))
        = Returned (limit_of cfg)"
  using assms
proof (induction cfg tot rule: full_writes.induct)
  case (1 cfg tot)
  show ?case
  proof (cases "tot < limit_of cfg")
    case True
    then have rec: "full_writes cfg tot
        = (Success, corosio_chunk cfg tot, False) # full_writes cfg (tot + corosio_chunk cfg tot)"
      using "1.prems"(1) by (subst full_writes.simps) simp
    have "tot + corosio_chunk cfg tot \<le> limit_of cfg"
      by (rule corosio_chunk_fits(1) [OF "1.prems"(2)]) simp
    with 1 True show ?thesis
      by (auto simp: rec corosio_write_head_def [of cfg tot] corosio_write_cases split: prod.splits)
  next
    case False
    with "1.prems" have "tot = limit_of cfg" by simp
    moreover from False have "full_writes cfg tot = []" by (subst full_writes.simps) simp
    ultimately show ?thesis by (simp add: corosio_write_head_def)
  qed
qed

section \<open>Connecting\<close>

fun attempted :: "'ep connect_op list \<Rightarrow> 'ep list" where
  "attempted [] = []"
| "attempted (Connect ep # ops) = ep # attempted ops"
| "attempted (_ # ops) = attempted ops"

lemma connect_loop_first_success:
  "connect_loop last_ec rs = (ops, r) \<Longrightarrow>
   (r = Success \<longleftrightarrow> (if rs = [] then last_ec = Success else \<exists>ep. (ep, Success) \<in> set rs))
   \<and> attempted ops = map fst (takeWhile (\<lambda>(ep, ec). ec \<noteq> Success) rs)
       @ (case dropWhile (\<lambda>(ep, ec). ec \<noteq> Success) rs of [] \<Rightarrow> [] | (ep, ec) # _ \<Rightarrow> [ep])"
proof (induction last_ec rs arbitrary: ops r rule: connect_loop.induct)
  case (2 last_ec ep ec rest)
  show ?case
  proof (cases "ec = Success")
    case True
    with "2.prems" show ?thesis by auto
  next
    case False
    obtain ops' where "connect_loop ec rest = (ops', r)" "ops = [Connect ep, CloseSocket, OpenSocket] @ ops'"
      using "2.prems" False by (auto split: prod.splits)
    with "2.IH" [OF False] False show ?thesis by (auto split: if_splits)
  qed
qed auto

section \<open>Assignment of connections to contexts\<close>

lemma main_shape:
  assumes "client_main cl = RunThreads n cs \<or> corosio_client_main cl = RunThreads n cs"
  shows "\<exists>N. n \<le> N \<and> (N = 0 \<or> 0 < n) \<and> cs = map (\<lambda>i. i mod n) [0..<N]"
proof (cases cl)
  case (Options cfg debug)
  with assms show ?thesis
    by (intro exI [of _ "connections cfg"])
       (auto simp: client_main_def corosio_client_main_def Let_def split: if_splits)
qed (use assms in \<open>auto simp: client_main_def corosio_client_main_def\<close>)

section \<open>Properties\<close>

text \<open>C25: The write loop of \<open>client.cpp\<close> computes the rest to write as \<open>total - size\<close> instead of
  \<open>size - total\<close>. With any limit (that leaves room for a buffer below \<open>2 ^ 64\<close>) every write requests a
  whole buffer, however little is left to write. If the writes complete in full, the loop therefore
  returns the least multiple of the buffer size that reaches the limit, which exceeds the limit
  unless the limit is such a multiple. Without a limit, the first write requests a single byte.\<close>

theorem client_write_overshoots:
  assumes "0 < buffer_size cfg" and "size_limit cfg = Some s" and "unat s + unat (buffer_size cfg) \<le> 2 ^ 64"
  shows "(\<forall>tot < s. client_write_head cfg tot = ([WriteSome (buffer_size cfg)], Suspended tot))
    \<and> snd (drive (client_write_loop cfg) (snd (client_write_head cfg 0))
          (replicate (buffers_for s (buffer_size cfg)) (Success, buffer_size cfg)))
        = Returned (of_nat (buffers_for s (buffer_size cfg)) * buffer_size cfg)
    \<and> (if unat (buffer_size cfg) dvd unat s then of_nat (buffers_for s (buffer_size cfg)) * buffer_size cfg = s
       else s < of_nat (buffers_for s (buffer_size cfg)) * buffer_size cfg)
    \<and> client_write_head (cfg\<lparr>size_limit := None\<rparr>) 0 = ([WriteSome 1], Suspended 0)"
proof -
  have lim: "limit_of cfg = s" using assms(2) by (simp add: limit_of_def)
  have head: "client_write_head cfg tot = ([WriteSome (buffer_size cfg)], Suspended tot)" if "tot < s" for tot
    using client_request_limited [of tot cfg] that assms(3) lim by (simp add: client_write_head_def)
  have "client_request (cfg\<lparr>size_limit := None\<rparr>) 0 = 1"
    using assms(1) by (simp add: client_request_unlimited min_def word_less_nat_alt word_le_nat_alt)
  moreover have "(0 :: size_t) < limit_of (cfg\<lparr>size_limit := None\<rparr>)"
    by (simp add: limit_of_def word_gt_0)
  ultimately show ?thesis
    using head full_buffers_run [OF assms(1) lim assms(3) _ le_refl] buffers_for_exact [OF assms(1,3)]
    by (simp add: client_write_head_def)
qed

theorem client_write_overshoots_witness:
  "snd (drive (client_write_loop \<lparr>buffer_size = 4, size_limit = Some 10, duration = None\<rparr>)
     (snd (client_write_head \<lparr>buffer_size = 4, size_limit = Some 10, duration = None\<rparr> 0))
     [(Success, 4), (Success, 4), (Success, 4)]) = Returned 12"
proof -
  let ?cfg = "\<lparr>buffer_size = 4, size_limit = Some 10, duration = None\<rparr> :: ClientConfig"
  have "(0 :: size_t) < buffer_size ?cfg" "size_limit ?cfg = Some 10" "unat (10 :: size_t) + unat (buffer_size ?cfg) \<le> 2 ^ 64"
    by simp_all
  from client_write_overshoots [OF this, THEN conjunct2, THEN conjunct1]
  show ?thesis by (simp add: buffers_for_def numeral_3_eq_3)
qed

text \<open>C30: The write loop of \<open>corosio_client.cpp\<close> respects its limit: whatever the writes report, no addition
  to its total wraps around, the total never exceeds the limit, and the loop never throws. When
  every write is complete and the deadline is not reached, finitely many writes make it return
  exactly the limit.\<close>

theorem corosio_write_limit:
  assumes "corosio_answers cfg 0 es"
    and "drive (corosio_write_loop cfg) (snd (corosio_write_head cfg 0 late)) es = (ops, c)"
    and "0 < buffer_size cfg"
  shows "(\<forall>t. c = Returned t \<or> c = Suspended t \<longrightarrow> t \<le> limit_of cfg) \<and> (\<forall>x. c \<noteq> Threw x)
    \<and> (\<forall>es1 n l es2 t. es = es1 @ (Success, n, l) # es2
         \<and> snd (drive (corosio_write_loop cfg) (snd (corosio_write_head cfg 0 late)) es1) = Suspended t \<longrightarrow>
         unat (t + n) = unat t + unat n)
    \<and> snd (drive (corosio_write_loop cfg) (snd (corosio_write_head cfg 0 False)) (full_writes cfg 0))
        = Returned (limit_of cfg)"
proof -
  have "unat (t + n) = unat t + unat n"
    if e: "es = es1 @ (Success, n, l) # es2"
      and r: "snd (drive (corosio_write_loop cfg) (snd (corosio_write_head cfg 0 late)) es1) = Suspended t" for es1 n l es2 t
  proof -
    obtain ops1 where r1: "drive (corosio_write_loop cfg) (snd (corosio_write_head cfg 0 late)) es1 = (ops1, Suspended t)"
      using r by (metis prod.collapse)
    have ok: "corosio_answers cfg 0 es1" "corosio_answers cfg t ((Success, n, l) # es2)"
      using corosio_answers_append [OF assms(1) [unfolded e] r1] by blast+
    have "t \<le> limit_of cfg" using corosio_write_run [OF ok(1) _ r1] by simp
    with corosio_chunk_fits(2) [of t cfg n] ok(2) show ?thesis by simp
  qed
  then show ?thesis
    using corosio_write_run [OF assms(1) _ assms(2)] full_writes_run [OF assms(3), of 0] by auto
qed

theorem corosio_write_limit_witness:
  "snd (drive (corosio_write_loop \<lparr>buffer_size = 4, size_limit = Some 10, duration = None\<rparr>)
     (snd (corosio_write_head \<lparr>buffer_size = 4, size_limit = Some 10, duration = None\<rparr> 0 False))
     (full_writes \<lparr>buffer_size = 4, size_limit = Some 10, duration = None\<rparr> 0)) = Returned 10"
proof -
  let ?cfg = "\<lparr>buffer_size = 4, size_limit = Some 10, duration = None\<rparr> :: ClientConfig"
  have "corosio_answers ?cfg 0 []" "(0 :: size_t) < buffer_size ?cfg" by simp_all
  then have "snd (drive (corosio_write_loop ?cfg) (snd (corosio_write_head ?cfg 0 False)) (full_writes ?cfg 0))
      = Returned (limit_of ?cfg)"
    using corosio_write_limit [of ?cfg "[]" False "[]"] by simp
  then show ?thesis by (simp add: limit_of_def)
qed

text \<open>Both read loops return the number of bytes they received: that of \<open>client.cpp\<close> when the peer
  closes or the operation is cancelled, that of \<open>corosio_client.cpp\<close> on any error. A run of \<open>Client\<close>
  that connects to a literal address without resolving returns what its read loop counted, and
  \<open>main\<close> adds up the counts of the clients that ended without an exception.\<close>

lemma client_reads_count:
  assumes "ec = Eof \<or> ec = OperationAborted" and "rec \<noteq> Success"
    and "make_address hst = Some addr" and "connect [(addr, prt)] = Success"
  shows "snd (drive (client_read cfg) (snd (client_read_start cfg)) (map (ReadDone Success) bss @ [ReadDone ec []]))
      = Returned (of_nat (length (concat bss)))
    \<and> snd (drive (corosio_read_loop b) (Suspended 0) (map (ReadDone Success) bss @ [ReadDone rec []]))
      = Returned (of_nat (length (concat bss)))
    \<and> client_run_total make_address resolve connect hst prt (Inr (nwrite, nread)) = Inr nread
    \<and> client_totals 0 fs = (\<Sum>f\<leftarrow>fs. case f of Inr n \<Rightarrow> n | Inl _ \<Rightarrow> 0)"
proof -
  have "snd (drive (client_read cfg) (Suspended 0) (map (ReadDone Success) bss @ [ReadDone ec []]))
      = Returned (0 + of_nat (length (concat bss)))"
    by (rule client_reader.tally_total) (use assms in auto)
  moreover have "snd (drive (corosio_read_loop b) (Suspended 0) (map (ReadDone Success) bss @ [ReadDone rec []]))
      = Returned (0 + of_nat (length (concat bss)))"
    by (rule corosio_reader.tally_total) (use assms in auto)
  ultimately show ?thesis
    using assms(3,4) by (simp add: client_read_start_def client_totals_sum client_run_total_def client_endpoints_def)
qed

text \<open>A session of \<open>corosio_client.cpp\<close> is connected exactly when resolving succeeded and some
  endpoint accepts; the endpoints are tried in order up to the first that accepts, and the socket is
  reopened after each failed attempt; an unconnected session adds nothing to the total.\<close>

lemma run_session_connects:
  assumes "run_session (rec, rs) totals = (ops, stats)"
  shows "(st_connected stats \<longleftrightarrow> rec = Success \<and> (\<exists>ep. (ep, Success) \<in> set rs))
    \<and> (rec = Success \<longrightarrow> attempted ops = map fst (takeWhile (\<lambda>(ep, ec). ec \<noteq> Success) rs)
         @ (case dropWhile (\<lambda>(ep, ec). ec \<noteq> Success) rs of [] \<Rightarrow> [] | (ep, ec) # _ \<Rightarrow> [ep]))
    \<and> (\<not> st_connected stats \<longrightarrow> client_task tb stats = tb)"
proof -
  obtain ops' r where cl: "connect_loop Success rs = (ops', r)" by fastforce
  have app: "attempted (xs @ [CloseSocket]) = attempted xs" for xs :: "'a connect_op list"
    by (induction xs rule: attempted.induct) auto
  show ?thesis
    using assms connect_loop_first_success [OF cl] cl
    by (cases "rs = []") (auto simp: run_session_def no_stats_def client_task_def app split: if_splits)
qed

text \<open>Whenever one of the clients starts its contexts, every connection is assigned to an existing
  context, the assignment is round robin, and no context is left without a connection; the Corosio
  client never starts without a context. The debug mode of \<open>client.cpp\<close> with zero connections reads
  context 0 of an empty vector.\<close>

lemma client_main_assignment:
  "(client_main cl = RunThreads n cs \<or> corosio_client_main cl = RunThreads n cs \<longrightarrow>
      (\<forall>i < length cs. cs ! i = i mod n \<and> cs ! i < n) \<and> (\<forall>k < n. k \<in> set cs))
   \<and> (corosio_client_main cl = RunThreads n cs \<longrightarrow> 0 < n)
   \<and> (client_main (Options ((default_Config 4)\<lparr>connections := 0\<rparr>) True) = OutOfRange)"
proof (intro conjI impI)
  assume "client_main cl = RunThreads n cs \<or> corosio_client_main cl = RunThreads n cs"
  then obtain N where cfg: "n \<le> N" "N = 0 \<or> 0 < n" "cs = map (\<lambda>i. i mod n) [0..<N]"
    using main_shape by blast
  then show "\<forall>i < length cs. cs ! i = i mod n \<and> cs ! i < n" by auto
  show "\<forall>k < n. k \<in> set cs"
  proof (intro allI impI)
    fix k assume k: "k < n"
    then have "k = k mod n" "k \<in> set [0..<N]" using cfg by auto
    then show "k \<in> set cs" using cfg(3) by (metis (no_types, lifting) image_eqI list.set_map)
  qed
next
  show "corosio_client_main cl = RunThreads n cs \<Longrightarrow> 0 < n"
    by (auto simp: corosio_client_main_def Let_def split: cmdline.splits if_splits)
  show "client_main (Options ((default_Config 4)\<lparr>connections := 0\<rparr>) True) = OutOfRange"
    by (simp add: client_main_def default_Config_def)
qed

end
