(* ===== verification/Client_Report.thy ===== *)
theory Client_Report
  imports Echo_Client "HOL-Library.Multiset"
begin

text \<open>
  The end of \<open>main\<close> of \<open>bin/corosio_client.cpp\<close>: client tasks on several contexts add to a shared counter
  while the main thread, once its own context is done, prints the counter.
\<close>

section \<open>Tasks, counter and main\<close>

text \<open>The end of \<open>main\<close>: the contexts other than 0 run on threads of their own (\<open>std::jthread\<close>, joined only
  when \<open>main\<close> returns), context 0 on the main thread. A task that ends adds what it has read to the
  shared counter. When context 0 has no task left, \<open>main\<close> reads the counter for the rate, and once more
  for the number of bytes it prints. Tasks are pairs of context and bytes read.\<close>

record report_state =
  tasks_left :: "(nat \<times> size_t) list"
  total_bytes :: size_t
  rate_bytes :: "size_t option"
  printed_bytes :: "size_t option"

datatype report_step = TaskEnds nat | LoadRate | LoadTotal

definition report_start :: "(nat \<times> size_t) list \<Rightarrow> report_state" where
  "report_start ts = \<lparr>tasks_left = ts, total_bytes = 0, rate_bytes = None, printed_bytes = None\<rparr>"

definition remove_at :: "nat \<Rightarrow> 'a list \<Rightarrow> 'a list" where
  "remove_at i xs = take i xs @ drop (Suc i) xs"

fun report_exec :: "report_state \<Rightarrow> report_step \<Rightarrow> report_state option" where
  "report_exec st (TaskEnds i) =
     (if i < length (tasks_left st)
      then Some (st\<lparr>tasks_left := remove_at i (tasks_left st),
                    total_bytes := total_bytes st + snd (tasks_left st ! i)\<rparr>)
      else None)"
| "report_exec st LoadRate =
     (if rate_bytes st = None \<and> (\<forall>(ctx, _) \<in> set (tasks_left st). ctx \<noteq> 0)
      then Some (st\<lparr>rate_bytes := Some (total_bytes st)\<rparr>) else None)"
| "report_exec st LoadTotal =
     (if rate_bytes st \<noteq> None \<and> printed_bytes st = None
      then Some (st\<lparr>printed_bytes := Some (total_bytes st)\<rparr>) else None)"

fun report_run :: "report_state \<Rightarrow> report_step list \<Rightarrow> report_state option" where
  "report_run st [] = Some st"
| "report_run st (a # as) = (case report_exec st a of None \<Rightarrow> None | Some st' \<Rightarrow> report_run st' as)"

text \<open>The rate in MiB/s, truncated; \<open>double\<close> arithmetic is exact here.\<close>

definition corosio_rate :: "size_t \<Rightarrow> int \<Rightarrow> int" where
  "corosio_rate bytes elapsed = \<lfloor>of_nat (unat bytes) * 1000 / 1024 / 1024 / (of_int (max elapsed 1) :: rat)\<rfloor>"

text \<open>Nothing is lost from the counter: what has been added and what is still to be added is constant,
  and a value read is the counter at some moment, when context 0 had no task left.\<close>

abbreviation work :: "(nat \<times> size_t) list \<Rightarrow> size_t" where
  "work ts \<equiv> sum_list (map snd ts)"

lemma sum_list_remove_at:
  fixes xs :: "'a :: comm_monoid_add list"
  shows "i < length xs \<Longrightarrow> sum_list (remove_at i xs) + xs ! i = sum_list xs"
proof (induction xs arbitrary: i)
  case (Cons x xs)
  then show ?case by (cases i) (auto simp: remove_at_def ac_simps)
qed simp

lemma map_remove_at: "map f (remove_at i xs) = remove_at i (map f xs)"
  by (simp add: remove_at_def take_map drop_map)

lemma mset_remove_at: "i < length xs \<Longrightarrow> add_mset (xs ! i) (mset (remove_at i xs)) = mset xs"
  using arg_cong [OF id_take_nth_drop [of i xs], of mset] by (simp add: remove_at_def)

definition report_inv :: "(nat \<times> size_t) list \<Rightarrow> report_state \<Rightarrow> bool" where
  "report_inv ts st \<longleftrightarrow> total_bytes st + work (tasks_left st) = work ts
     \<and> mset (tasks_left st) \<subseteq># mset ts
     \<and> (rate_bytes st \<noteq> None \<longrightarrow> (\<forall>(ctx, _) \<in> set (tasks_left st). ctx \<noteq> 0))
     \<and> (\<forall>n. printed_bytes st = Some n \<longrightarrow> (\<exists>us. mset us \<subseteq># mset ts \<and> (\<forall>(ctx, _) \<in> set us. ctx \<noteq> 0) \<and> n + work us = work ts))"

lemma report_inv_step:
  assumes "report_inv ts st" and "report_exec st a = Some st'"
  shows "report_inv ts st'"
proof (cases a)
  case (TaskEnds i)
  with assms(2) have i: "i < length (tasks_left st)"
    and st': "st' = st\<lparr>tasks_left := remove_at i (tasks_left st), total_bytes := total_bytes st + snd (tasks_left st ! i)\<rparr>"
    by (auto split: if_splits)
  have "work (remove_at i (tasks_left st)) + snd (tasks_left st ! i) = work (tasks_left st)"
    using sum_list_remove_at [of i "map snd (tasks_left st)"] i by (simp add: map_remove_at)
  then have "total_bytes st' + work (tasks_left st') = total_bytes st + work (tasks_left st)"
    using st' by (simp add: add.assoc) (metis add.commute)
  moreover have sub: "mset (tasks_left st') \<subseteq># mset (tasks_left st)"
    using mset_remove_at [OF i, symmetric] st' by simp
  moreover have "rate_bytes st' = rate_bytes st" "printed_bytes st' = printed_bytes st" using st' by simp_all
  moreover have "set (tasks_left st') \<subseteq> set (tasks_left st)" using set_mset_mono [OF sub] by simp
  moreover have "mset (tasks_left st') \<subseteq># mset ts"
    using assms(1) sub subset_mset.order_trans unfolding report_inv_def by blast
  ultimately show ?thesis using assms(1) by (auto simp: report_inv_def)
next
  case LoadRate
  with assms show ?thesis by (auto simp: report_inv_def split: if_splits)
next
  case LoadTotal
  with assms show ?thesis
    by (auto simp: report_inv_def split: if_splits intro!: exI [of _ "tasks_left st"])
qed

lemma report_run_inv: "report_run st as = Some st' \<Longrightarrow> report_inv ts st \<Longrightarrow> report_inv ts st'"
  by (induction as arbitrary: st) (auto split: option.splits intro: report_inv_step)

section \<open>A schedule in which the other contexts are slow\<close>

lemma tasks_of_context_0:
  assumes "tasks_left st = us @ ts" and "\<And>t. t \<in> set us \<Longrightarrow> fst t \<noteq> 0"
  shows "\<exists>as st'. report_run st as = Some st' \<and> tasks_left st' = us @ filter (\<lambda>t. fst t \<noteq> 0) ts
    \<and> total_bytes st' = total_bytes st + work (filter (\<lambda>t. fst t = 0) ts)
    \<and> rate_bytes st' = rate_bytes st \<and> printed_bytes st' = printed_bytes st"
  using assms
proof (induction ts arbitrary: us st)
  case Nil
  then have "report_run st [] = Some st" by simp
  with Nil show ?case by (intro exI [of _ "[]"] exI [of _ st]) simp
next
  case (Cons t ts)
  show ?case
  proof (cases "fst t = 0")
    case True
    let ?st = "st\<lparr>tasks_left := us @ ts, total_bytes := total_bytes st + snd t\<rparr>"
    have one: "report_exec st (TaskEnds (length us)) = Some ?st"
      using Cons.prems(1) by (simp add: remove_at_def)
    obtain as st' where "report_run ?st as = Some st'" "tasks_left st' = us @ filter (\<lambda>t. fst t \<noteq> 0) ts"
      "total_bytes st' = total_bytes ?st + work (filter (\<lambda>t. fst t = 0) ts)"
      "rate_bytes st' = rate_bytes st" "printed_bytes st' = printed_bytes st"
      using Cons.IH [of ?st us] Cons.prems(2) by auto
    with one True show ?thesis
      by (intro exI [of _ "TaskEnds (length us) # as"] exI [of _ st']) (simp add: add.assoc)
  next
    case False
    from Cons.IH [of st "us @ [t]"] Cons.prems False show ?thesis by fastforce
  qed
qed

lemma report_run_append:
  "report_run st (as @ bs) = (case report_run st as of None \<Rightarrow> None | Some st' \<Rightarrow> report_run st' bs)"
  by (induction as arbitrary: st) (auto split: option.splits)

section \<open>Properties\<close>

text \<open>C27: What \<open>corosio_client.cpp\<close> reports. The number printed is the total of all tasks but some of the
  tasks of contexts other than 0, each counted once; with a single context it is the total. But with
  several contexts there is a schedule in which nothing that was read on the other contexts is
  counted: \<open>main\<close> prints before it waits for their threads.\<close>

theorem corosio_report_incomplete:
  shows "(report_run (report_start ts) as = Some st \<and> printed_bytes st = Some n \<longrightarrow>
        (\<exists>us. mset us \<subseteq># mset ts \<and> (\<forall>t \<in> set us. fst t \<noteq> 0) \<and> n + work us = work ts)
        \<and> ((\<forall>t \<in> set ts. fst t = 0) \<longrightarrow> n = work ts))
    \<and> (\<exists>as st. report_run (report_start ts) as = Some st
        \<and> printed_bytes st = Some (work (filter (\<lambda>t. fst t = 0) ts)))"
proof (intro conjI impI)
  assume run: "report_run (report_start ts) as = Some st \<and> printed_bytes st = Some n"
  have "report_inv ts (report_start ts)" by (simp add: report_inv_def report_start_def)
  with run have "report_inv ts st" by (blast intro: report_run_inv)
  with run show us: "\<exists>us. mset us \<subseteq># mset ts \<and> (\<forall>t \<in> set us. fst t \<noteq> 0) \<and> n + work us = work ts"
    unfolding report_inv_def case_prod_beta by blast
  assume all: "\<forall>t \<in> set ts. fst t = 0"
  from us obtain us where "mset us \<subseteq># mset ts" "\<forall>t \<in> set us. fst t \<noteq> 0" "n + work us = work ts" by blast
  moreover from this all have "us = []" by (cases us) (force dest!: set_mset_mono)+
  ultimately show "n = work ts" by simp
next
  obtain as st where run: "report_run (report_start ts) as = Some st"
    and st: "tasks_left st = filter (\<lambda>t. fst t \<noteq> 0) ts" "total_bytes st = work (filter (\<lambda>t. fst t = 0) ts)"
      "rate_bytes st = None" "printed_bytes st = None"
    using tasks_of_context_0 [of "report_start ts" "[]" ts] by (auto simp: report_start_def)
  have "report_run st [LoadRate, LoadTotal] = Some (st\<lparr>rate_bytes := Some (total_bytes st), printed_bytes := Some (total_bytes st)\<rparr>)"
    using st by auto
  with run st show "\<exists>as st. report_run (report_start ts) as = Some st
        \<and> printed_bytes st = Some (work (filter (\<lambda>t. fst t = 0) ts))"
    by (intro exI [of _ "as @ [LoadRate, LoadTotal]"] exI) (auto simp: report_run_append)
qed

theorem corosio_report_incomplete_witness:
  "\<exists>as st. report_run (report_start [(0, 10), (1, 20)]) as = Some st \<and> printed_bytes st = Some 10"
proof -
  have "work (filter (\<lambda>t. fst t = 0) [(0 :: nat, 10), (1, 20)]) = 10" by simp
  with corosio_report_incomplete [of "[(0, 10), (1, 20)]" "[]" "report_start []" 0, THEN conjunct2]
  show ?thesis by (simp only:)
qed

end
