(* ===== verification/Echo_Sessions.thy ===== *)
theory Echo_Sessions
  imports Relay
begin

text \<open>
  The TCP echo servers of \<open>echo/\<close> and \<open>corosio/\<close>: the session of every variant (blocking, callbacks,
  coroutine with exceptions, coroutine with \<open>as_tuple\<close>, Corosio) as a machine over the completions of
  its reads and writes, and the accept loops. A blocking call is treated like an operation whose
  result is the completion. A completion that does not answer the outstanding operation cannot
  occur; the machines ignore it.
\<close>

datatype echo_state = AtRead | AtWrite

definition echo_buffer :: nat where "echo_buffer = 64 * 1024"

section \<open>Sessions\<close>

subsection \<open>Coroutines\<close>

text \<open>\<open>echo_coro.cpp\<close>: an error of either operation leaves the coroutine as an exception.\<close>

definition coro_start :: "stream_op list \<times> (echo_state, unit) ctl" where
  "coro_start = ([AsyncReadSome Peer echo_buffer], Suspended AtRead)"

fun coro_session :: "(echo_state, stream_event, stream_op, unit) body" where
  "coro_session AtRead (ReadDone ec bs) =
     (if ec \<noteq> Success then ([], Threw (SystemError ec))
      else ([AsyncWrite Peer bs], Suspended AtWrite))"
| "coro_session AtWrite (WriteDone ec n) =
     (if ec \<noteq> Success then ([], Threw (SystemError ec))
      else ([AsyncReadSome Peer echo_buffer], Suspended AtRead))"
| "coro_session s e = ([], Suspended s)"

text \<open>\<open>echo_coro_tuple.cpp\<close>: an error breaks out of the loop.\<close>

fun tuple_session :: "(echo_state, stream_event, stream_op, unit) body" where
  "tuple_session AtRead (ReadDone ec bs) =
     (if ec \<noteq> Success then ([], Returned ())
      else ([AsyncWrite Peer bs], Suspended AtWrite))"
| "tuple_session AtWrite (WriteDone ec n) =
     (if ec \<noteq> Success then ([], Returned ())
      else ([AsyncReadSome Peer echo_buffer], Suspended AtRead))"
| "tuple_session s e = ([], Suspended s)"

text \<open>\<open>echo_coro_threaded.cpp\<close> has the same session, run by a context on several threads; in
  \<open>echo_coro_timeout.cpp\<close> every read has a time limit of two seconds, after which it fails with
  \<open>operation_aborted\<close>.\<close>

definition threaded_session :: "(echo_state, stream_event, stream_op, unit) body" where
  "threaded_session = coro_session"

fun with_limit :: "stream_op \<Rightarrow> stream_op \<times> nat option" where
  "with_limit (AsyncReadSome h n) = (AsyncReadSome h n, Some 2)"
| "with_limit op = (op, None)"

definition timeout_session :: "(echo_state, stream_event, stream_op \<times> nat option, unit) body" where
  "timeout_session s e = (case coro_session s e of (ops, c) \<Rightarrow> (map with_limit ops, c))"

lemma timeout_session_same:
  "drive timeout_session c es = (map with_limit (fst (drive coro_session c es)), snd (drive coro_session c es))"
proof (induction es arbitrary: c)
  case (Cons e es)
  then show ?case by (cases c) (auto simp: timeout_session_def split: prod.splits)
qed simp

subsection \<open>Blocking calls\<close>

text \<open>\<open>echo_sync.cpp\<close>: only end of file ends the loop after a read; the overload of \<open>write\<close> used
  throws.\<close>

fun sync_session :: "(echo_state, stream_event, stream_op, unit) body" where
  "sync_session AtRead (ReadDone ec bs) =
     (if ec = Eof then ([], Returned ()) else ([AsyncWrite Peer bs], Suspended AtWrite))"
| "sync_session AtWrite (WriteDone ec n) =
     (if ec \<noteq> Success then ([], Threw (SystemError ec))
      else ([AsyncReadSome Peer echo_buffer], Suspended AtRead))"
| "sync_session s e = ([], Suspended s)"

definition sync_threaded_session :: "(echo_state, stream_event, stream_op, unit) body" where
  "sync_threaded_session = sync_session"

subsection \<open>Corosio\<close>

text \<open>\<open>echo_corosio.cpp\<close>: like the blocking version, but a write error breaks and the socket is closed
  after the loop.\<close>

fun handle_connection :: "(echo_state, stream_event, stream_op, unit) body" where
  "handle_connection AtRead (ReadDone ec bs) =
     (if ec = Eof then ([Close Peer], Returned ()) else ([AsyncWrite Peer bs], Suspended AtWrite))"
| "handle_connection AtWrite (WriteDone ec n) =
     (if ec \<noteq> Success then ([Close Peer], Returned ())
      else ([AsyncReadSome Peer echo_buffer], Suspended AtRead))"
| "handle_connection s e = ([], Suspended s)"

definition handle_connection_threaded :: "(echo_state, stream_event, stream_op, unit) body" where
  "handle_connection_threaded = handle_connection"

text \<open>\<open>corosio_echo_server.cpp\<close>: any read error breaks.\<close>

fun do_session :: "(echo_state, stream_event, stream_op, unit) body" where
  "do_session AtRead (ReadDone ec bs) =
     (if ec \<noteq> Success then ([Close Peer], Returned ()) else ([AsyncWrite Peer bs], Suspended AtWrite))"
| "do_session AtWrite (WriteDone ec n) =
     (if ec \<noteq> Success then ([Close Peer], Returned ())
      else ([AsyncReadSome Peer echo_buffer], Suspended AtRead))"
| "do_session s e = ([], Suspended s)"

subsection \<open>Callbacks\<close>

text \<open>\<open>echo_async.cpp\<close>: a reference-counted session object. \<open>use_count\<close> counts the owners of the
  object (every pending handler holds one copy of \<open>self\<close>), \<open>handler\<close> is the handler that waits for
  its completion. When the last owner goes, the object and its socket are destroyed: \<open>Returned\<close>.\<close>

record async_session =
  use_count :: nat
  handler :: "echo_state option"

definition do_read :: "async_session \<Rightarrow> stream_op list \<times> async_session" where
  "do_read s = ([AsyncReadSome Peer echo_buffer],
                s\<lparr>use_count := use_count s + 1, handler := Some AtRead\<rparr>)"

definition do_write :: "byte list \<Rightarrow> async_session \<Rightarrow> stream_op list \<times> async_session" where
  "do_write bs s = ([AsyncWrite Peer bs],
                    s\<lparr>use_count := use_count s + 1, handler := Some AtWrite\<rparr>)"

definition release :: "async_session \<Rightarrow> (async_session, unit) ctl" where
  "release s = (if use_count s \<le> 1 then Returned () else Suspended (s\<lparr>use_count := use_count s - 1\<rparr>))"

text \<open>\<open>std::make_shared<session>(std::move(socket))->start()\<close>: the temporary owner goes at the end of
  the full expression.\<close>

definition async_start :: "stream_op list \<times> (async_session, unit) ctl" where
  "async_start = (case do_read \<lparr>use_count = 1, handler = None\<rparr> of (ops, s) \<Rightarrow> (ops, release s))"

text \<open>A completion runs the pending handler, which is moved out first and whose copy of \<open>self\<close> is
  destroyed when it returns.\<close>

definition async_complete :: "(async_session, stream_event, stream_op, unit) body" where
  "async_complete s e =
     (case (handler s, e) of
        (Some AtRead, ReadDone ec bs) \<Rightarrow>
          (case (if ec = Success then do_write bs (s\<lparr>handler := None\<rparr>) else ([], s\<lparr>handler := None\<rparr>))
           of (ops, s') \<Rightarrow> (ops, release s'))
      | (Some AtWrite, WriteDone ec n) \<Rightarrow>
          (case (if ec = Success then do_read (s\<lparr>handler := None\<rparr>) else ([], s\<lparr>handler := None\<rparr>))
           of (ops, s') \<Rightarrow> (ops, release s'))
      | _ \<Rightarrow> ([], Suspended s))"

section \<open>Accept loops\<close>

datatype 'sock accept_op = AsyncAccept | CoSpawn 'sock

text \<open>\<open>server\<close> of the coroutine versions: \<open>co_await a.async_accept()\<close> throws on error, which ends the
  accept loop.\<close>

definition server :: "(unit, error_code \<times> 'sock, 'sock accept_op, unit) body" where
  "server s e =
     (case e of (ec, sock) \<Rightarrow>
        if ec \<noteq> Success then ([], Threw (SystemError ec)) else ([CoSpawn sock, AsyncAccept], Suspended ()))"

text \<open>\<open>do_accept\<close> of \<open>echo_async.cpp\<close>: the handler accepts again in any case.\<close>

definition do_accept :: "(unit, error_code \<times> 'sock, 'sock accept_op, unit) body" where
  "do_accept s e =
     (case e of (ec, sock) \<Rightarrow> ((if ec = Success then [CoSpawn sock] else []) @ [AsyncAccept], Suspended ()))"

text \<open>\<open>server\<close> of \<open>echo_corosio.cpp\<close>: the result of \<open>accept\<close> is ignored, so a session is started in any
  case.\<close>

definition corosio_server :: "(unit, error_code \<times> 'sock, 'sock accept_op, unit) body" where
  "corosio_server s e = (case e of (ec, peer) \<Rightarrow> ([CoSpawn peer, AsyncAccept], Suspended ()))"

text \<open>\<open>make_echo_workers\<close> and \<open>main\<close> of \<open>corosio_echo_server.cpp\<close>: the worker pool, for the port and the
  number of workers as \<open>atoi\<close> reads them.\<close>

definition make_echo_workers :: "int \<Rightarrow> nat list" where
  "make_echo_workers n = [0..<nat n]"

definition corosio_server_main :: "(string \<Rightarrow> int) \<Rightarrow> string list \<Rightarrow> int + 16 word \<times> nat list" where
  "corosio_server_main atoi argv =
     (if length argv \<noteq> 3 then Inl 1
      else
        (let port_int = atoi (argv ! 1); max_workers = atoi (argv ! 2)
         in if port_int \<le> 0 \<or> port_int > 65535 then Inl 1
            else if max_workers \<le> 0 then Inl 1
            else Inr (of_int port_int, make_echo_workers max_workers)))"

text \<open>A worker reserves a buffer and launches \<open>do_session\<close> when it gets a connection; \<open>echo_server\<close> is a server
  with these workers. \<open>main\<close> ends with an error if it cannot bind, and otherwise runs the context.\<close>

definition echo_worker_run :: "stream_op list \<times> (echo_state, unit) ctl" where
  "echo_worker_run = ([AsyncReadSome Peer echo_buffer], Suspended AtRead)"

record echo_worker =
  worker_index :: nat
  buf_capacity :: nat

definition new_echo_worker :: "nat \<Rightarrow> echo_worker" where
  "new_echo_worker i = \<lparr>worker_index = i, buf_capacity = 4096\<rparr>"

definition echo_server :: "int \<Rightarrow> echo_worker list" where
  "echo_server max_workers = map new_echo_worker (make_echo_workers max_workers)"

definition corosio_server_exit :: "(string \<Rightarrow> int) \<Rightarrow> string list \<Rightarrow> (16 word \<Rightarrow> error_code) \<Rightarrow> int" where
  "corosio_server_exit atoi argv bind_port =
     (case corosio_server_main atoi argv of
        Inl e \<Rightarrow> e
      | Inr (prt, ws) \<Rightarrow> if bind_port prt \<noteq> Success then 1 else 0)"

text \<open>The casts of \<open>main\<close> lose nothing.\<close>

lemma corosio_server_main_exact:
  assumes "corosio_server_main atoi argv = Inr (prt, ws)"
  shows "int (unat prt) = atoi (argv ! 1) \<and> prt \<noteq> 0 \<and> int (length ws) = atoi (argv ! 2) \<and> ws \<noteq> []"
proof -
  have r: "0 < atoi (argv ! 1)" "atoi (argv ! 1) < 65536" "prt = of_int (atoi (argv ! 1))"
    "ws = make_echo_workers (atoi (argv ! 2))" "0 < atoi (argv ! 2)"
    using assms by (auto simp: corosio_server_main_def Let_def split: if_splits)
  have "uint prt = atoi (argv ! 1)"
    using r by (simp add: uint_word_of_int_eq take_bit_eq_mod)
  then show ?thesis using r by (auto simp: make_echo_workers_def)
qed

fun spawned :: "'sock accept_op list \<Rightarrow> 'sock list" where
  "spawned [] = []"
| "spawned (CoSpawn s # ops) = s # spawned ops"
| "spawned (AsyncAccept # ops) = spawned ops"

lemma spawned_append [simp]: "spawned (xs @ ys) = spawned xs @ spawned ys"
  by (induction xs rule: spawned.induct) auto

text \<open>\<open>echo_coro_context_pool.cpp\<close>: before each accept, the context for the next connection is chosen
  as \<open>threads[i % threads.size()]\<close>. \<open>hardware_concurrency()\<close> may be 0, in which case the remainder is
  undefined: \<open>None\<close>.\<close>

definition pool_pick :: "size_t \<Rightarrow> size_t \<Rightarrow> size_t option" where
  "pool_pick n i = (if n = 0 then None else Some (i mod n))"

text \<open>The accept loop over the sockets accepted so far (an accept error throws and ends it): the
  sessions spawned, as pairs of context and socket.\<close>

fun pool_server :: "size_t \<Rightarrow> size_t \<Rightarrow> (error_code \<times> 'sock) list \<Rightarrow> (size_t \<times> 'sock) list option" where
  "pool_server n i [] = (case pool_pick n i of None \<Rightarrow> None | Some _ \<Rightarrow> Some [])"
| "pool_server n i ((ec, sock) # es) =
     (case pool_pick n i of
        None \<Rightarrow> None
      | Some executor \<Rightarrow>
          if ec \<noteq> Success then Some []
          else map_option (\<lambda>rest. (executor, sock) # rest) (pool_server n (i + 1) es))"

section \<open>The sessions are read/write loops\<close>

abbreviation any_error :: "error_code \<Rightarrow> bool" where
  "any_error ec \<equiv> ec \<noteq> Success"

interpretation coro: relay_loop coro_session "\<lambda>s. s = AtRead" "\<lambda>s. s = AtWrite" any_error
  by unfold_locales auto

interpretation tuple: relay_loop tuple_session "\<lambda>s. s = AtRead" "\<lambda>s. s = AtWrite" any_error
  by unfold_locales auto

interpretation sync: relay_loop sync_session "\<lambda>s. s = AtRead" "\<lambda>s. s = AtWrite" "\<lambda>ec. ec = Eof"
  by unfold_locales auto

interpretation corosio: relay_loop handle_connection "\<lambda>s. s = AtRead" "\<lambda>s. s = AtWrite" "\<lambda>ec. ec = Eof"
  by unfold_locales auto

interpretation worker: relay_loop do_session "\<lambda>s. s = AtRead" "\<lambda>s. s = AtWrite" any_error
  by unfold_locales auto

text \<open>A session object with exactly one owner, its pending handler.\<close>

definition owned_by :: "echo_state \<Rightarrow> async_session \<Rightarrow> bool" where
  "owned_by h s \<longleftrightarrow> use_count s = 1 \<and> handler s = Some h"

lemmas async_defs = async_complete_def do_read_def do_write_def release_def owned_by_def

interpretation async: relay_loop async_complete "owned_by AtRead" "owned_by AtWrite" any_error
  by unfold_locales (auto simp: async_defs)

section \<open>The callback version refines the coroutine version\<close>

text \<open>Abstraction: an object owned by its pending handler is a coroutine suspended at that operation.\<close>

fun abs_ctl :: "(async_session, unit) ctl \<Rightarrow> (echo_state, unit) ctl" where
  "abs_ctl (Suspended s) = (case handler s of Some h \<Rightarrow> Suspended h | None \<Rightarrow> Returned ())"
| "abs_ctl (Returned r) = Returned r"
| "abs_ctl (Threw x) = Threw x"

definition async_ok :: "(async_session, unit) ctl \<Rightarrow> bool" where
  "async_ok c \<longleftrightarrow> (case c of Suspended s \<Rightarrow> \<exists>h. owned_by h s | Returned _ \<Rightarrow> True | Threw _ \<Rightarrow> False)"

lemma async_step:
  assumes "owned_by h s"
  shows "fst (async_complete s e) = fst (tuple_session h e)
    \<and> abs_ctl (snd (async_complete s e)) = snd (tuple_session h e)
    \<and> async_ok (snd (async_complete s e))"
  using assms
  by (cases h; cases e) (auto simp: async_defs async_ok_def)

lemma async_run:
  assumes "async_ok c"
  shows "fst (drive async_complete c es) = fst (drive tuple_session (abs_ctl c) es)
    \<and> abs_ctl (snd (drive async_complete c es)) = snd (drive tuple_session (abs_ctl c) es)
    \<and> async_ok (snd (drive async_complete c es))"
  using assms
proof (induction es arbitrary: c)
  case Nil
  then show ?case by simp
next
  case (Cons e es)
  show ?case
  proof (cases c)
    case (Suspended s)
    with Cons.prems obtain h where h: "owned_by h s" by (auto simp: async_ok_def)
    note step = async_step [OF h, of e]
    from h have "abs_ctl c = Suspended h" using Suspended by (simp add: owned_by_def)
    with Cons.IH [of "snd (async_complete s e)"] step Suspended show ?thesis
      by (auto split: prod.splits)
  qed (use Cons.prems in \<open>auto simp: async_ok_def\<close>)
qed

lemma async_start_ok: "fst async_start = fst coro_start" "abs_ctl (snd async_start) = Suspended AtRead"
  "async_ok (snd async_start)"
  by (simp_all add: async_start_def coro_start_def async_defs async_ok_def)

lemma tuple_coro_step:
  "fst (tuple_session s e) = fst (coro_session s e)
   \<and> (\<forall>s'. snd (tuple_session s e) = Suspended s' \<longleftrightarrow> snd (coro_session s e) = Suspended s')"
  by (cases s; cases e) auto

lemma tuple_coro_run:
  "fst (drive tuple_session (Suspended s) es) = fst (drive coro_session (Suspended s) es)
   \<and> (\<forall>s'. snd (drive tuple_session (Suspended s) es) = Suspended s'
        \<longleftrightarrow> snd (drive coro_session (Suspended s) es) = Suspended s')"
proof (induction es arbitrary: s)
  case Nil
  then show ?case by simp
next
  case (Cons e es)
  obtain ops c where t: "tuple_session s e = (ops, c)" by fastforce
  obtain ops' c' where r: "coro_session s e = (ops', c')" by fastforce
  from tuple_coro_step [of s e] t r
  have eq: "ops = ops'" "\<And>s'. c = Suspended s' \<longleftrightarrow> c' = Suspended s'" by auto
  show ?case
  proof (cases c)
    case (Suspended s')
    with eq(2) [of s'] have "c' = Suspended s'" by simp
    with Cons.IH [of s'] Suspended eq(1) t r show ?thesis by (auto split: prod.splits)
  next
    case (Returned x)
    with eq have "finished c'" by (auto simp: finished_def)
    with Returned eq t r show ?thesis by auto
  next
    case (Threw x)
    with eq have "finished c'" by (auto simp: finished_def)
    with Threw eq t r show ?thesis by auto
  qed
qed

section \<open>Persistent read errors\<close>

definition error_round :: "error_code \<Rightarrow> stream_event list" where
  "error_round ec = [ReadDone ec [], WriteDone Success 0]"

lemma error_round_spins:
  assumes "ec \<noteq> Eof"
  shows "snd (drive sync_session (Suspended AtRead) (error_round ec)) = Suspended AtRead"
    and "snd (drive handle_connection (Suspended AtRead) (error_round ec)) = Suspended AtRead"
  using assms by (simp_all add: error_round_def)

lemma drive_rounds:
  assumes "snd (drive f (Suspended s) es) = Suspended s"
  shows "snd (drive f (Suspended s) (concat (replicate k es))) = Suspended s"
proof (induction k)
  case (Suc k)
  then show ?case using assms by (auto simp: drive_append split: prod.splits)
qed simp

section \<open>Accept loops\<close>

lemma server_spawns:
  "drive server (Suspended ()) (map (Pair Success) socks) = (ops, c) \<Longrightarrow>
   spawned ops = socks \<and> c = Suspended ()"
  by (induction socks arbitrary: ops c) (auto simp: server_def split: prod.splits)

lemma do_accept_spawns:
  "drive do_accept (Suspended ()) es = (ops, c) \<Longrightarrow>
   spawned ops = map snd (filter (\<lambda>(ec, _). ec = Success) es) \<and> c = Suspended ()"
  by (induction es arbitrary: ops c) (auto simp: do_accept_def split: prod.splits if_splits)

lemma pool_server_round_robin:
  assumes "n \<noteq> 0"
  shows "pool_server n i (map (Pair Success) socks)
    = Some (map (\<lambda>j. ((i + of_nat j) mod n, socks ! j)) [0..<length socks])"
proof (induction socks arbitrary: i)
  case Nil
  with assms show ?case by (simp add: pool_pick_def)
next
  case (Cons sock socks)
  have "[0..<Suc (length socks)] = 0 # map Suc [0..<length socks]"
    by (simp only: map_Suc_upt) (simp add: upt_conv_Cons del: upt_Suc)
  with Cons.IH [of "i + 1"] assms show ?case
    by (simp add: pool_pick_def o_def algebra_simps del: upt_Suc)
qed

section \<open>Properties\<close>

text \<open>C1: The coroutine echo session is exact: as long as the completions answer its operations, the
  bytes it has handed to \<open>async_write\<close> are, in order, exactly the bytes it has received, after every
  prefix of the run; and it ends only because of an error.\<close>

theorem coro_session_exact:
  assumes "answers any_error True es" and "drive coro_session (snd coro_start) es = (ops, c)"
  shows "sent ops = received es \<and> (\<forall>r. c \<noteq> Returned r)"
proof
  show "sent ops = received es"
    using coro.relay_sent [of AtRead es ops c] assms by (simp add: coro_start_def)
  have "(\<forall>r. c \<noteq> Returned r)" if "drive coro_session (Suspended s) es = (ops, c)" for s
    using that
    by (rule drive_invariant [where I = "\<lambda>_ _ c. \<forall>r. c \<noteq> Returned r"])
       (auto elim!: coro_session.elims split: if_splits)
  then show "\<forall>r. c \<noteq> Returned r" using assms(2) by (simp add: coro_start_def)
qed

theorem coro_session_exact_witness:
  "sent (fst (drive coro_session (snd coro_start)
     [ReadDone Success [1, 2], WriteDone Success 2, ReadDone Success [3], WriteDone Success 1, ReadDone Eof []]))
   = [1, 2, 3]"
  using coro_session_exact
    [of "[ReadDone Success [1, 2], WriteDone Success 2, ReadDone Success [3], WriteDone Success 1, ReadDone Eof []]"]
  by (simp add: coro_start_def)

text \<open>C19: The callback session with its reference-counted object and the coroutine sessions are
  equivalent: for any completions, all three initiate the same operations and wait for the same
  operation; while an operation is outstanding the object has exactly one owner, the pending handler,
  and it is destroyed exactly when no handler is left.\<close>

theorem async_session_refines:
  "fst async_start = fst coro_start
   \<and> fst (drive async_complete (snd async_start) es) = fst (drive tuple_session (snd coro_start) es)
   \<and> fst (drive async_complete (snd async_start) es) = fst (drive coro_session (snd coro_start) es)
   \<and> abs_ctl (snd (drive async_complete (snd async_start) es))
       = snd (drive tuple_session (snd coro_start) es)
   \<and> async_ok (snd (drive async_complete (snd async_start) es))
   \<and> (\<forall>s. snd (drive tuple_session (snd coro_start) es) = Suspended s
        \<longleftrightarrow> snd (drive coro_session (snd coro_start) es) = Suspended s)"
  using async_run [OF async_start_ok(3), of es] async_start_ok tuple_coro_run [of AtRead es]
  by (simp add: coro_start_def)

text \<open>C38: The blocking session and the Corosio session do not react to a read error other than end of
  file: if every read fails with such an error (and the write of zero bytes succeeds), they run
  forever, never returning or throwing, while the coroutine session ends with the first such error.\<close>

theorem read_error_spins:
  assumes "ec \<noteq> Eof" and "ec \<noteq> Success"
  shows "snd (drive sync_session (Suspended AtRead) (concat (replicate k (error_round ec)))) = Suspended AtRead
    \<and> snd (drive handle_connection (Suspended AtRead) (concat (replicate k (error_round ec)))) = Suspended AtRead
    \<and> snd (drive coro_session (Suspended AtRead) (concat (replicate (Suc k) (error_round ec))))
         = Threw (SystemError ec)"
proof (intro conjI)
  show "snd (drive sync_session (Suspended AtRead) (concat (replicate k (error_round ec)))) = Suspended AtRead"
    by (intro drive_rounds error_round_spins assms)
  show "snd (drive handle_connection (Suspended AtRead) (concat (replicate k (error_round ec)))) = Suspended AtRead"
    by (intro drive_rounds error_round_spins assms)
  show "snd (drive coro_session (Suspended AtRead) (concat (replicate (Suc k) (error_round ec))))
         = Threw (SystemError ec)"
    using assms(2) by (simp add: error_round_def)
qed

theorem read_error_spins_witness:
  "snd (drive sync_session (Suspended AtRead) (concat (replicate 1000 (error_round (OtherError 104))))) = Suspended AtRead
   \<and> snd (drive coro_session (Suspended AtRead) (concat (replicate (Suc 1000) (error_round (OtherError 104)))))
     = Threw (SystemError (OtherError 104))"
proof -
  have "OtherError 104 \<noteq> Eof" "OtherError 104 \<noteq> Success" by simp_all
  from read_error_spins [OF this, of 1000] show ?thesis by blast
qed

text \<open>The Corosio sessions echo exactly what they receive and close the socket exactly once, when
  they end, and never before.\<close>

lemma corosio_session_closes:
  assumes "answers (\<lambda>ec. ec = Eof) True es" and "answers any_error True fs"
    and "drive handle_connection (Suspended AtRead) es = (ops, c)"
    and "drive do_session (Suspended AtRead) fs = (ops', c')"
  shows "sent ops = received es \<and> sent ops' = received fs
    \<and> count_list ops (Close Peer) = (if finished c then 1 else 0)
    \<and> count_list ops' (Close Peer) = (if finished c' then 1 else 0)"
proof (intro conjI)
  show "sent ops = received es" by (rule corosio.relay_sent [OF _ assms(1,3)]) simp
  show "sent ops' = received fs" by (rule worker.relay_sent [OF _ assms(2,4)]) simp
  show "count_list ops (Close Peer) = (if finished c then 1 else 0)"
    using assms(3)
    by (rule drive_invariant [where I = "\<lambda>_ ops c. count_list ops (Close Peer) = (if finished c then 1 else 0)"])
       (auto elim!: handle_connection.elims split: if_splits)
  show "count_list ops' (Close Peer) = (if finished c' then 1 else 0)"
    using assms(4)
    by (rule drive_invariant [where I = "\<lambda>_ ops c. count_list ops (Close Peer) = (if finished c then 1 else 0)"])
       (auto elim!: do_session.elims split: if_splits)
qed

text \<open>The accept loop over a pool of contexts distributes connections round robin: with \<open>n > 0\<close>
  contexts the \<open>j\<close>-th accepted socket runs on context \<open>j mod n\<close>, and every socket gets exactly one
  session. With no contexts, which \<open>hardware_concurrency()\<close> allows, the choice is undefined before the
  first connection.\<close>

lemma pool_server_distribution:
  "pool_server (0 :: size_t) 0 es = None
   \<and> (0 < n \<and> n < 2 ^ 64 \<and> length socks \<le> 2 ^ 64 \<longrightarrow>
      (\<exists>f. pool_server (of_nat n) 0 (map (Pair Success) socks) = Some (map (\<lambda>j. (f j, socks ! j)) [0..<length socks])
         \<and> (\<forall>j < length socks. unat (f j) = j mod n)))"
proof (intro conjI impI)
  show "pool_server (0 :: size_t) 0 es = None"
    by (cases es) (auto simp: pool_pick_def)
next
  assume n: "0 < n \<and> n < 2 ^ 64 \<and> length socks \<le> 2 ^ 64"
  then have un: "unat (of_nat n :: size_t) = n" by (intro unat_of_nat_size_t) simp
  then have "(of_nat n :: size_t) \<noteq> 0" using n by auto
  from pool_server_round_robin [OF this, of 0 socks]
  show "\<exists>f. pool_server (of_nat n) 0 (map (Pair Success) socks) = Some (map (\<lambda>j. (f j, socks ! j)) [0..<length socks])
         \<and> (\<forall>j < length socks. unat (f j) = j mod n)"
    using n un by (intro exI [of _ "\<lambda>j. of_nat j mod of_nat n"])
      (auto simp: unat_mod unat_of_nat_size_t)
qed

end
