(* ===== verification/Session_Registry.thy ===== *)
theory Session_Registry
  imports Prelude "HOL-Library.Multiset"
begin

text \<open>
  What the servers with a table of sessions share: \<open>std::map\<close> with \<open>size_t\<close> keys, and the interface of
  a server that gives every accepted connection the next identifier and removes the session from
  the table when it has ended. The lemmas of the two locales are proved once and reach the servers
  of \<open>cancellation/\<close> through interpretations.
\<close>

section \<open>std::map\<close>

type_synonym 'v table = "(size_t \<times> 'v) list"

text \<open>\<open>emplace\<close> leaves the table alone when the key exists; the entries are kept in ascending order
  of the keys, which is the order of iteration.\<close>

definition emplace :: "size_t \<Rightarrow> 'v \<Rightarrow> 'v table \<Rightarrow> 'v table" where
  "emplace k v m = (if k \<in> set (map fst m) then m else insort_key fst (k, v) m)"

definition erase :: "size_t \<Rightarrow> 'v table \<Rightarrow> 'v table" where
  "erase k m = filter (\<lambda>(j, _). j \<noteq> k) m"

definition table_ok :: "'v table \<Rightarrow> bool" where
  "table_ok m \<longleftrightarrow> sorted (map fst m) \<and> distinct (map fst m)"

lemma keys_emplace [simp]: "fst ` set (emplace k v m) = insert k (fst ` set m)"
  by (auto simp: emplace_def set_insort_key)

lemma keys_erase [simp]: "fst ` set (erase k m) = fst ` set m - {k}"
  by (auto simp: erase_def image_iff)

lemma table_ok_Nil [simp]: "table_ok []"
  by (simp add: table_ok_def)

lemma table_ok_emplace: "table_ok m \<Longrightarrow> table_ok (emplace k v m)"
proof -
  assume m: "table_ok m"
  have "mset (map fst (insort_key fst (k, v) m)) = add_mset k (mset (map fst m))"
    by (induction m) auto
  then have "k \<notin> set (map fst m) \<Longrightarrow> distinct (map fst (insort_key fst (k, v) m))"
    using m mset_eq_imp_distinct_iff [of "map fst (insort_key fst (k, v) m)" "k # map fst m"]
    by (simp add: table_ok_def)
  with m show ?thesis
    by (auto simp: table_ok_def emplace_def sorted_insort_key)
qed

lemma table_ok_erase: "table_ok m \<Longrightarrow> table_ok (erase k m)"
  by (auto simp: table_ok_def erase_def distinct_map_filter sorted_filter)

lemma emplace_lookup: "k \<notin> set (map fst m) \<Longrightarrow> map_of (emplace k v m) = (map_of m)(k \<mapsto> v)"
proof -
  assume k: "k \<notin> set (map fst m)"
  then have "map_of (insort_key fst (k, v) m) = (map_of m)(k \<mapsto> v)"
    by (induction m) (auto simp: fun_eq_iff)
  with k show ?thesis by (simp add: emplace_def)
qed

lemma erase_lookup: "map_of (erase k m) = (map_of m)(k := None)"
  by (induction m) (auto simp: erase_def fun_eq_iff)

section \<open>Runs of a server\<close>

type_synonym ('st, 'ev, 'act) stepper = "'st \<Rightarrow> 'ev \<Rightarrow> 'act list \<times> 'st"

fun steps :: "('st, 'ev, 'act) stepper \<Rightarrow> 'st \<Rightarrow> 'ev list \<Rightarrow> 'act list \<times> 'st" where
  "steps f st [] = ([], st)"
| "steps f st (e # es) =
     (case f st e of (as, st') \<Rightarrow> (case steps f st' es of (bs, st'') \<Rightarrow> (as @ bs, st'')))"

lemma steps_append:
  "steps f st (es @ fs) =
     (case steps f st es of (as, st') \<Rightarrow> (case steps f st' fs of (bs, st'') \<Rightarrow> (as @ bs, st'')))"
  by (induction es arbitrary: st) (auto split: prod.splits)

lemma steps_appendI:
  "steps f st es = (as, st') \<Longrightarrow> steps f st' fs = (bs, st'') \<Longrightarrow> steps f st (es @ fs) = (as @ bs, st'')"
  by (simp add: steps_append)

lemma steps_single: "f st e = (as, st') \<Longrightarrow> steps f st [e] = (as, st')"
  by simp

text \<open>An invariant of the single steps holds after every run.\<close>

lemma steps_invariant:
  assumes "steps f st es = (as, st')" and "I st"
    and "\<And>st e as st'. I st \<Longrightarrow> f st e = (as, st') \<Longrightarrow> I st'"
  shows "I st'"
  using assms(1,2)
proof (induction es arbitrary: st as)
  case (Cons e es)
  obtain as1 st1 where "f st e = (as1, st1)" by fastforce
  with Cons assms(3) show ?case by (auto split: prod.splits)
qed simp

text \<open>The same for the events that occur.\<close>

lemma steps_invariant_on:
  assumes "steps f st es = (as, st')" and "I st"
    and "\<And>st e as st'. I st \<Longrightarrow> e \<in> set es \<Longrightarrow> f st e = (as, st') \<Longrightarrow> I st'"
  shows "I st'"
  using assms
proof (induction es arbitrary: st as)
  case (Cons e es)
  obtain as1 st1 where s: "f st e = (as1, st1)" by fastforce
  then obtain as2 where "steps f st1 es = (as2, st')" using Cons.prems(1) by (auto split: prod.splits)
  from Cons.IH [OF this] Cons.prems(2,3) s show ?case by (meson list.set_intros)
qed simp

section \<open>Identifiers\<close>

definition ids :: "('a \<Rightarrow> size_t list) \<Rightarrow> 'a list \<Rightarrow> size_t list" where
  "ids f xs = concat (map f xs)"

lemma ids_simps [simp]:
  "ids f [] = []" "ids f (x # xs) = f x @ ids f xs" "ids f (xs @ ys) = ids f xs @ ids f ys"
  by (simp_all add: ids_def)

lemma ids_map_none: "(\<And>x. f (g x) = []) \<Longrightarrow> ids f (map g xs) = []"
  by (induction xs) auto

text \<open>The documented behaviour of a spawned coroutine: its completion handler is called while the
  session is in the table, and therefore once.\<close>

fun timely ::
  "('st, 'ev, 'act) stepper \<Rightarrow> ('st \<Rightarrow> size_t list) \<Rightarrow> ('ev \<Rightarrow> size_t list) \<Rightarrow> 'st \<Rightarrow> 'ev list \<Rightarrow> bool" where
  "timely f keys ends st [] = True"
| "timely f keys ends st (e # es) =
     (set (ends e) \<subseteq> set (keys st) \<and> timely f keys ends (snd (f st e)) es)"

lemma timely_append:
  "timely f keys ends st (es @ fs) \<longleftrightarrow> timely f keys ends st es \<and> timely f keys ends (snd (steps f st es)) fs"
  by (induction es arbitrary: st) (auto split: prod.splits)

text \<open>The same in terms of what was spawned and what has ended, without the table: every completion is
  that of a session that was spawned and has not completed.\<close>

fun completes_once ::
  "('st, 'ev, 'act) stepper \<Rightarrow> ('act \<Rightarrow> size_t list) \<Rightarrow> ('ev \<Rightarrow> size_t list) \<Rightarrow> size_t set \<Rightarrow> 'st \<Rightarrow> 'ev list \<Rightarrow> bool" where
  "completes_once f spawns ends R st [] = True"
| "completes_once f spawns ends R st (e # es) =
     (set (ends e) \<subseteq> R
      \<and> completes_once f spawns ends ((R \<union> set (ids spawns (fst (f st e)))) - set (ends e)) (snd (f st e)) es)"

text \<open>Identifiers are given out from 0 in sequence, and a table holds those that have not ended, in
  ascending order.\<close>

definition table_exact :: "size_t list \<Rightarrow> size_t \<Rightarrow> size_t list \<Rightarrow> size_t list \<Rightarrow> bool" where
  "table_exact keys next spawned ended \<longleftrightarrow>
     spawned = map of_nat [0..<length spawned] \<and> next = of_nat (length spawned)
     \<and> keys = filter (\<lambda>k. k \<notin> set ended) spawned"

lemma sorted_spawned: "n \<le> 2 ^ 64 \<Longrightarrow> sorted (map of_nat [0..<n] :: size_t list)"
  by (auto simp: sorted_iff_nth_mono_less word_le_nat_alt unat_of_nat_size_t)

lemma table_exactI:
  assumes "spawned = map of_nat [0..<length spawned]" and "next = of_nat (length spawned)"
    and "length spawned \<le> 2 ^ 64" and "distinct spawned" and "sorted keys" and "distinct keys"
    and "set keys = set spawned - set ended"
  shows "table_exact keys next spawned ended"
proof -
  have "sorted spawned" using sorted_spawned [OF assms(3)] assms(1) by simp
  then have "sorted (filter (\<lambda>k. k \<notin> set ended) spawned)" using sorted_filter [of id] by simp
  moreover have "set keys = set (filter (\<lambda>k. k \<notin> set ended) spawned)" using assms(7) by auto
  ultimately have "keys = filter (\<lambda>k. k \<notin> set ended) spawned"
    using sorted_distinct_set_unique [OF assms(5,6)] assms(4) by simp
  with assms(1,2) show ?thesis by (simp add: table_exact_def)
qed

text \<open>\<open>spawns\<close> are the identifiers given out by an action, \<open>ends\<close> those of the sessions whose
  completion an event is, \<open>nid\<close> is the counter and \<open>keys\<close> the content of the table.\<close>

locale session_ids =
  fixes step :: "('st, 'ev, 'act) stepper"
    and keys :: "'st \<Rightarrow> size_t list"
    and nid :: "'st \<Rightarrow> size_t"
    and spawns :: "'act \<Rightarrow> size_t list"
    and ends :: "'ev \<Rightarrow> size_t list"
  assumes spawn_law: "step st ev = (as, st') \<Longrightarrow>
      ids spawns as = [] \<and> nid st' = nid st
      \<or> ids spawns as = [nid st] \<and> nid st' = nid st + 1"
    and keys_law: "step st ev = (as, st') \<Longrightarrow>
      set (keys st') \<subseteq> (set (keys st) \<union> set (ids spawns as)) - set (ends ev)"
begin

text \<open>Identifiers are given out in sequence.\<close>

lemma ids_in_sequence:
  assumes "steps step st es = (as, st')"
  shows "nid st' = nid st + of_nat (length (ids spawns as))
    \<and> ids spawns as = map (\<lambda>i. nid st + of_nat i) [0..<length (ids spawns as)]"
  using assms
proof (induction es arbitrary: as st' rule: rev_induct)
  case Nil
  then show ?case by simp
next
  case (snoc e es)
  obtain as1 st1 where r: "steps step st es = (as1, st1)" by fastforce
  obtain bs st2 where s: "step st1 e = (bs, st2)" by fastforce
  have e: "as = as1 @ bs" "st' = st2" using snoc.prems r s by (auto simp: steps_append)
  note IH = snoc.IH [OF r]
  show ?case
  proof (cases "ids spawns bs = []")
    case True
    then have "nid st2 = nid st1" using spawn_law [OF s] by (metis list.distinct(1))
    with True IH e show ?thesis by simp
  next
    case False
    then have "ids spawns bs = [nid st1]" "nid st2 = nid st1 + 1" using spawn_law [OF s] by metis+
    with IH e show ?thesis by (simp add: algebra_simps)
  qed
qed

lemma ids_distinct:
  assumes "steps step st es = (as, st')" and "length (ids spawns as) \<le> 2 ^ 64"
  shows "distinct (ids spawns as)"
proof -
  have "inj_on (\<lambda>i. nid st + of_nat i :: size_t) {0..<length (ids spawns as)}"
  proof (rule inj_onI)
    fix i j
    assume *: "i \<in> {0..<length (ids spawns as)}" "j \<in> {0..<length (ids spawns as)}"
      "nid st + of_nat i = nid st + of_nat j"
    then have "unat (of_nat i :: size_t) = unat (of_nat j :: size_t)" by simp
    moreover have "i < 2 ^ 64" "j < 2 ^ 64" using * assms(2) by auto
    ultimately show "i = j" by (metis unat_of_nat_size_t)
  qed
  then have "distinct (map (\<lambda>i. nid st + of_nat i) [0..<length (ids spawns as)])"
    by (simp add: distinct_map)
  then show ?thesis using ids_in_sequence [OF assms(1)] by simp
qed

lemma keys_spawned:
  assumes "steps step st es = (as, st')"
  shows "set (keys st') \<subseteq> set (keys st) \<union> set (ids spawns as)"
  using assms
proof (induction es arbitrary: st as)
  case (Cons e es)
  obtain as1 st1 where s: "step st e = (as1, st1)" by fastforce
  obtain as2 where r: "steps step st1 es = (as2, st')" "as = as1 @ as2"
    using Cons.prems s by (auto split: prod.splits)
  from Cons.IH [OF r(1)] keys_law [OF s] r(2) show ?case by auto
qed simp

end

section \<open>Tables that hold exactly the running sessions\<close>

locale session_registry = session_ids step keys nid spawns ends
  for step :: "('st, 'ev, 'act) stepper" and keys nid spawns ends +
  assumes keys_exact: "step st ev = (as, st') \<Longrightarrow>
      set (keys st') = (set (keys st) \<union> set (ids spawns as)) - set (ends ev)"
begin

lemma live_sessions:
  assumes "steps step st es = (as, st')" and "keys st = []" and "timely step keys ends st es"
    and "length (ids spawns as) \<le> 2 ^ 64"
  shows "set (keys st') = set (ids spawns as) - set (ids ends es) \<and> set (ids ends es) \<subseteq> set (ids spawns as)"
  using assms(1,3,4)
proof (induction es arbitrary: as st' rule: rev_induct)
  case Nil
  then show ?case using assms(2) by simp
next
  case (snoc e es)
  obtain as1 st1 where r: "steps step st es = (as1, st1)" by fastforce
  obtain bs st2 where s: "step st1 e = (bs, st2)" by fastforce
  have e: "as = as1 @ bs" "st' = st2" using snoc.prems r s by (auto simp: steps_append)
  have t: "timely step keys ends st es" "set (ends e) \<subseteq> set (keys st1)"
    using snoc.prems(2) r by (simp_all add: timely_append)
  have IH: "set (keys st1) = set (ids spawns as1) - set (ids ends es)" "set (ids ends es) \<subseteq> set (ids spawns as1)"
    using snoc.IH [OF r t(1)] snoc.prems(3) e by auto
  have "distinct (ids spawns as1 @ ids spawns bs)"
    using ids_distinct [OF snoc.prems(1,3)] e by simp
  then have "set (ids spawns bs) \<inter> set (ids ends es) = {}" using IH(2) by auto
  with keys_exact [OF s] IH t(2) e show ?case by auto
qed

lemma all_ended:
  assumes "steps step st es = (as, st')" and "keys st = []" and "timely step keys ends st es"
    and "length (ids spawns as) \<le> 2 ^ 64" and "keys st' = []"
  shows "set (ids spawns as) = set (ids ends es)"
  using live_sessions [OF assms(1-4)] assms(5) by auto

text \<open>An invariant that needs the next identifier to be new.\<close>

lemma fresh_invariant:
  assumes "steps step st es = (as, st')" and "keys st = []" and "timely step keys ends st es"
    and "length (ids spawns as) \<le> 2 ^ 64" and "I st"
    and inv: "\<And>st e as st'. I st \<Longrightarrow> step st e = (as, st') \<Longrightarrow> ids spawns as = [] \<or> nid st \<notin> set (keys st) \<Longrightarrow> I st'"
  shows "I st'"
  using assms(1,3,4)
proof (induction es arbitrary: as st' rule: rev_induct)
  case Nil
  then show ?case using assms(5) by simp
next
  case (snoc e es)
  obtain as1 st1 where r: "steps step st es = (as1, st1)" by fastforce
  obtain bs where s: "step st1 e = (bs, st')" and e: "as = as1 @ bs"
    using snoc.prems(1) r by (auto simp: steps_append split: prod.splits)
  have t: "timely step keys ends st es" using snoc.prems(2) by (simp add: timely_append)
  have len: "length (ids spawns as1) \<le> 2 ^ 64" using snoc.prems(3) e by simp
  have "distinct (ids spawns as1 @ ids spawns bs)" using ids_distinct [OF snoc.prems(1,3)] e by simp
  then have "ids spawns bs = [] \<or> nid st1 \<notin> set (keys st1)"
    using spawn_law [OF s] live_sessions [OF r assms(2) t len] by auto
  with inv [OF snoc.IH [OF r t len] s] show ?case by simp
qed

lemma once_timely:
  assumes "completes_once step spawns ends (set (keys st)) st es"
  shows "timely step keys ends st es"
  using assms
proof (induction es arbitrary: st)
  case (Cons e es)
  have "set (keys (snd (step st e))) = (set (keys st) \<union> set (ids spawns (fst (step st e)))) - set (ends e)"
    using keys_exact [of st e] by simp
  with Cons show ?case by simp
qed simp

lemma spawned_from_zero:
  assumes "steps step st es = (as, st')" and "nid st = 0"
  shows "ids spawns as = map of_nat [0..<length (ids spawns as)] \<and> nid st' = of_nat (length (ids spawns as))"
  using ids_in_sequence [OF assms(1)] assms(2) by simp

lemma exact_table:
  assumes "steps step st es = (as, st')" and "keys st = []" and "nid st = 0"
    and "completes_once step spawns ends {} st es" and "length (ids spawns as) \<le> 2 ^ 64"
    and "sorted tab" and "distinct tab" and "set tab = set (keys st')"
  shows "table_exact tab (nid st') (ids spawns as) (ids ends es)"
proof -
  have "timely step keys ends st es" using once_timely assms(2,4) by simp
  from live_sessions [OF assms(1,2) this assms(5)] ids_distinct [OF assms(1,5)] spawned_from_zero [OF assms(1,3)]
  show ?thesis by (intro table_exactI) (use assms in simp_all)
qed

end

end
