(* ===== verification/Networking.thy ===== *)
theory Networking
  imports Relay Session_Registry Formatters "HOL-Library.Sublist"
begin

text \<open>
  The programs of \<open>net/\<close>: \<open>happy_eyeballs.cpp\<close> (two racing connection attempts, IPv6 first) and
  \<open>proxy.cpp\<close> (two copying loops in opposite directions).

  Resolver, sockets and timers are library code: their completions are inputs. So is the operator
  \<open>||\<close> on awaitables, a parameter \<open>join\<close> whose documented behaviour is \<open>or_ok\<close>.
\<close>

section \<open>happy\_eyeballs.cpp: endpoints by family\<close>

type_synonym net_endpoint = "address \<times> 16 word"

record results =
  entries :: "net_endpoint list"
  host_name :: string
  service_name :: string

fun is_v4 :: "net_endpoint \<Rightarrow> bool" where
  "is_v4 (V4 a, p) = True" | "is_v4 (V6 a, p) = False"

fun is_v6 :: "net_endpoint \<Rightarrow> bool" where
  "is_v6 (V4 a, p) = False" | "is_v6 (V6 a, p) = True"

definition filter_family :: "results \<Rightarrow> AddressFamily \<Rightarrow> results" where
  "filter_family eps af =
     (if entries eps = [] then \<lparr>entries = [], host_name = [], service_name = []\<rparr>
      else \<lparr>entries = filter (\<lambda>ep. af = IPv4 \<and> is_v4 ep \<or> af = IPv6 \<and> is_v6 ep) (entries eps),
            host_name = host_name eps, service_name = service_name eps\<rparr>)"

section \<open>happy\_eyeballs.cpp: the race\<close>

text \<open>\<open>connect\<close>: the completion of \<open>async_connect\<close> and what \<open>remote_endpoint\<close> answers; errors of both
  are thrown.\<close>

definition connect_result :: "error_code \<Rightarrow> error_code + net_endpoint \<Rightarrow> exn + net_endpoint" where
  "connect_result ec remote =
     (if ec \<noteq> Success then Inl (SystemError ec) else map_sum SystemError id remote)"

datatype branch = Waiting | Trying | Done "exn + net_endpoint"

record eyeballs =
  branch6 :: branch
  branch4 :: branch
  order :: "nat list"

datatype eyeballs_event =
    Connected6 error_code "error_code + net_endpoint"
  | TimerDone error_code bool
  | Connected4 error_code "error_code + net_endpoint"

datatype eyeballs_action =
    TimerExpiresAfter nat
  | ConnectTo "net_endpoint list"
  | TimerWait
  | CancelTimer

text \<open>Both branches are started; the IPv4 branch first waits for the timer.\<close>

definition eyeballs_start :: "results \<Rightarrow> eyeballs_action list \<times> eyeballs" where
  "eyeballs_start eps =
     ([TimerExpiresAfter 200, ConnectTo (entries (filter_family eps IPv6)), TimerWait],
      \<lparr>branch6 = Trying, branch4 = Waiting, order = []\<rparr>)"

text \<open>The guard \<open>scope_exit\<close> of \<open>connect_ipv6\<close> cancels the timer however the attempt ends. The result of
  waiting is ignored by \<open>connect_ipv4\<close>; if the branch itself has been cancelled (\<open>cancelled\<close>) the next
  \<open>co_await\<close> throws.\<close>

fun eyeballs_step :: "results \<Rightarrow> (eyeballs, eyeballs_event, eyeballs_action) stepper" where
  "eyeballs_step eps st (Connected6 ec remote) =
     (if branch6 st = Trying
      then ([CancelTimer], st\<lparr>branch6 := Done (connect_result ec remote), order := order st @ [0]\<rparr>)
      else ([], st))"
| "eyeballs_step eps st (TimerDone ec cancelled) =
     (if branch4 st \<noteq> Waiting then ([], st)
      else if cancelled
      then ([], st\<lparr>branch4 := Done (Inl (SystemError OperationAborted)), order := order st @ [1]\<rparr>)
      else ([ConnectTo (entries (filter_family eps IPv4))], st\<lparr>branch4 := Trying\<rparr>))"
| "eyeballs_step eps st (Connected4 ec remote) =
     (if branch4 st = Trying
      then ([], st\<lparr>branch4 := Done (connect_result ec remote), order := order st @ [1]\<rparr>)
      else ([], st))"

type_synonym or_join = "nat list \<Rightarrow> exn + net_endpoint \<Rightarrow> exn + net_endpoint \<Rightarrow> exn + net_endpoint"

text \<open>Documented behaviour of \<open>||\<close>: the result of an operand that succeeded, if there is one, and an
  exception otherwise.\<close>

definition or_ok :: "or_join \<Rightarrow> bool" where
  "or_ok join \<longleftrightarrow> (\<forall>ord a b.
     (isl a \<and> isl b \<longrightarrow> isl (join ord a b))
     \<and> (\<not> (isl a \<and> isl b) \<longrightarrow> \<not> isl (join ord a b) \<and> join ord a b \<in> {a, b}))"

text \<open>The result of \<open>happy_eyeballs(endpoints)\<close>, once both branches have ended, and of the overload that
  resolves first.\<close>

definition happy_eyeballs :: "or_join \<Rightarrow> eyeballs \<Rightarrow> (exn + net_endpoint) option" where
  "happy_eyeballs join st =
     (case (branch6 st, branch4 st) of (Done a, Done b) \<Rightarrow> Some (join (order st) a b) | _ \<Rightarrow> None)"

definition happy_eyeballs_host ::
  "error_code + results \<Rightarrow> or_join \<Rightarrow> eyeballs_event list \<Rightarrow> (exn + net_endpoint) option" where
  "happy_eyeballs_host resolved join es =
     (case resolved of
        Inl ec \<Rightarrow> Some (Inl (SystemError ec))
      | Inr eps \<Rightarrow> happy_eyeballs join (snd (steps (eyeballs_step eps) (snd (eyeballs_start eps)) es)))"

text \<open>\<open>test_happy_eyeballs\<close>: the line printed for the connected socket; \<open>remote_endpoint\<close> throws on error.
  \<open>main\<close> gives it one second and prints what an exception says; \<open>run\<close> is the result of the coroutine.\<close>

definition test_happy_eyeballs ::
  "(net_endpoint \<Rightarrow> string) \<Rightarrow> exn + net_endpoint \<Rightarrow> error_code + net_endpoint \<Rightarrow> exn + string list" where
  "test_happy_eyeballs show_endpoint result remote =
     (case result of
        Inl x \<Rightarrow> Inl x
      | Inr _ \<Rightarrow> (case remote of Inl ec \<Rightarrow> Inl (SystemError ec) | Inr ep \<Rightarrow> Inr [''connected to '' @ show_endpoint ep]))"

definition happy_main ::
  "(error_code \<Rightarrow> string) \<Rightarrow> string list \<Rightarrow> (string \<Rightarrow> string \<Rightarrow> exn + string list) \<Rightarrow> exn + int \<times> string list" where
  "happy_main message argv run =
     (if length argv \<noteq> 3 then Inr (1, [''Usage: '' @ argv ! 0 @ '' <HOST> <SERVICE>''])
      else
        (case run (argv ! 1) (argv ! 2) of
           Inr ls \<Rightarrow> Inr (0, ls)
         | Inl x \<Rightarrow> map_sum id (Pair 0) (log_exception message (Some x))))"

section \<open>proxy.cpp\<close>

datatype forward_state = FwdRead size_t | FwdWrite size_t

definition forward_start :: "stream_op list \<times> (forward_state, size_t) ctl" where
  "forward_start = ([AsyncReadSome Source (64 * 1024)], Suspended (FwdRead 0))"

text \<open>The code after the loop and the exception handler around it: end of file (of either operation)
  shuts the target down, which throws on error (\<open>shut\<close>).\<close>

definition forward_catch :: "error_code \<Rightarrow> error_code \<Rightarrow> size_t \<Rightarrow> stream_op list \<times> (forward_state, size_t) ctl" where
  "forward_catch shut ec tot =
     (if ec \<noteq> Eof then ([], Threw (SystemError ec))
      else if shut \<noteq> Success then ([ShutdownSend Sink], Threw (SystemError shut))
      else ([ShutdownSend Sink], Returned tot))"

fun forward :: "error_code \<Rightarrow> (forward_state, stream_event, stream_op, size_t) body" where
  "forward shut (FwdRead tot) (ReadDone ec bs) =
     (if ec \<noteq> Success then forward_catch shut ec tot
      else ([AsyncWrite Sink bs], Suspended (FwdWrite (tot + of_nat (length bs)))))"
| "forward shut (FwdWrite tot) (WriteDone ec n) =
     (if ec \<noteq> Success then forward_catch shut ec tot
      else ([AsyncReadSome Source (64 * 1024)], Suspended (FwdRead tot)))"
| "forward shut s e = ([], Suspended s)"

text \<open>\<open>session\<close>: the completions of \<open>async_resolve\<close>, of \<open>async_connect\<close> and of the two loops joined by
  \<open>&&\<close>; the result is the pair of counts.\<close>

definition proxy_session ::
  "error_code \<times> 'ep list \<Rightarrow> ('ep list \<Rightarrow> error_code) \<Rightarrow> exn + size_t \<times> size_t \<Rightarrow> exn + size_t \<times> size_t" where
  "proxy_session resolved connect both =
     (case resolved of (ec, eps) \<Rightarrow>
        if ec \<noteq> Success then Inl (SystemError ec)
        else if connect eps \<noteq> Success then Inl (SystemError (connect eps))
        else both)"

fun fwd_total :: "forward_state \<Rightarrow> size_t" where
  "fwd_total (FwdRead tot) = tot"
| "fwd_total (FwdWrite tot) = tot"

fun fwd_reads :: "forward_state \<Rightarrow> bool" where
  "fwd_reads (FwdRead _) = True"
| "fwd_reads (FwdWrite _) = False"

text \<open>With a shutdown that succeeds, the loop is a counting relay.\<close>

interpretation fwd_loop: counting_relay "forward Success" fwd_reads "\<lambda>s. \<not> fwd_reads s" "\<lambda>ec. ec \<noteq> Success" fwd_total
proof unfold_locales
  fix s :: forward_state and ec :: error_code and bs n
  show "fwd_reads s \<Longrightarrow> \<not> ec \<noteq> Success \<Longrightarrow>
      \<exists>s' h. forward Success s (ReadDone ec bs) = ([AsyncWrite h bs], Suspended s') \<and> \<not> fwd_reads s'"
    by (cases s) auto
  show "fwd_reads s \<Longrightarrow> ec \<noteq> Success \<Longrightarrow>
      \<exists>ops c. forward Success s (ReadDone ec bs) = (ops, c) \<and> sent ops = [] \<and> finished c"
    by (cases s) (auto simp: forward_catch_def)
  show "\<not> fwd_reads s \<Longrightarrow>
      \<exists>s' h k. forward Success s (WriteDone Success n) = ([AsyncReadSome h k], Suspended s') \<and> fwd_reads s'"
    by (cases s) auto
  show "\<not> fwd_reads s \<Longrightarrow> ec \<noteq> Success \<Longrightarrow>
      \<exists>ops c. forward Success s (WriteDone ec n) = (ops, c) \<and> sent ops = [] \<and> finished c"
    by (cases s) (auto simp: forward_catch_def)
  show "fwd_reads s \<Longrightarrow> \<exists>ops. forward Success s (ReadDone Eof bs) = (ops, Returned (fwd_total s))"
    by (cases s) (auto simp: forward_catch_def)
next
  fix s :: forward_state and bs ops s' n
  show "fwd_reads s \<Longrightarrow> forward Success s (ReadDone Success bs) = (ops, Suspended s') \<Longrightarrow>
      fwd_total s' = fwd_total s + of_nat (length bs)"
    by (cases s) auto
  show "\<not> fwd_reads s \<Longrightarrow> forward Success s (WriteDone Success n) = (ops, Suspended s') \<Longrightarrow>
      fwd_total s' = fwd_total s"
    by (cases s) auto
qed auto

section \<open>The race\<close>

text \<open>Documented behaviour of \<open>steady_timer\<close>, in terms of the operations the program performs on it. A
  timer that was not set has expired (its expiry is the epoch). \<open>expires_after\<close> sets the expiry and
  cancels a pending wait, \<open>cancel\<close> cancels a pending wait and leaves the expiry alone. A wait is pending
  until it completes; it completes without an error only when the expiry is reached, and with an
  error only after it was cancelled through the timer or with the coroutine that waits (\<open>cancelled\<close>).
  Times are milliseconds since the start of \<open>happy_eyeballs\<close>.\<close>

record steady_timer =
  expiry :: nat
  wait_pending :: bool
  wait_aborted :: bool

definition timer_new :: steady_timer where
  "timer_new = \<lparr>expiry = 0, wait_pending = False, wait_aborted = False\<rparr>"

fun timer_effect :: "nat \<Rightarrow> eyeballs_action \<Rightarrow> steady_timer \<Rightarrow> steady_timer" where
  "timer_effect now (TimerExpiresAfter ms) T = T\<lparr>expiry := now + ms, wait_aborted := wait_pending T\<rparr>"
| "timer_effect now TimerWait T = T\<lparr>wait_pending := True, wait_aborted := False\<rparr>"
| "timer_effect now CancelTimer T = T\<lparr>wait_aborted := wait_aborted T \<or> wait_pending T\<rparr>"
| "timer_effect now (ConnectTo eps) T = T"

fun timer_allows :: "steady_timer \<Rightarrow> nat \<Rightarrow> eyeballs_event \<Rightarrow> bool" where
  "timer_allows T now (TimerDone ec cancelled) \<longleftrightarrow>
     wait_pending T \<and> (if ec = Success then expiry T \<le> now else wait_aborted T \<or> cancelled)"
| "timer_allows T now _ \<longleftrightarrow> True"

fun timer_event :: "eyeballs_event \<Rightarrow> steady_timer \<Rightarrow> steady_timer" where
  "timer_event (TimerDone ec cancelled) T = T\<lparr>wait_pending := False, wait_aborted := False\<rparr>"
| "timer_event _ T = T"

text \<open>A run with the time of each completion, in which the timer behaves as documented.\<close>

fun timed_ok :: "results \<Rightarrow> nat \<Rightarrow> steady_timer \<Rightarrow> eyeballs \<Rightarrow> (nat \<times> eyeballs_event) list \<Rightarrow> bool" where
  "timed_ok eps now T st [] = True"
| "timed_ok eps now T st ((t, e) # es) =
     (now \<le> t \<and> timer_allows T t e
      \<and> timed_ok eps t (fold (timer_effect t) (fst (eyeballs_step eps st e)) (timer_event e T)) (snd (eyeballs_step eps st e)) es)"

definition timer_ok :: "results \<Rightarrow> (nat \<times> eyeballs_event) list \<Rightarrow> bool" where
  "timer_ok eps es =
     timed_ok eps 0 (fold (timer_effect 0) (fst (eyeballs_start eps)) timer_new) (snd (eyeballs_start eps)) es"

lemma is_v4_v6: "is_v4 ep \<longleftrightarrow> \<not> is_v6 ep"
  by (cases ep rule: is_v4.cases) auto

lemma filter_family_entries:
  "entries (filter_family eps IPv4) = filter is_v4 (entries eps)"
  "entries (filter_family eps IPv6) = filter is_v6 (entries eps)"
  by (auto simp: filter_family_def IPv4_def IPv6_def)

text \<open>What each branch has reached after a run, in terms of the completions so far.\<close>

definition outcome_of ::
  "(error_code \<Rightarrow> error_code + net_endpoint \<Rightarrow> eyeballs_event) \<Rightarrow> eyeballs_event list \<Rightarrow> exn + net_endpoint \<Rightarrow> bool" where
  "outcome_of con es x \<longleftrightarrow> (\<exists>e r. con e r \<in> set es \<and> x = connect_result e r)"

lemma outcome_of_later [simp]: "outcome_of con es x \<Longrightarrow> outcome_of con (es @ [e]) x"
  by (auto simp: outcome_of_def)

lemma outcome_of_now [simp]: "outcome_of con (es @ [con e r]) (connect_result e r)"
  by (auto simp: outcome_of_def)

lemma outcome_of_connected:
  assumes "outcome_of con es (Inr ep)"
  shows "con Success (Inr ep) \<in> set es"
proof -
  obtain e r where "con e r \<in> set es" "Inr ep = connect_result e r"
    using assms by (auto simp: outcome_of_def)
  then show ?thesis by (cases r) (auto simp: connect_result_def split: if_splits)
qed

definition race_inv :: "eyeballs_event list \<Rightarrow> eyeballs \<Rightarrow> bool" where
  "race_inv es st \<longleftrightarrow>
     (case branch6 st of
        Waiting \<Rightarrow> False
      | Trying \<Rightarrow> \<forall>e r. Connected6 e r \<notin> set es
      | Done x \<Rightarrow> outcome_of Connected6 es x)
     \<and> (\<forall>x. branch4 st = Done x \<longrightarrow> x = Inl (SystemError OperationAborted) \<or> outcome_of Connected4 es x)"

lemma race_step_inv:
  assumes inv: "race_inv es st" and step: "eyeballs_step eps st e = (as, st')"
  shows "race_inv (es @ [e]) st'"
  using assms
  by (cases e; cases "branch6 st"; cases "branch4 st") (auto simp: race_inv_def split: if_splits)

lemma race_run_inv:
  assumes "steps (eyeballs_step eps) (snd (eyeballs_start eps)) es = (as, st)"
  shows "race_inv es st"
  using assms
proof (induction es arbitrary: as st rule: rev_induct)
  case Nil
  then show ?case by (auto simp: race_inv_def eyeballs_start_def)
next
  case (snoc e es)
  obtain as1 st1 where r: "steps (eyeballs_step eps) (snd (eyeballs_start eps)) es = (as1, st1)" by fastforce
  obtain as2 st2 where s: "eyeballs_step eps st1 e = (as2, st2)" by fastforce
  from snoc.prems r s have "st = st2" by (auto simp: steps_append)
  with race_step_inv [OF snoc.IH [OF r] s] show ?case by simp
qed

text \<open>The timer is set to 200 milliseconds, a wait on it is pending as long as the IPv4 branch waits,
  and that wait is cancelled only when the IPv6 branch has ended.\<close>

definition timer_inv :: "steady_timer \<Rightarrow> eyeballs \<Rightarrow> bool" where
  "timer_inv T st \<longleftrightarrow> expiry T = 200 \<and> (branch4 st = Waiting \<longrightarrow> wait_pending T)
     \<and> (wait_aborted T \<longrightarrow> branch6 st \<noteq> Trying)"

lemma timer_inv_step:
  assumes "timer_inv T st" and "timer_allows T t e"
  shows "timer_inv (fold (timer_effect t) (fst (eyeballs_step eps st e)) (timer_event e T)) (snd (eyeballs_step eps st e))"
  using assms by (cases e) (auto simp: timer_inv_def)

lemma timed_ok_last:
  assumes "timed_ok eps now T st (es @ fs)" and "timer_inv T st"
  shows "\<exists>T' now'. timer_inv T' (snd (steps (eyeballs_step eps) st (map snd es)))
    \<and> timed_ok eps now' T' (snd (steps (eyeballs_step eps) st (map snd es))) fs
    \<and> (\<forall>gs. timed_ok eps now T st (es @ gs)
         \<longleftrightarrow> timed_ok eps now' T' (snd (steps (eyeballs_step eps) st (map snd es))) gs)"
  using assms
proof (induction es arbitrary: now T st)
  case (Cons x es)
  obtain t e where x: "x = (t, e)" by fastforce
  with Cons.prems(1) have ok: "now \<le> t" "timer_allows T t e" by simp_all
  let ?T = "fold (timer_effect t) (fst (eyeballs_step eps st e)) (timer_event e T)"
  have "timed_ok eps t ?T (snd (eyeballs_step eps st e)) (es @ fs)" using Cons.prems(1) x by simp
  from Cons.IH [OF this timer_inv_step [OF Cons.prems(2) ok(2)]] ok x show ?case
    by (simp add: split_beta)
qed auto

lemma timer_ok_last:
  assumes "timer_ok eps (es @ fs)"
  obtains T now where "timer_inv T (snd (steps (eyeballs_step eps) (snd (eyeballs_start eps)) (map snd es)))"
    and "\<And>gs. timer_ok eps (es @ gs) \<longleftrightarrow>
      timed_ok eps now T (snd (steps (eyeballs_step eps) (snd (eyeballs_start eps)) (map snd es))) gs"
proof -
  have "timer_inv (fold (timer_effect 0) (fst (eyeballs_start eps)) timer_new) (snd (eyeballs_start eps))"
    by (simp add: timer_inv_def eyeballs_start_def timer_new_def)
  from timed_ok_last [OF assms [unfolded timer_ok_def] this] that show thesis unfolding timer_ok_def by blast
qed

section \<open>Properties\<close>

text \<open>C21: The two branches of Happy Eyeballs share out the endpoints: IPv6 addresses go to one, IPv4
  addresses to the other, each in the order of the resolver, none is lost or duplicated. In every
  run in which the timer behaves as documented, the connection attempt that a completion starts is
  the one to the IPv4 addresses, and it is started at least 200 milliseconds after the beginning or
  after the IPv6 attempt has ended. When the IPv6 attempt ends while the IPv4 branch still waits, the
  wait may complete at once, with \<open>operation_aborted\<close>, and its completion starts the IPv4 attempt.\<close>

theorem happy_eyeballs_delay:
  assumes "timer_ok eps (es @ [(t, e)])"
    and "steps (eyeballs_step eps) (snd (eyeballs_start eps)) (map snd es) = (as, st)"
  shows "mset (entries eps) = mset (entries (filter_family eps IPv6)) + mset (entries (filter_family eps IPv4))
    \<and> subseq (entries (filter_family eps af)) (entries eps)
    \<and> (\<forall>eps'. ConnectTo eps' \<in> set (fst (eyeballs_step eps st e)) \<longrightarrow>
         eps' = filter is_v4 (entries eps) \<and> (200 \<le> t \<or> (\<exists>ec r. Connected6 ec r \<in> snd ` set es)))
    \<and> (e = Connected6 ec r \<and> branch4 st = Waiting \<and> branch6 st = Trying \<longrightarrow>
         timer_ok eps (es @ [(t, e), (t, TimerDone OperationAborted False)])
         \<and> steps (eyeballs_step eps) st [e, TimerDone OperationAborted False] =
          ([CancelTimer, ConnectTo (filter is_v4 (entries eps))],
           st\<lparr>branch6 := Done (connect_result ec r), branch4 := Trying, order := order st @ [0]\<rparr>))"
proof -
  obtain T now where T: "timer_inv T st" and ok: "\<And>gs. timer_ok eps (es @ gs) \<longleftrightarrow> timed_ok eps now T st gs"
    using timer_ok_last [OF assms(1)] unfolding assms(2) snd_conv by blast
  have e: "now \<le> t" "timer_allows T t e" using assms(1) ok by simp_all
  have "mset (entries eps) = mset (filter is_v6 (entries eps)) + mset (filter is_v4 (entries eps))"
    by (simp add: is_v4_v6)
  moreover have "subseq (entries (filter_family eps af)) (entries eps)"
    by (simp add: filter_family_def)
  moreover have "eps' = filter is_v4 (entries eps) \<and> (200 \<le> t \<or> (\<exists>ec r. Connected6 ec r \<in> snd ` set es))"
    if "ConnectTo eps' \<in> set (fst (eyeballs_step eps st e))" for eps'
    using that e T race_run_inv [OF assms(2)]
    by (cases e; cases "branch6 st")
      (auto simp: timer_inv_def race_inv_def outcome_of_def filter_family_entries split: if_splits)
  ultimately show ?thesis using e T by (auto simp: ok timer_inv_def filter_family_entries)
qed

theorem happy_eyeballs_delay_witness:
  "branch4 (snd (steps (eyeballs_step \<lparr>entries = [(V4 1, 80), (V6 1, 80)], host_name = ''h'', service_name = ''http''\<rparr>)
      (snd (eyeballs_start \<lparr>entries = [(V4 1, 80), (V6 1, 80)], host_name = ''h'', service_name = ''http''\<rparr>))
      [Connected6 (OtherError 111) (Inl Eof), TimerDone OperationAborted False])) = Trying"
proof -
  let ?eps = "\<lparr>entries = [(V4 1, 80), (V6 1, 80)], host_name = ''h'', service_name = ''http''\<rparr> :: results"
  have t: "timer_ok ?eps ([] @ [(5, Connected6 (OtherError 111) (Inl Eof))])"
    by (simp add: timer_ok_def eyeballs_start_def)
  have r: "steps (eyeballs_step ?eps) (snd (eyeballs_start ?eps)) (map snd []) = ([], snd (eyeballs_start ?eps))" by simp
  have "branch4 (snd (eyeballs_start ?eps)) = Waiting \<and> branch6 (snd (eyeballs_start ?eps)) = Trying"
    by (simp add: eyeballs_start_def)
  with happy_eyeballs_delay [OF t r, of IPv4 "OtherError 111" "Inl Eof"]
  have "steps (eyeballs_step ?eps) (snd (eyeballs_start ?eps)) [Connected6 (OtherError 111) (Inl Eof), TimerDone OperationAborted False]
      = ([CancelTimer, ConnectTo (filter is_v4 (entries ?eps))], (snd (eyeballs_start ?eps))
          \<lparr>branch6 := Done (connect_result (OtherError 111) (Inl Eof)), branch4 := Trying, order := order (snd (eyeballs_start ?eps)) @ [0]\<rparr>)"
    by blast
  then show ?thesis by (simp only: snd_conv) simp
qed

text \<open>Happy Eyeballs returns a connection exactly when one of its two attempts produced one, and
  then the endpoint of that attempt; when both fail it throws. Failing to resolve the host is
  thrown as well.\<close>

lemma happy_eyeballs_outcome:
  assumes "or_ok join" and "steps (eyeballs_step eps) (snd (eyeballs_start eps)) es = (as, st)"
    and "happy_eyeballs join st = Some result"
  shows "(\<forall>ep. result = Inr ep \<longrightarrow> Connected6 Success (Inr ep) \<in> set es \<or> Connected4 Success (Inr ep) \<in> set es)
    \<and> (isl result \<longleftrightarrow> (\<forall>r \<in> {branch6 st, branch4 st}. \<forall>ep. r \<noteq> Done (Inr ep)))
    \<and> happy_eyeballs_host (Inr eps) join es = Some result
    \<and> happy_eyeballs_host (Inl ec) join es = Some (Inl (SystemError ec))"
proof -
  obtain a b where ab: "branch6 st = Done a" "branch4 st = Done b" "result = join (order st) a b"
    using assms(3) by (auto simp: happy_eyeballs_def split: branch.splits)
  note inv = race_run_inv [OF assms(2)]
  have "Connected6 Success (Inr ep) \<in> set es" if "a = Inr ep" for ep
    using inv ab(1) that outcome_of_connected [of Connected6 es ep] by (simp add: race_inv_def)
  moreover have "Connected4 Success (Inr ep) \<in> set es" if "b = Inr ep" for ep
    using inv ab(2) that outcome_of_connected [of Connected4 es ep] by (auto simp: race_inv_def)
  moreover have "isl result \<longleftrightarrow> isl a \<and> isl b" "\<not> isl result \<Longrightarrow> result \<in> {a, b}"
    using assms(1) ab(3) by (auto simp: or_ok_def)
  moreover have "isl a \<longleftrightarrow> (\<forall>ep. a \<noteq> Inr ep)" "isl b \<longleftrightarrow> (\<forall>ep. b \<noteq> Inr ep)" by (cases a; cases b; auto)+
  ultimately show ?thesis
    using ab(1,2) assms(2,3) by (auto simp: happy_eyeballs_host_def)
qed

definition first_join :: or_join where
  "first_join ord a b = (case a of Inr _ \<Rightarrow> a | Inl x \<Rightarrow> (case b of Inr _ \<Rightarrow> b | Inl _ \<Rightarrow> Inl (MultipleExceptions (Some x))))"

lemma first_join_ok: "or_ok first_join"
  by (auto simp: or_ok_def first_join_def split: sum.splits)

text \<open>Each direction of the proxy hands on exactly the bytes it reads, in order; at end of file it
  shuts the target down for sending and returns the number of bytes it moved. If that shutdown
  fails, or on any other error, it throws.\<close>

lemma proxy_forwards:
  assumes "answers (\<lambda>ec. ec \<noteq> Success) True es"
    and "drive (forward Success) (snd forward_start) es = (ops, c)"
  shows "sent ops = received es
    \<and> (\<forall>s. c = Suspended s \<and> fwd_reads s \<longrightarrow>
        snd (drive (forward Success) (snd forward_start) (es @ [ReadDone Eof []]))
          = Returned (of_nat (length (received es)))
        \<and> forward shut s (ReadDone Eof []) =
            ([ShutdownSend Sink], if shut = Success then Returned (fwd_total s) else Threw (SystemError shut))
        \<and> (ec \<noteq> Success \<and> ec \<noteq> Eof \<longrightarrow> forward shut s (ReadDone ec []) = ([], Threw (SystemError ec))))"
proof -
  have run: "drive (forward Success) (Suspended (FwdRead 0)) es = (ops, c)"
    using assms(2) by (simp add: forward_start_def)
  have "sent ops = received es" by (rule fwd_loop.relay_sent [OF _ assms(1) run]) simp
  moreover have "snd (drive (forward Success) (snd forward_start) (es @ [ReadDone Eof []]))
      = Returned (of_nat (length (received es)))" if "c = Suspended s" "fwd_reads s" for s
    using fwd_loop.count_at_eof [OF _ assms(1), of "FwdRead 0" ops s] run that by (simp add: forward_start_def)
  moreover have "forward shut s (ReadDone Eof []) =
      ([ShutdownSend Sink], if shut = Success then Returned (fwd_total s) else Threw (SystemError shut))
      \<and> (ec \<noteq> Success \<and> ec \<noteq> Eof \<longrightarrow> forward shut s (ReadDone ec []) = ([], Threw (SystemError ec)))"
    if "fwd_reads s" for s
    using that by (cases s) (auto simp: forward_catch_def)
  ultimately show ?thesis by blast
qed

end
