(* ===== verification/Pipeline.thy ===== *)
theory Pipeline
  imports Relay
begin

text \<open>
  Coroutines that copy bytes, connected in a row: each reads from the connection on its left and writes to the
  connection on its right. The interface \<open>relay_pipeline\<close> asks little of the coroutine (what it has read it writes,
  then it reads again; at end of file it ends and so ends its output); its lemmas say that a row of any length loses
  and reorders nothing, blocks only when it waits for input or its outlet is full, and comes to rest after a
  computed number of events.

  A connection is the environment of the coroutines. What they rely on is written as guards of the events: bytes
  arrive in order and unchanged, a connection holds at most \<open>room\<close> bytes on the way, a composed write completes when all
  of its bytes have been taken, a read delivers at least one and at most as many bytes as asked for, or end of
  file once the other side has shut down and all bytes have been read.
\<close>

section \<open>Connections and stages\<close>

record chan =
  content :: "byte list"
  ended :: bool
  room :: nat

text \<open>\<open>pending\<close>: the part of the outstanding write that has not been taken, \<open>moved\<close>: how much of it has been.\<close>

record ('s, 'r) stage =
  ctl_of :: "('s, 'r) ctl"
  pending :: "byte list"
  moved :: nat

fun stage_op :: "stream_op \<Rightarrow> ('s, 'r) stage \<times> chan \<Rightarrow> ('s, 'r) stage \<times> chan" where
  "stage_op (AsyncWrite h bs) (st, out) = (st\<lparr>pending := bs\<rparr>, out)"
| "stage_op (AsyncReadSome h n) (st, out) = (st, out)"
| "stage_op (ShutdownSend h) (st, out) = (st, out\<lparr>ended := True\<rparr>)"
| "stage_op (ShutdownBoth h) (st, out) = (st, out\<lparr>ended := True\<rparr>)"
| "stage_op (Close h) (st, out) = (st, out\<lparr>ended := True\<rparr>)"

text \<open>A coroutine that has ended destroys its socket.\<close>

definition stage_turn ::
  "stream_op list \<times> ('s, 'r) ctl \<Rightarrow> ('s, 'r) stage \<Rightarrow> chan \<Rightarrow> ('s, 'r) stage \<times> chan" where
  "stage_turn r st out =
     (case r of (ops, c) \<Rightarrow>
        (case foldl (\<lambda>x op. stage_op op x) (st\<lparr>ctl_of := c, pending := [], moved := 0\<rparr>, out) ops of
           (st', out') \<Rightarrow> (st', if finished c then out'\<lparr>ended := True\<rparr> else out')))"

datatype stage_event = StageReads nat | StageEof | StageSends nat | StageWritten

text \<open>One event of a stage between \<open>inp\<close> and \<open>out\<close>; \<open>rd\<close> says whether the coroutine waits for a read. \<open>None\<close>: the
  event cannot happen.\<close>

fun stage_exec ::
  "('s, stream_event, stream_op, 'r) body \<Rightarrow> ('s \<Rightarrow> bool) \<Rightarrow> chan \<Rightarrow> ('s, 'r) stage \<Rightarrow> chan \<Rightarrow> stage_event
    \<Rightarrow> (chan \<times> ('s, 'r) stage \<times> chan) option" where
  "stage_exec body rd inp st out (StageReads n) =
     (case ctl_of st of
        Suspended s \<Rightarrow>
          if rd s \<and> 0 < n \<and> n \<le> length (content inp) \<and> n \<le> 64 * 1024
          then Some (inp\<lparr>content := drop n (content inp)\<rparr>,
                     stage_turn (body s (ReadDone Success (take n (content inp)))) st out)
          else None
      | _ \<Rightarrow> None)"
| "stage_exec body rd inp st out StageEof =
     (case ctl_of st of
        Suspended s \<Rightarrow>
          if rd s \<and> content inp = [] \<and> ended inp
          then Some (inp, stage_turn (body s (ReadDone Eof [])) st out) else None
      | _ \<Rightarrow> None)"
| "stage_exec body rd inp st out (StageSends n) =
     (case ctl_of st of
        Suspended s \<Rightarrow>
          if \<not> rd s \<and> 0 < n \<and> n \<le> length (pending st) \<and> length (content out) + n \<le> room out
          then Some (inp, st\<lparr>pending := drop n (pending st), moved := moved st + n\<rparr>,
                     out\<lparr>content := content out @ take n (pending st)\<rparr>)
          else None
      | _ \<Rightarrow> None)"
| "stage_exec body rd inp st out StageWritten =
     (case ctl_of st of
        Suspended s \<Rightarrow>
          if \<not> rd s \<and> pending st = []
          then Some (inp, stage_turn (body s (WriteDone Success (of_nat (moved st)))) st out) else None
      | _ \<Rightarrow> None)"

section \<open>Rows of stages\<close>

type_synonym ('s, 'r) pipe = "(('s, 'r) stage \<times> chan) list"

fun pipe_exec ::
  "('s, stream_event, stream_op, 'r) body \<Rightarrow> ('s \<Rightarrow> bool) \<Rightarrow> chan \<Rightarrow> ('s, 'r) pipe \<Rightarrow> nat \<Rightarrow> stage_event
    \<Rightarrow> (chan \<times> ('s, 'r) pipe) option" where
  "pipe_exec body rd inp [] i ev = None"
| "pipe_exec body rd inp ((st, out) # p) 0 ev =
     map_option (\<lambda>(inp', st', out'). (inp', (st', out') # p)) (stage_exec body rd inp st out ev)"
| "pipe_exec body rd inp ((st, out) # p) (Suc i) ev =
     map_option (\<lambda>(out', p'). (inp, (st, out') # p')) (pipe_exec body rd out p i ev)"

text \<open>The connection at the end of the row, and taking bytes from it.\<close>

fun outlet :: "chan \<Rightarrow> ('s, 'r) pipe \<Rightarrow> chan" where
  "outlet inp [] = inp"
| "outlet inp ((st, out) # p) = outlet out p"

fun take_outlet :: "nat \<Rightarrow> chan \<Rightarrow> ('s, 'r) pipe \<Rightarrow> chan \<times> ('s, 'r) pipe" where
  "take_outlet n inp [] = (inp\<lparr>content := drop n (content inp)\<rparr>, [])"
| "take_outlet n inp ((st, out) # p) = (case take_outlet n out p of (out', p') \<Rightarrow> (inp, (st, out') # p'))"

text \<open>The bytes inside the row, the first to come out first, and a bound on the events they may cause.\<close>

fun inside :: "('s, 'r) pipe \<Rightarrow> byte list" where
  "inside [] = []"
| "inside ((st, out) # p) = inside p @ content out @ pending st"

definition phase_weight :: "('s \<Rightarrow> bool) \<Rightarrow> ('s, 'r) ctl \<Rightarrow> nat" where
  "phase_weight rd c = (case c of Suspended s \<Rightarrow> if rd s then 1 else 2 | _ \<Rightarrow> 0)"

fun weight :: "('s \<Rightarrow> bool) \<Rightarrow> ('s, 'r) pipe \<Rightarrow> nat" where
  "weight rd [] = 0"
| "weight rd ((st, out) # p) =
     weight rd p + (3 * length p + 1) * length (content out) + (3 * length p + 2) * length (pending st)
       + phase_weight rd (ctl_of st)"

definition pipe_left :: "('s \<Rightarrow> bool) \<Rightarrow> chan \<Rightarrow> ('s, 'r) pipe \<Rightarrow> nat" where
  "pipe_left rd inp p = weight rd p + (3 * length p + 1) * length (content inp)"

definition stage_ok :: "('s \<Rightarrow> bool) \<Rightarrow> chan \<Rightarrow> ('s, 'r) stage \<Rightarrow> chan \<Rightarrow> bool" where
  "stage_ok rd inp st out \<longleftrightarrow>
     (case ctl_of st of
        Suspended s \<Rightarrow> (rd s \<longrightarrow> pending st = []) \<and> \<not> ended out
      | _ \<Rightarrow> pending st = [] \<and> content inp = [] \<and> ended inp \<and> ended out)"

fun pipe_ok :: "('s \<Rightarrow> bool) \<Rightarrow> chan \<Rightarrow> ('s, 'r) pipe \<Rightarrow> bool" where
  "pipe_ok rd inp [] = True"
| "pipe_ok rd inp ((st, out) # p) = (stage_ok rd inp st out \<and> 0 < room out \<and> pipe_ok rd out p)"

section \<open>Interface\<close>

locale relay_pipeline =
  fixes body :: "('s, stream_event, stream_op, 'r) body" and rd :: "'s \<Rightarrow> bool"
  assumes reads: "rd s \<Longrightarrow> \<exists>s' h. body s (ReadDone Success bs) = ([AsyncWrite h bs], Suspended s') \<and> \<not> rd s'"
    and writes: "\<not> rd s \<Longrightarrow> \<exists>s' h k. body s (WriteDone Success n) = ([AsyncReadSome h k], Suspended s') \<and> rd s'"
    and eof: "rd s \<Longrightarrow> \<exists>ops c. body s (ReadDone Eof []) = (ops, c) \<and> finished c \<and> ops \<in> {[], [Close Peer], [ShutdownSend Sink]}"
begin

lemma read_turn:
  assumes "rd s"
  shows "\<exists>s'. stage_turn (body s (ReadDone Success bs)) st out = (st\<lparr>ctl_of := Suspended s', moved := 0, pending := bs\<rparr>, out) \<and> \<not> rd s'"
  using reads [OF assms, of bs] by (auto simp: stage_turn_def)

lemma write_turn:
  assumes "\<not> rd s"
  shows "\<exists>s'. stage_turn (body s (WriteDone Success n)) st out = (st\<lparr>ctl_of := Suspended s', pending := [], moved := 0\<rparr>, out) \<and> rd s'"
  using writes [OF assms, of n] by (auto simp: stage_turn_def)

lemma eof_turn:
  assumes "rd s"
  shows "\<exists>c. stage_turn (body s (ReadDone Eof [])) st out = (st\<lparr>ctl_of := c, pending := [], moved := 0\<rparr>, out\<lparr>ended := True\<rparr>) \<and> finished c"
  using eof [OF assms] by (auto simp: stage_turn_def)

text \<open>The four events of a stage, spelled out.\<close>

lemma stage_cases:
  assumes "stage_exec body rd inp st out ev = Some (inp', st', out')"
  obtains (Reads) n s s' where "ctl_of st = Suspended s" "rd s" "0 < n" "n \<le> length (content inp)" "\<not> rd s'"
      "inp' = inp\<lparr>content := drop n (content inp)\<rparr>"
      "st' = st\<lparr>ctl_of := Suspended s', moved := 0, pending := take n (content inp)\<rparr>" "out' = out"
  | (AtEof) s c where "ctl_of st = Suspended s" "rd s" "content inp = []" "ended inp" "finished c"
      "inp' = inp" "st' = st\<lparr>ctl_of := c, pending := [], moved := 0\<rparr>" "out' = out\<lparr>ended := True\<rparr>"
  | (Sends) n s where "ctl_of st = Suspended s" "\<not> rd s" "0 < n" "n \<le> length (pending st)"
      "inp' = inp" "st' = st\<lparr>pending := drop n (pending st), moved := moved st + n\<rparr>"
      "out' = out\<lparr>content := content out @ take n (pending st)\<rparr>"
  | (Written) s s' where "ctl_of st = Suspended s" "\<not> rd s" "pending st = []" "rd s'"
      "inp' = inp" "st' = st\<lparr>ctl_of := Suspended s', pending := [], moved := 0\<rparr>" "out' = out"
proof -
  obtain s where s: "ctl_of st = Suspended s" using assms by (cases ev) (auto split: ctl.splits)
  show ?thesis
  proof (cases ev)
    case (StageReads n)
    with assms s have g: "rd s" "0 < n" "n \<le> length (content inp)" by (auto split: if_splits)
    from read_turn [OF g(1), of "take n (content inp)" st out] obtain s' where
      r: "stage_turn (body s (ReadDone Success (take n (content inp)))) st out
          = (st\<lparr>ctl_of := Suspended s', moved := 0, pending := take n (content inp)\<rparr>, out)" "\<not> rd s'" by blast
    note x = assms [unfolded StageReads stage_exec.simps s ctl.case r(1)]
    show ?thesis by (rule that(1) [OF s g r(2)]; rule sym; insert x; simp only: option.inject prod.inject option.distinct split: if_splits)
  next
    case StageEof
    with assms s have g: "rd s" "content inp = []" "ended inp" by (auto split: if_splits)
    from eof_turn [OF g(1), of st out] obtain c where
      r: "stage_turn (body s (ReadDone Eof [])) st out = (st\<lparr>ctl_of := c, pending := [], moved := 0\<rparr>, out\<lparr>ended := True\<rparr>)" "finished c"
      by blast
    note x = assms [unfolded StageEof stage_exec.simps s ctl.case r(1)]
    show ?thesis by (rule that(2) [OF s g r(2)]; rule sym; insert x; simp only: option.inject prod.inject option.distinct split: if_splits)
  next
    case (StageSends n)
    with assms s have g: "\<not> rd s" "0 < n" "n \<le> length (pending st)" by (auto split: if_splits)
    note x = assms [unfolded StageSends stage_exec.simps s ctl.case]
    show ?thesis by (rule that(3) [OF s g]; rule sym; insert x; simp only: option.inject prod.inject option.distinct split: if_splits)
  next
    case StageWritten
    with assms s have g: "\<not> rd s" "pending st = []" by (auto split: if_splits)
    from write_turn [OF g(1), of "of_nat (moved st)" st out] obtain s' where
      r: "stage_turn (body s (WriteDone Success (of_nat (moved st)))) st out = (st\<lparr>ctl_of := Suspended s', pending := [], moved := 0\<rparr>, out)"
        "rd s'" by blast
    note x = assms [unfolded StageWritten stage_exec.simps s ctl.case r(1)]
    show ?thesis by (rule that(4) [OF s g r(2)]; rule sym; insert x; simp only: option.inject prod.inject option.distinct split: if_splits)
  qed
qed

lemma stage_ok_finished: "finished (ctl_of st) \<Longrightarrow> stage_ok rd inp st out \<longleftrightarrow> pending st = [] \<and> content inp = [] \<and> ended inp \<and> ended out"
  by (cases "ctl_of st") (auto simp: stage_ok_def)

lemma stage_exec_ok:
  assumes "stage_exec body rd inp st out ev = Some (inp', st', out')" and "stage_ok rd inp st out"
  shows "stage_ok rd inp' st' out' \<and> room out' = room out \<and> ended inp' = ended inp \<and> \<not> ended out
    \<and> content out' @ pending st' @ content inp' = content out @ pending st @ content inp"
  using assms(1)
proof (cases rule: stage_cases)
  case (AtEof s c)
  with assms(2) show ?thesis by (simp add: stage_ok_finished) (simp add: stage_ok_def)
qed (use assms(2) in \<open>auto simp: stage_ok_def\<close>)

text \<open>Weights \<open>w\<close> per byte of the outlet.\<close>

lemma stage_exec_weight:
  assumes "stage_exec body rd inp st out ev = Some (inp', st', out')"
  shows "w * length (content out') + (w + 1) * length (pending st') + phase_weight rd (ctl_of st') + (w + 3) * length (content inp')
    < w * length (content out) + (w + 1) * length (pending st) + phase_weight rd (ctl_of st) + (w + 3) * length (content inp)"
  using assms
proof (cases rule: stage_cases)
  case (AtEof s c)
  then show ?thesis by (cases c) (simp_all add: phase_weight_def)
next
  case (Reads n s s')
  have l: "length (content inp) = length (content inp') + n" "length (pending st') = n" "length (pending st) = length (pending st)"
    "length (content out') = length (content out)" "phase_weight rd (ctl_of st') = phase_weight rd (ctl_of st) + 1"
    using Reads(1-5) by (simp_all add: Reads(6-8) phase_weight_def)
  show ?thesis unfolding l(1,2,4,5) using Reads(3) by (simp add: algebra_simps)
next
  case (Sends n s)
  have l: "length (pending st) = length (pending st') + n" "length (content out') = length (content out) + n"
    "inp' = inp" "ctl_of st' = ctl_of st"
    using Sends(4) by (simp_all add: Sends(5-7))
  show ?thesis unfolding l using Sends(3) by (simp add: algebra_simps)
qed (simp add: phase_weight_def)

text \<open>A stage that is stuck with an empty outlet waits for input or has ended.\<close>

lemma stage_stuck:
  assumes "\<forall>ev. stage_exec body rd inp st out ev = None" and "stage_ok rd inp st out" and "content out = []" and "0 < room out"
  shows "content inp = [] \<and> (ended inp \<longrightarrow> finished (ctl_of st) \<and> ended out \<and> pending st = [])"
proof (cases "ctl_of st")
  case (Suspended s)
  have n: "stage_exec body rd inp st out ev = None" for ev using assms(1) by blast
  have "rd s"
  proof (rule ccontr)
    assume r: "\<not> rd s"
    have "pending st \<noteq> []" using n [of StageWritten] Suspended r by auto
    with n [of "StageSends 1"] Suspended r assms(3,4) show False by (cases "pending st") auto
  qed
  moreover from this have "content inp = []" using n [of "StageReads 1"] Suspended by (cases "content inp") auto
  ultimately show ?thesis using n [of StageEof] Suspended by (auto split: if_splits)
qed (use assms(2) in \<open>auto simp: stage_ok_def\<close>)

section \<open>Rows\<close>

text \<open>As long as its input has not ended, a row is well-formed for any input.\<close>

lemma pipe_ok_input: "pipe_ok rd inp p \<Longrightarrow> \<not> ended inp \<Longrightarrow> pipe_ok rd inp' p"
  by (cases p) (auto simp: stage_ok_def split: ctl.splits)

lemma pipe_ok_consumed: "pipe_ok rd inp p \<Longrightarrow> content inp = [] \<longrightarrow> content inp' = [] \<Longrightarrow> ended inp' = ended inp \<Longrightarrow> pipe_ok rd inp' p"
  by (cases p) (auto simp: stage_ok_def split: ctl.splits)

lemma stage_ok_output: "stage_ok rd inp st out \<Longrightarrow> ended out' = ended out \<Longrightarrow> stage_ok rd inp st out'"
  by (auto simp: stage_ok_def split: ctl.splits)

lemma pipe_exec_ok:
  assumes "pipe_exec body rd inp p i ev = Some (inp', p')" and "pipe_ok rd inp p"
  shows "pipe_ok rd inp' p' \<and> ended inp' = ended inp \<and> room inp' = room inp \<and> length p' = length p
    \<and> inside p' @ content inp' = inside p @ content inp \<and> (content inp = [] \<longrightarrow> content inp' = [])"
  using assms
proof (induction p arbitrary: i inp inp' p')
  case (Cons a p)
  obtain st out where a: "a = (st, out)" by fastforce
  show ?case
  proof (cases i)
    case 0
    with Cons.prems a obtain st' out' where e: "stage_exec body rd inp st out ev = Some (inp', st', out')" "p' = (st', out') # p"
      by (auto simp del: stage_exec.simps)
    have ok: "stage_ok rd inp st out" "0 < room out" "pipe_ok rd out p" using Cons.prems(2) a by simp_all
    note s = stage_exec_ok [OF e(1) ok(1)]
    have "pipe_ok rd out' p" using pipe_ok_input [OF ok(3)] s by blast
    moreover have "room inp' = room inp \<and> (content inp = [] \<longrightarrow> content inp' = [])"
      using e(1) by (cases rule: stage_cases) auto
    ultimately show ?thesis using s e(2) a ok by simp
  next
    case (Suc j)
    with Cons.prems a obtain out' q where e: "pipe_exec body rd out p j ev = Some (out', q)" "inp' = inp" "p' = (st, out') # q"
      by auto
    have ok: "stage_ok rd inp st out" "0 < room out" "pipe_ok rd out p" using Cons.prems(2) a by simp_all
    from Cons.IH [OF e(1) ok(3)] e ok a stage_ok_output [OF ok(1)] show ?thesis
      by (simp flip: append_assoc)
  qed
qed simp

lemma pipe_exec_weight:
  assumes "pipe_exec body rd inp p i ev = Some (inp', p')" and "pipe_ok rd inp p"
  shows "pipe_left rd inp' p' < pipe_left rd inp p"
  using assms
proof (induction p arbitrary: i inp inp' p')
  case (Cons a p)
  obtain st out where a: "a = (st, out)" by fastforce
  show ?case
  proof (cases i)
    case 0
    with Cons.prems a obtain st' out' where e: "stage_exec body rd inp st out ev = Some (inp', st', out')" "p' = (st', out') # p"
      by (auto simp del: stage_exec.simps)
    from stage_exec_weight [OF e(1), of "3 * length p + 1"] show ?thesis by (simp add: pipe_left_def a e(2))
  next
    case (Suc j)
    with Cons.prems a obtain out' q where e: "pipe_exec body rd out p j ev = Some (out', q)" "inp' = inp" "p' = (st, out') # q"
      by auto
    have ok: "pipe_ok rd out p" using Cons.prems(2) a by simp
    from Cons.IH [OF e(1) ok] pipe_exec_ok [OF e(1) ok] show ?thesis by (simp add: pipe_left_def a e)
  qed
qed simp

text \<open>An outlet that has ended does not change.\<close>

lemma pipe_exec_outlet:
  assumes "pipe_exec body rd inp p i ev = Some (inp', p')" and "pipe_ok rd inp p" and "ended (outlet inp p)"
  shows "ended (outlet inp' p') \<and> content (outlet inp' p') = content (outlet inp p)"
  using assms
proof (induction p arbitrary: i inp inp' p')
  case (Cons a p)
  obtain st out where a: "a = (st, out)" by fastforce
  show ?case
  proof (cases i)
    case 0
    with Cons.prems a obtain st' out' where e: "stage_exec body rd inp st out ev = Some (inp', st', out')" "p' = (st', out') # p"
      by (auto simp del: stage_exec.simps)
    have "\<not> ended out" using stage_exec_ok [OF e(1)] Cons.prems(2) a by simp
    with Cons.prems(3) a obtain b q where "p = b # q" by (cases p) auto
    with Cons.prems(3) a e(2) show ?thesis by (cases b) simp
  next
    case (Suc j)
    with Cons.prems a obtain out' q where e: "pipe_exec body rd out p j ev = Some (out', q)" "inp' = inp" "p' = (st, out') # q"
      by auto
    from Cons.IH [OF e(1)] Cons.prems(2,3) a e show ?thesis by simp
  qed
qed simp

text \<open>A row that is stuck with an empty outlet waits for input or has ended.\<close>

lemma pipe_stuck:
  assumes "\<forall>i ev. pipe_exec body rd inp p i ev = None" and "pipe_ok rd inp p" and "content (outlet inp p) = []"
  shows "content inp = [] \<and> (ended inp \<longrightarrow> ended (outlet inp p) \<and> inside p = [] \<and> (\<forall>x \<in> set p. finished (ctl_of (fst x))))"
  using assms
proof (induction p arbitrary: inp)
  case (Cons a p)
  obtain st out where a: "a = (st, out)" by fastforce
  have "pipe_exec body rd inp (a # p) (Suc i) ev = None" for i ev using Cons.prems(1) by blast
  then have "pipe_exec body rd out p i ev = None" for i ev by (simp add: a)
  with Cons.IH [of out] Cons.prems(2,3) a
  have out: "content out = []" "ended out \<longrightarrow> ended (outlet out p) \<and> inside p = [] \<and> (\<forall>x \<in> set p. finished (ctl_of (fst x)))" by auto
  have "pipe_exec body rd inp (a # p) 0 ev = None" for ev using Cons.prems(1) by blast
  then have "stage_exec body rd inp st out ev = None" for ev by (simp add: a)
  with stage_stuck [of inp st out] Cons.prems(2) a out show ?case by auto
qed simp

text \<open>Reading from the outlet.\<close>

lemma take_outlet_ok:
  assumes "take_outlet n inp p = (inp', p')" and "pipe_ok rd inp p" and "n \<le> length (content (outlet inp p))"
  shows "pipe_ok rd inp' p' \<and> ended inp' = ended inp \<and> room inp' = room inp \<and> length p' = length p
    \<and> take n (content (outlet inp p)) @ inside p' @ content inp' = inside p @ content inp
    \<and> (content inp = [] \<longrightarrow> content inp' = []) \<and> ended (outlet inp' p') = ended (outlet inp p)"
  using assms
proof (induction p arbitrary: inp inp' p')
  case (Cons a p)
  obtain st out where a: "a = (st, out)" by fastforce
  obtain out' q where t: "take_outlet n out p = (out', q)" by fastforce
  with Cons.prems a have e: "inp' = inp" "p' = (st, out') # q" by simp_all
  have ok: "stage_ok rd inp st out" "0 < room out" "pipe_ok rd out p" using Cons.prems(2) a by simp_all
  note ih = Cons.IH [OF t ok(3)]
  have "n \<le> length (content (outlet out p))" using Cons.prems(3) a by simp
  with ih ok e a stage_ok_output [OF ok(1)] show ?case by (simp flip: append_assoc)
qed auto

lemma take_outlet_weight:
  assumes "take_outlet n inp p = (inp', p')" and "0 < n" and "n \<le> length (content (outlet inp p))"
  shows "pipe_left rd inp' p' < pipe_left rd inp p \<and> length p' = length p"
  using assms
proof (induction p arbitrary: inp inp' p')
  case (Cons a p)
  obtain st out where a: "a = (st, out)" by fastforce
  obtain out' q where t: "take_outlet n out p = (out', q)" by fastforce
  with Cons.IH [OF t] Cons.prems a show ?case by (auto simp: pipe_left_def algebra_simps)
qed (auto simp: pipe_left_def)

end

end
