(* ===== verification/Echo_Network.thy ===== *)
theory Echo_Network
  imports Echo_Client Echo_Sessions Networking Pipeline
begin

text \<open>
  A load generator connected to an echo session, directly or through proxies: \<open>co_await (write(socket) && read(socket))\<close> of
  \<open>bin/client.cpp\<close>, or \<open>when_all(write_loop, read_loop)\<close> of \<open>bin/corosio_client.cpp\<close>, at one end, a session of \<open>echo/\<close> or
  \<open>corosio/\<close> at the other, and any number of sessions of \<open>net/proxy.cpp\<close>, each with its two coroutines \<open>forward\<close>, in between. The
  loops are those of \<open>Echo_Client\<close>, \<open>Echo_Sessions\<close> and \<open>Networking\<close>; what lies between the write loop and the read loop of
  the client is a row of relays (theory \<open>Pipeline\<close>).

  For the client too the connection is given by guards: \<open>async_write_some\<close> completes when some of its bytes have been
  taken, a composed write when all have. Errors of a connection are not considered here (they are inputs of the single
  components).
\<close>

section \<open>Clients\<close>

text \<open>The two coroutines of a client: how the write loop begins, goes on after a write, and ends when its time limit
  cancels the outstanding write, and the read loop. \<open>late\<close> is what the clock says in \<open>corosio_client.cpp\<close>.\<close>

record client =
  cl_begin :: "bool \<Rightarrow> client_op list \<times> (size_t, size_t) ctl"
  cl_complete :: "size_t \<Rightarrow> size_t \<Rightarrow> bool \<Rightarrow> client_op list \<times> (size_t, size_t) ctl"
  cl_interrupt :: "size_t \<Rightarrow> (client_op list \<times> (size_t, size_t) ctl) option"
  cl_read :: "(size_t, stream_event, stream_op, size_t) body"
  cl_buffer :: size_t

definition asio_client :: "ClientConfig \<Rightarrow> client" where
  "asio_client cfg =
     \<lparr>cl_begin = (\<lambda>late. client_write_head cfg 0),
      cl_complete = (\<lambda>tot n late. client_write_loop cfg tot (Success, n)),
      cl_interrupt = (\<lambda>tot. case client_write cfg of
         CancelAfter d \<Rightarrow> Some (client_write_loop cfg tot (OperationAborted, 0)) | Unlimited \<Rightarrow> None),
      cl_read = client_read cfg, cl_buffer = buffer_size cfg\<rparr>"

definition corosio_client :: "ClientConfig \<Rightarrow> client" where
  "corosio_client cfg =
     \<lparr>cl_begin = (\<lambda>late. corosio_write_head cfg 0 late),
      cl_complete = (\<lambda>tot n late. corosio_write_loop cfg tot (Success, n, late)),
      cl_interrupt = (\<lambda>tot. None),
      cl_read = corosio_read_loop (buffer_size cfg), cl_buffer = buffer_size cfg\<rparr>"

section \<open>Relays\<close>

text \<open>The coroutines between the two loops of the client, and what they return.\<close>

datatype hop_state = SessionHop echo_state | ForwardHop forward_state

fun hop_body ::
  "(echo_state, stream_event, stream_op, unit) body \<Rightarrow> (hop_state, stream_event, stream_op, size_t option) body" where
  "hop_body S (SessionHop s) e = (case S s e of (ops, c) \<Rightarrow> (ops, map_ctl SessionHop (\<lambda>_. None) c))"
| "hop_body S (ForwardHop s) e = (case forward Success s e of (ops, c) \<Rightarrow> (ops, map_ctl ForwardHop Some c))"

fun hop_reads :: "hop_state \<Rightarrow> bool" where
  "hop_reads (SessionHop s) = (s = AtRead)"
| "hop_reads (ForwardHop s) = fwd_reads s"

definition new_chan :: "nat \<Rightarrow> chan" where
  "new_chan n = \<lparr>content = [], ended = False, room = n\<rparr>"

text \<open>\<open>n\<close> proxies: their \<open>forward(downstream, upstream)\<close>, then the session, then their \<open>forward(upstream, downstream)\<close>. The
  connections have the capacities \<open>cap\<close>.\<close>

definition chain_states :: "nat \<Rightarrow> hop_state list" where
  "chain_states n =
     replicate n (ForwardHop (FwdRead 0)) @ [SessionHop AtRead] @ replicate n (ForwardHop (FwdRead 0))"

definition chain :: "nat \<Rightarrow> (nat \<Rightarrow> nat) \<Rightarrow> (hop_state, size_t option) pipe" where
  "chain n cap =
     map (\<lambda>(i, s). (\<lparr>ctl_of = Suspended s, pending = [], moved = 0\<rparr>, new_chan (cap (Suc i))))
       (enumerate 0 (chain_states n))"

section \<open>Client and relays\<close>

text \<open>\<open>unsent\<close>: the part of the outstanding write of the client that has not been taken, \<open>taken\<close>: how much has been;
  \<open>entire\<close>: the write completes only when all of it has been taken. \<open>wrote\<close>, \<open>got\<close>: all bytes taken from and
  delivered to the client so far.\<close>

record net =
  writer :: "(size_t, size_t) ctl"
  unsent :: "byte list"
  taken :: nat
  entire :: bool
  reader :: "(size_t, size_t) ctl"
  entry :: chan
  hops :: "(hop_state, size_t option) pipe"
  wrote :: "byte list"
  got :: "byte list"

fun client_does :: "byte list \<Rightarrow> client_op \<Rightarrow> net \<Rightarrow> net" where
  "client_does data (WriteSome n) s = s\<lparr>unsent := take (unat n) data, entire := False\<rparr>"
| "client_does data (WriteAll n) s = s\<lparr>unsent := take (unat n) data, entire := True\<rparr>"
| "client_does data ShutdownWrite s = s\<lparr>entry := (entry s)\<lparr>ended := True\<rparr>\<rparr>"
| "client_does data (ReadSome n) s = s"

definition client_turn :: "client \<Rightarrow> client_op list \<times> (size_t, size_t) ctl \<Rightarrow> net \<Rightarrow> net" where
  "client_turn C r s =
     (case r of (ops, c) \<Rightarrow>
        foldl (\<lambda>s op. client_does (payload (cl_buffer C)) op s) (s\<lparr>writer := c, unsent := [], taken := 0\<rparr>) ops)"

datatype net_event =
    ClientSends nat
  | ClientWriteDone bool
  | ClientInterrupted
  | HopEvent nat stage_event
  | ClientReads nat
  | ClientReadsEof

text \<open>\<open>None\<close>: the event cannot happen in this state.\<close>

fun net_exec :: "client \<Rightarrow> (echo_state, stream_event, stream_op, unit) body \<Rightarrow> net \<Rightarrow> net_event \<Rightarrow> net option" where
  "net_exec C S s (ClientSends n) =
     (if 0 < n \<and> n \<le> length (unsent s) \<and> (taken s = 0 \<or> entire s) \<and> length (content (entry s)) + n \<le> room (entry s)
      then Some (s\<lparr>unsent := drop n (unsent s), taken := taken s + n,
                   entry := (entry s)\<lparr>content := content (entry s) @ take n (unsent s)\<rparr>, wrote := wrote s @ take n (unsent s)\<rparr>)
      else None)"
| "net_exec C S s (ClientWriteDone late) =
     (case writer s of
        Suspended tot \<Rightarrow>
          if 0 < taken s \<and> (entire s \<longrightarrow> unsent s = [])
          then Some (client_turn C (cl_complete C tot (of_nat (taken s)) late) s) else None
      | _ \<Rightarrow> None)"
| "net_exec C S s ClientInterrupted =
     (case writer s of
        Suspended tot \<Rightarrow>
          if taken s = 0 then map_option (\<lambda>r. client_turn C r s) (cl_interrupt C tot) else None
      | _ \<Rightarrow> None)"
| "net_exec C S s (HopEvent i ev) =
     map_option (\<lambda>(c, p). s\<lparr>entry := c, hops := p\<rparr>) (pipe_exec (hop_body S) hop_reads (entry s) (hops s) i ev)"
| "net_exec C S s (ClientReads n) =
     (case reader s of
        Suspended tot \<Rightarrow>
          if 0 < n \<and> n \<le> length (content (outlet (entry s) (hops s))) \<and> n \<le> unat (cl_buffer C)
          then (let bs = take n (content (outlet (entry s) (hops s)))
                in case take_outlet n (entry s) (hops s) of
                     (c, p) \<Rightarrow> Some (s\<lparr>reader := snd (cl_read C tot (ReadDone Success bs)), entry := c, hops := p, got := got s @ bs\<rparr>))
          else None
      | _ \<Rightarrow> None)"
| "net_exec C S s ClientReadsEof =
     (case reader s of
        Suspended tot \<Rightarrow>
          if content (outlet (entry s) (hops s)) = [] \<and> ended (outlet (entry s) (hops s))
          then Some (s\<lparr>reader := snd (cl_read C tot (ReadDone Eof []))\<rparr>) else None
      | _ \<Rightarrow> None)"

fun net_run :: "client \<Rightarrow> (echo_state, stream_event, stream_op, unit) body \<Rightarrow> net \<Rightarrow> net_event list \<Rightarrow> net option" where
  "net_run C S s [] = Some s"
| "net_run C S s (e # es) = (case net_exec C S s e of Some s' \<Rightarrow> net_run C S s' es | None \<Rightarrow> None)"

definition net_start :: "client \<Rightarrow> nat \<Rightarrow> (nat \<Rightarrow> nat) \<Rightarrow> bool \<Rightarrow> net" where
  "net_start C n cap late =
     client_turn C (cl_begin C late)
       \<lparr>writer = Suspended 0, unsent = [], taken = 0, entire = False, reader = Suspended 0,
        entry = new_chan (cap 0), hops = chain n cap, wrote = [], got = []\<rparr>"

section \<open>Interfaces\<close>

text \<open>What a write loop may do next when it has written \<open>tot\<close> bytes: write at least one byte, or shut down and return.\<close>

definition goes_on :: "size_t \<Rightarrow> client_op list \<times> (size_t, size_t) ctl \<Rightarrow> bool" where
  "goes_on tot r \<longleftrightarrow> (\<exists>n > 0. r = ([WriteSome n], Suspended tot) \<or> r = ([WriteAll n], Suspended tot))
     \<or> r = ([ShutdownWrite], Returned tot)"

locale load_client =
  fixes C :: client
  assumes begins: "goes_on 0 (cl_begin C late)"
    and completes: "goes_on (tot + n) (cl_complete C tot n late)"
    and interrupts: "cl_interrupt C tot = Some r \<Longrightarrow> r = ([ShutdownWrite], Returned tot)"
    and client_reads: "snd (cl_read C tot (ReadDone Success bs)) = Suspended (tot + of_nat (length bs))"
    and client_reads_eof: "snd (cl_read C tot (ReadDone Eof [])) = Returned tot"
    and buffer: "0 < cl_buffer C"

locale echo_peer =
  fixes S :: "(echo_state, stream_event, stream_op, unit) body"
  assumes peer_reads: "S AtRead (ReadDone Success bs) = ([AsyncWrite Peer bs], Suspended AtWrite)"
    and peer_wrote: "S AtWrite (WriteDone Success n) = ([AsyncReadSome Peer echo_buffer], Suspended AtRead)"
    and peer_eof: "finished (snd (S AtRead (ReadDone Eof []))) \<and> fst (S AtRead (ReadDone Eof [])) \<in> {[], [Close Peer]}"

text \<open>A session that behaves like this and \<open>forward\<close> are relays.\<close>

lemma finished_map_ctl [simp]: "finished (map_ctl f g c) = finished c"
  by (cases c) auto

sublocale echo_peer \<subseteq> relay_pipeline "hop_body S" hop_reads
proof
  fix s bs
  show "hop_reads s \<Longrightarrow> \<exists>s' h. hop_body S s (ReadDone Success bs) = ([AsyncWrite h bs], Suspended s') \<and> \<not> hop_reads s'"
    using peer_reads by (cases "(S, s, ReadDone Success bs)" rule: hop_body.cases) (auto elim!: fwd_reads.elims)
next
  fix s n
  show "\<not> hop_reads s \<Longrightarrow> \<exists>s' h k. hop_body S s (WriteDone Success n) = ([AsyncReadSome h k], Suspended s') \<and> hop_reads s'"
  proof (cases s)
    case (SessionHop e)
    then show "\<not> hop_reads s \<Longrightarrow> ?thesis" using peer_wrote by (cases e) auto
  next
    case (ForwardHop f)
    then show "\<not> hop_reads s \<Longrightarrow> ?thesis" by (cases f) auto
  qed
next
  fix s
  show "hop_reads s \<Longrightarrow> \<exists>ops c. hop_body S s (ReadDone Eof []) = (ops, c) \<and> finished c \<and> ops \<in> {[], [Close Peer], [ShutdownSend Sink]}"
  proof (cases s)
    case (SessionHop e)
    then show "hop_reads s \<Longrightarrow> ?thesis" using peer_eof by (cases e) (auto split: prod.splits)
  next
    case (ForwardHop f)
    then show "hop_reads s \<Longrightarrow> ?thesis" by (cases f) (auto simp: forward_catch_def)
  qed
qed

locale echo_connection = load_client C + echo_peer S
  for C :: client and S :: "(echo_state, stream_event, stream_op, unit) body"

text \<open>The invariant: nothing is lost or reordered, and the counters are those of the bytes.\<close>

fun writer_ok :: "(size_t, size_t) ctl \<Rightarrow> nat \<Rightarrow> byte list \<Rightarrow> bool \<Rightarrow> nat \<Rightarrow> bool" where
  "writer_ok (Suspended tot) k rest over n \<longleftrightarrow> tot + of_nat k = of_nat n \<and> \<not> over \<and> (k = 0 \<longrightarrow> rest \<noteq> [])"
| "writer_ok (Returned tot) k rest over n \<longleftrightarrow> tot = of_nat n \<and> over \<and> rest = []"
| "writer_ok (Threw x) k rest over n \<longleftrightarrow> False"

fun reader_ok :: "(size_t, size_t) ctl \<Rightarrow> chan \<Rightarrow> nat \<Rightarrow> bool" where
  "reader_ok (Suspended tot) c n \<longleftrightarrow> tot = of_nat n"
| "reader_ok (Returned tot) c n \<longleftrightarrow> tot = of_nat n \<and> content c = [] \<and> ended c"
| "reader_ok (Threw x) c n \<longleftrightarrow> False"

definition net_ok :: "net \<Rightarrow> bool" where
  "net_ok s \<longleftrightarrow> got s @ inside (hops s) @ content (entry s) = wrote s
     \<and> writer_ok (writer s) (taken s) (unsent s) (ended (entry s)) (length (wrote s))
     \<and> reader_ok (reader s) (outlet (entry s) (hops s)) (length (got s))
     \<and> pipe_ok hop_reads (entry s) (hops s) \<and> 0 < room (entry s) \<and> hops s \<noteq> []"

text \<open>A bound on the events that are still possible once the client has stopped writing.\<close>

definition to_drain :: "net \<Rightarrow> nat" where
  "to_drain s = pipe_left hop_reads (entry s) (hops s) + (if finished (reader s) then 0 else 1)"

definition net_over :: "net \<Rightarrow> bool" where
  "net_over s \<longleftrightarrow> writer s = Returned (of_nat (length (wrote s))) \<and> reader s = Returned (of_nat (length (wrote s)))
     \<and> got s = wrote s \<and> (\<forall>x \<in> set (hops s). finished (ctl_of (fst x)))"

lemma outlet_nonempty: "p \<noteq> [] \<Longrightarrow> outlet c p = outlet c' p"
  by (cases p) auto

lemma chain_ok:
  assumes "\<And>i. 0 < cap i"
  shows "pipe_ok hop_reads c (chain n cap) \<and> inside (chain n cap) = [] \<and> chain n cap \<noteq> []"
proof -
  have "pipe_ok hop_reads c (map (\<lambda>(i, s). (\<lparr>ctl_of = Suspended s, pending = [], moved = 0\<rparr>, new_chan (cap (Suc i))))
       (enumerate k ss) :: (hop_state, size_t option) pipe)
     \<and> inside (map (\<lambda>(i, s). (\<lparr>ctl_of = Suspended s, pending = [], moved = 0\<rparr>, new_chan (cap (Suc i))))
       (enumerate k ss) :: (hop_state, size_t option) pipe) = []" for k ss
    by (induction ss arbitrary: c k) (simp_all add: stage_ok_def new_chan_def assms)
  moreover have "chain n cap \<noteq> []" unfolding chain_def chain_states_def by (simp flip: length_0_conv)
  ultimately show ?thesis unfolding chain_def by blast
qed

context echo_connection
begin

lemma take_payload: "0 < n \<Longrightarrow> take (unat (n :: size_t)) (payload (cl_buffer C)) \<noteq> []"
  using buffer by (simp add: payload_def word_gt_0 unat_eq_0)

lemma client_turn_simps:
  "client_turn C ([WriteSome n], c) s =
     s\<lparr>writer := c, unsent := take (unat n) (payload (cl_buffer C)), taken := 0, entire := False\<rparr>"
  "client_turn C ([WriteAll n], c) s =
     s\<lparr>writer := c, unsent := take (unat n) (payload (cl_buffer C)), taken := 0, entire := True\<rparr>"
  "client_turn C ([ShutdownWrite], c) s =
     s\<lparr>writer := c, unsent := [], taken := 0, entry := (entry s)\<lparr>ended := True\<rparr>\<rparr>"
  by (simp_all add: client_turn_def)

lemma client_turn_ok:
  assumes "net_ok s" and "writer s = Suspended tot" and "goes_on (tot + of_nat (taken s)) r"
  shows "net_ok (client_turn C r s)"
proof -
  have ok: "got s @ inside (hops s) @ content (entry s) = wrote s" "tot + of_nat (taken s) = of_nat (length (wrote s))"
    "\<not> ended (entry s)" "reader_ok (reader s) (outlet (entry s) (hops s)) (length (got s))"
    "pipe_ok hop_reads (entry s) (hops s)" "0 < room (entry s)" "hops s \<noteq> []"
    using assms(1,2) by (auto simp: net_ok_def)
  from assms(3) consider n where "0 < n" "r = ([WriteSome n], Suspended (tot + of_nat (taken s)))"
    | n where "0 < n" "r = ([WriteAll n], Suspended (tot + of_nat (taken s)))"
    | "r = ([ShutdownWrite], Returned (tot + of_nat (taken s)))"
    unfolding goes_on_def by blast
  then show ?thesis
  proof cases
    case 3
    with ok pipe_ok_input [OF ok(5,3)] outlet_nonempty [OF ok(7), of "entry s" "(entry s)\<lparr>ended := True\<rparr>"]
    show ?thesis by (simp add: client_turn_simps net_ok_def)
  qed (use ok take_payload in \<open>simp_all add: client_turn_simps net_ok_def del: take_eq_Nil\<close>)
qed

lemma net_start_ok:
  assumes "\<And>i. 0 < cap i"
  shows "net_ok (net_start C n cap late)"
proof -
  let ?s = "\<lparr>writer = Suspended 0, unsent = [0], taken = 0, entire = False, reader = Suspended 0,
        entry = new_chan (cap 0), hops = chain n cap, wrote = [], got = []\<rparr> :: net"
  have "net_ok (client_turn C (cl_begin C late) ?s)"
    by (rule client_turn_ok [where tot = 0])
       (use begins [of late] chain_ok [OF assms] assms in \<open>simp_all add: net_ok_def\<close>, simp add: new_chan_def assms)
  then show ?thesis by (simp add: net_start_def client_turn_def split: prod.splits)
qed

lemma net_exec_ok:
  assumes ok: "net_ok s" and run: "net_exec C S s ev = Some s'"
  shows "net_ok s'"
proof (cases ev)
  case (ClientSends n)
  let ?c = "(entry s)\<lparr>content := content (entry s) @ take n (unsent s)\<rparr>"
  have s': "0 < n" "n \<le> length (unsent s)"
    "s' = s\<lparr>unsent := drop n (unsent s), taken := taken s + n, entry := ?c, wrote := wrote s @ take n (unsent s)\<rparr>"
    using run ClientSends by (simp_all split: if_splits)
  then obtain tot where w: "writer s = Suspended tot" using ok by (cases "writer s") (auto simp: net_ok_def)
  with ok have "\<not> ended (entry s)" "hops s \<noteq> []" "pipe_ok hop_reads (entry s) (hops s)" by (simp_all add: net_ok_def)
  with ok w s' pipe_ok_input [of "entry s" "hops s" ?c] outlet_nonempty [of "hops s" "entry s" ?c] show ?thesis
    by (auto simp: net_ok_def algebra_simps)
next
  case (ClientWriteDone late)
  with run obtain tot where "writer s = Suspended tot" "s' = client_turn C (cl_complete C tot (of_nat (taken s)) late) s"
    by (auto split: ctl.splits if_splits)
  with ok show ?thesis by (auto intro!: client_turn_ok completes)
next
  case ClientInterrupted
  with run obtain tot r where r: "writer s = Suspended tot" "taken s = 0" "cl_interrupt C tot = Some r" "s' = client_turn C r s"
    by (auto split: ctl.splits if_splits)
  then show ?thesis using ok interrupts [OF r(3)] by (auto simp: goes_on_def intro!: client_turn_ok)
next
  case (HopEvent i e)
  then obtain c p where e: "pipe_exec (hop_body S) hop_reads (entry s) (hops s) i e = Some (c, p)" and s': "s' = s\<lparr>entry := c, hops := p\<rparr>"
    using run by auto
  have p: "pipe_ok hop_reads (entry s) (hops s)" using ok by (simp add: net_ok_def)
  note q = pipe_exec_ok [OF e p]
  have "reader_ok (reader s) (outlet c p) (length (got s))"
    using ok pipe_exec_outlet [OF e p] by (cases "reader s") (auto simp: net_ok_def)
  moreover have "p \<noteq> []" using q ok by (auto simp: net_ok_def)
  ultimately show ?thesis using q ok by (simp add: net_ok_def s')
next
  case (ClientReads n)
  let ?o = "content (outlet (entry s) (hops s))"
  obtain c p where t: "take_outlet n (entry s) (hops s) = (c, p)" by fastforce
  with ClientReads run obtain tot where g: "reader s = Suspended tot" "0 < n" "n \<le> length ?o"
    "s' = s\<lparr>reader := snd (cl_read C tot (ReadDone Success (take n ?o))), entry := c, hops := p, got := got s @ take n ?o\<rparr>"
    by (auto simp: Let_def split: ctl.splits if_splits)
  have p: "pipe_ok hop_reads (entry s) (hops s)" using ok by (simp add: net_ok_def)
  note q = take_outlet_ok [OF t p g(3)]
  moreover have "p \<noteq> []" using q ok by (auto simp: net_ok_def)
  ultimately show ?thesis using ok g client_reads by (simp add: net_ok_def)
next
  case ClientReadsEof
  with ok run client_reads_eof show ?thesis by (cases "reader s") (auto simp: net_ok_def split: if_splits)
qed

lemma net_run_ok: "net_run C S s es = Some s' \<Longrightarrow> net_ok s \<Longrightarrow> net_ok s'"
  using net_exec_ok by (induction es arbitrary: s) (auto simp del: net_exec.simps split: option.splits)

text \<open>Deadlock freedom: as long as something is left to do, some event can happen.\<close>

lemma client_can_write:
  assumes "net_ok s" and "writer s = Suspended tot" and "content (entry s) = []"
  shows "\<exists>ev. net_exec C S s ev \<noteq> None"
proof (cases "taken s = 0 \<or> entire s \<and> unsent s \<noteq> []")
  case True
  with assms have "unsent s \<noteq> []" "0 < room (entry s)" by (auto simp: net_ok_def)
  with True assms have "net_exec C S s (ClientSends 1) \<noteq> None" by (cases "unsent s") auto
  then show ?thesis ..
next
  case False
  with assms have "net_exec C S s (ClientWriteDone True) \<noteq> None" by auto
  then show ?thesis ..
qed

lemma net_progress:
  assumes ok: "net_ok s" and stuck: "\<forall>ev. net_exec C S s ev = None"
  shows "net_over s"
proof -
  let ?o = "outlet (entry s) (hops s)"
  have n: "net_exec C S s ev = None" for ev using stuck by blast
  have o: "content ?o = []"
  proof (rule ccontr)
    assume d: "content ?o \<noteq> []"
    with ok obtain tot where "reader s = Suspended tot" by (cases "reader s") (auto simp: net_ok_def)
    moreover have "1 \<le> unat (cl_buffer C)" using buffer by (simp add: word_gt_0 Suc_le_eq unat_gt_0)
    moreover have "1 \<le> length (content ?o)" using d by (cases "content ?o") auto
    ultimately show False using n [of "ClientReads 1"] by (auto simp: Let_def split: prod.splits)
  qed
  have "pipe_exec (hop_body S) hop_reads (entry s) (hops s) i ev = None" for i ev using n [of "HopEvent i ev"] by simp
  with pipe_stuck [of "entry s" "hops s"] ok o have p: "content (entry s) = []"
    "ended (entry s) \<longrightarrow> ended ?o \<and> inside (hops s) = [] \<and> (\<forall>x \<in> set (hops s). finished (ctl_of (fst x)))"
    by (auto simp: net_ok_def)
  have "\<not> (\<exists>tot. writer s = Suspended tot)" using client_can_write [OF ok _ p(1)] n by auto
  then obtain tot where w: "writer s = Returned tot" "ended (entry s)" using ok by (cases "writer s") (auto simp: net_ok_def)
  have "finished (reader s)" using n [of ClientReadsEof] o p(2) w(2) by (cases "reader s") auto
  then obtain tot' where "reader s = Returned tot'" using ok by (cases "reader s") (auto simp: net_ok_def)
  with ok w p show ?thesis by (auto simp: net_ok_def net_over_def)
qed

text \<open>Once the client has stopped writing, every event brings the end nearer.\<close>

lemma net_drains:
  assumes ok: "net_ok s" and w: "finished (writer s)" and run: "net_exec C S s ev = Some s'"
  shows "finished (writer s') \<and> to_drain s' < to_drain s"
proof (cases ev)
  case (ClientSends n)
  from ok w have "unsent s = []" by (cases "writer s") (auto simp: net_ok_def)
  with ClientSends run show ?thesis by (simp split: if_splits)
next
  case (HopEvent i e)
  with run w ok pipe_exec_weight [of "entry s" "hops s" i e] show ?thesis
    by (auto simp: to_drain_def net_ok_def)
next
  case (ClientReads n)
  obtain c p where t: "take_outlet n (entry s) (hops s) = (c, p)" by fastforce
  with ClientReads run w client_reads take_outlet_weight [OF t] show ?thesis
    by (auto simp: Let_def to_drain_def split: ctl.splits if_splits)
next
  case ClientReadsEof
  with w run client_reads_eof show ?thesis by (cases "reader s") (auto simp: to_drain_def split: if_splits)
qed (use w run in \<open>auto split: if_splits ctl.splits\<close>)

lemma net_run_drains:
  assumes "net_run C S s es = Some s'" and "net_ok s" and "finished (writer s)"
  shows "length es + to_drain s' \<le> to_drain s"
  using assms
proof (induction es arbitrary: s)
  case (Cons ev es)
  then obtain s1 where s1: "net_exec C S s ev = Some s1" "net_run C S s1 es = Some s'"
    by (auto simp del: net_exec.simps split: option.splits)
  with Cons.IH [OF s1(2)] net_exec_ok [OF Cons.prems(2) s1(1)] net_drains [OF Cons.prems(2,3) s1(1)]
  show ?case by simp
qed simp

lemma net_reaches_end:
  assumes "net_ok s" and "finished (writer s)"
  shows "\<exists>es s'. net_run C S s es = Some s' \<and> net_over s'"
  using assms
proof (induction "to_drain s" arbitrary: s rule: less_induct)
  case less
  show ?case
  proof (cases "\<forall>ev. net_exec C S s ev = None")
    case True
    have "net_run C S s [] = Some s" by simp
    with net_progress [OF less.prems(1) True] show ?thesis by blast
  next
    case False
    then obtain ev s1 where s1: "net_exec C S s ev = Some s1" by auto
    from less.hyps [of s1] net_drains [OF less.prems s1] net_exec_ok [OF less.prems(1) s1]
    obtain es s' where "net_run C S s1 es = Some s'" "net_over s'" by blast
    then have "net_run C S s (ev # es) = Some s' \<and> net_over s'" using s1 by (simp del: net_exec.simps)
    then show ?thesis by blast
  qed
qed

lemma connection_completes:
  assumes "\<And>i. 0 < cap i" and "net_run C S (net_start C n cap late) es = Some s"
  shows "prefix (got s) (wrote s) \<and> ((\<forall>ev. net_exec C S s ev = None) \<longrightarrow> net_over s)
    \<and> (finished (writer s) \<longrightarrow>
        (\<forall>es' s'. net_run C S s es' = Some s' \<longrightarrow> length es' \<le> to_drain s)
        \<and> (\<exists>es' s'. net_run C S s es' = Some s' \<and> net_over s'))"
proof -
  have ok: "net_ok s" by (rule net_run_ok [OF assms(2) net_start_ok [OF assms(1)]])
  then have "prefix (got s) (wrote s)" by (auto simp: net_ok_def prefix_def dest: sym)
  moreover have "length es' \<le> to_drain s" if "finished (writer s)" "net_run C S s es' = Some s'" for es' s'
    using net_run_drains [OF that(2) ok that(1)] by simp
  ultimately show ?thesis using net_progress [OF ok] net_reaches_end [OF ok] by blast
qed

end

section \<open>Clients and sessions of the repository\<close>

lemma client_request_pos: "tot < limit_of cfg \<Longrightarrow> 0 < buffer_size cfg \<Longrightarrow> 0 < client_request cfg tot"
  by (auto simp: client_request_def word_gt_0 min_def)

lemma corosio_chunk_pos: "tot < limit_of cfg \<Longrightarrow> 0 < buffer_size cfg \<Longrightarrow> 0 < corosio_chunk cfg tot"
  by (auto simp: corosio_chunk_def word_gt_0 min_def)

lemma asio_load_client: "0 < buffer_size cfg \<Longrightarrow> load_client (asio_client cfg)"
  by unfold_locales
     (auto simp: asio_client_def goes_on_def client_write_head_def client_write_loop_def client_write_def client_request_pos
        split: option.splits)

lemma corosio_load_client: "0 < buffer_size cfg \<Longrightarrow> load_client (corosio_client cfg)"
  by unfold_locales
     (auto simp: corosio_client_def goes_on_def corosio_write_head_def corosio_write_loop_def corosio_chunk_pos)

text \<open>All sessions over \<open>echo_state\<close>; the callback session behaves like them (theory \<open>Program_Equivalence\<close>).\<close>

definition echo_bodies :: "(echo_state, stream_event, stream_op, unit) body list" where
  "echo_bodies = [coro_session, tuple_session, sync_session, handle_connection, do_session]"

lemma echo_bodies_peer: "S \<in> set echo_bodies \<Longrightarrow> echo_peer S"
  unfolding echo_bodies_def by (auto; unfold_locales; simp)

interpretation asio_default: load_client "asio_client default_ClientConfig"
  by (rule asio_load_client) (simp add: default_ClientConfig_def)

interpretation corosio_default: load_client "corosio_client default_ClientConfig"
  by (rule corosio_load_client) (simp add: default_ClientConfig_def)

interpretation coro_peer: echo_peer coro_session
  by (rule echo_bodies_peer) (simp add: echo_bodies_def)

interpretation asio_coro: echo_connection "asio_client default_ClientConfig" coro_session ..

interpretation corosio_coro: echo_connection "corosio_client default_ClientConfig" coro_session ..

section \<open>Properties\<close>

text \<open>C2: Either load generator, with any configuration whose buffer is not empty, connected to any echo session, directly or through
  any number of proxies, over connections of any capacities. In every reachable state the client has got a prefix of the
  bytes it wrote, in order. The system never blocks: if no event is possible any more, then both loops of the client
  have returned, each with the number of bytes written, the client has got exactly these bytes, and the session and all
  coroutines of the proxies have ended (so the difference that the client prints is 0). And once the write loop has ended,
  by its limit or its time, at most \<open>to_drain\<close> further events are possible, in whatever order they happen, and this end
  can be reached.\<close>

theorem load_test_completes:
  assumes "0 < buffer_size cfg" and "C \<in> {asio_client cfg, corosio_client cfg}" and "S \<in> set echo_bodies"
    and "\<forall>i. 0 < cap i" and "net_run C S (net_start C n cap late) es = Some s"
  shows "prefix (got s) (wrote s) \<and> ((\<forall>ev. net_exec C S s ev = None) \<longrightarrow> net_over s)
    \<and> (finished (writer s) \<longrightarrow>
        (\<forall>es' s'. net_run C S s es' = Some s' \<longrightarrow> length es' \<le> to_drain s)
        \<and> (\<exists>es' s'. net_run C S s es' = Some s' \<and> net_over s'))"
proof -
  have "load_client C" using assms(1,2) asio_load_client corosio_load_client by blast
  then have c: "echo_connection C S" using echo_bodies_peer [OF assms(3)] by (simp add: echo_connection_def)
  show ?thesis by (rule echo_connection.connection_completes [OF c _ assms(5)]) (use assms(4) in simp)
qed

theorem load_test_completes_witness:
  "let C = asio_client \<lparr>buffer_size = 2, size_limit = Some 2, duration = None\<rparr>
   in \<exists>s. net_run C coro_session (net_start C 0 (\<lambda>i. if i = 0 then 2 else 1) False)
           [ClientSends 2, ClientWriteDone False, HopEvent 0 (StageReads 2), HopEvent 0 (StageSends 1), ClientReads 1,
            HopEvent 0 (StageSends 1), HopEvent 0 StageWritten, HopEvent 0 StageEof, ClientReads 1, ClientReadsEof] = Some s
         \<and> net_over s \<and> got s = [0, 1]"
proof -
  let ?cfg = "\<lparr>buffer_size = 2, size_limit = Some 2, duration = None\<rparr> :: ClientConfig"
  let ?C = "asio_client ?cfg"
  let ?cap = "\<lambda>i. if i = 0 then 2 else 1 :: nat"
  let ?es = "[ClientSends 2, ClientWriteDone False, HopEvent 0 (StageReads 2), HopEvent 0 (StageSends 1), ClientReads 1,
            HopEvent 0 (StageSends 1), HopEvent 0 StageWritten, HopEvent 0 StageEof, ClientReads 1, ClientReadsEof]"
  let ?s = "\<lparr>writer = Returned 2, unsent = [], taken = 0, entire = False, reader = Returned 2,
     entry = \<lparr>content = [], ended = True, room = 2\<rparr>,
     hops = [(\<lparr>ctl_of = Threw (SystemError Eof), pending = [], moved = 0\<rparr>, \<lparr>content = [], ended = True, room = 1\<rparr>)],
     wrote = [0, 1], got = [0, 1]\<rparr> :: net"
  have run: "net_run ?C coro_session (net_start ?C 0 ?cap False) ?es = Some ?s"
    by (simp add: asio_client_def net_start_def client_turn_def client_write_head_def client_write_loop_def limit_of_def
        client_request_def payload_def chain_def chain_states_def new_chan_def stage_turn_def Let_def upt_rec)
  have "net_exec ?C coro_session ?s ev = None" for ev
  proof (cases ev)
    case (HopEvent i e)
    then show ?thesis by (cases i; cases e) auto
  qed auto
  with load_test_completes [OF _ _ _ _ run, of ?cfg] have "net_over ?s" by (simp add: echo_bodies_def del: net_exec.simps)
  with run show ?thesis unfolding Let_def by fastforce
qed

end
