(* ===== verification/Signal_Servers.thy ===== *)
theory Signal_Servers
  imports Session_Registry Echo_Sessions Formatters
begin

text \<open>
  The servers of \<open>cancellation/\<close> that keep a table of sessions and end on a signal:
  \<open>echo_coro_signal.cpp\<close> (sockets in a table, shut down by the signal handler) and
  \<open>echo_coro_signal_advanced.cpp\<close> (cancellation signals in a table, three kinds of cancellation,
  sessions that say goodbye, a channel on which the server waits for the sessions).

  A server is a step function over the completions of the operations it has started and over the
  completions of the sessions it has spawned. The value of \<open>cs.cancelled()\<close> at the moment the code
  reads it is part of the completion that resumed the coroutine, for there is no suspension between
  the two.
\<close>

section \<open>echo\_coro\_signal.cpp\<close>

text \<open>The echo loop, with the socket passed by reference.\<close>

definition signal_echo :: "(echo_state, stream_event, stream_op, unit) body" where
  "signal_echo = coro_session"

datatype server_phase = Accepting | Draining | Finished | Terminated exn

text \<open>Completions: of \<open>async_accept\<close>, of the wait for a signal (with what \<open>shutdown\<close> of each socket
  answers), of a session, and of \<open>post\<close>.\<close>

datatype 'sock sig_event =
    Accepted error_code 'sock
  | Signalled error_code int "size_t \<Rightarrow> error_code"
  | SessionEnded size_t exception_ptr
  | PostDone

datatype 'sock sig_action =
    SignalWait "int list"
  | AsyncAccept
  | SpawnEcho size_t "'sock option"
  | CancelAcceptor
  | ShutdownSocket size_t
  | PostDeferred

record 'sock sig_server =
  sockets :: "'sock table"
  next_id :: size_t
  phase :: server_phase

definition sig_start :: "'sock sig_action list \<times> 'sock sig_server" where
  "sig_start = ([SignalWait [2, 15], AsyncAccept], \<lparr>sockets = [], next_id = 0, phase = Accepting\<rparr>)"

text \<open>The loop of the signal handler: \<open>shutdown\<close> throws on error, which leaves the handler and
  \<open>context.run()\<close> and so ends the program.\<close>

fun shutdown_all :: "(size_t \<Rightarrow> error_code) \<Rightarrow> size_t list \<Rightarrow> 'sock sig_action list \<times> exn option" where
  "shutdown_all shut [] = ([], None)"
| "shutdown_all shut (k # ks) =
     (if shut k \<noteq> Success then ([ShutdownSocket k], Some (SystemError (shut k)))
      else (case shutdown_all shut ks of (as, x) \<Rightarrow> (ShutdownSocket k # as, x)))"

definition sig_on_signal ::
  "error_code \<Rightarrow> (size_t \<Rightarrow> error_code) \<Rightarrow> 'sock sig_server \<Rightarrow> 'sock sig_action list \<times> 'sock sig_server" where
  "sig_on_signal ec shut st =
     (if ec = OperationAborted then ([], st)
      else (case shutdown_all shut (map fst (sockets st)) of
              (as, None) \<Rightarrow> (CancelAcceptor # as, st)
            | (as, Some x) \<Rightarrow> (CancelAcceptor # as, st\<lparr>phase := Terminated x\<rparr>)))"

text \<open>\<open>while (!sockets.empty()) co_await post(deferred);\<close>\<close>

definition sig_drain :: "'sock sig_server \<Rightarrow> 'sock sig_action list \<times> 'sock sig_server" where
  "sig_drain st =
     (if sockets st \<noteq> [] then ([PostDeferred], st\<lparr>phase := Draining\<rparr>)
      else ([], st\<lparr>phase := Finished\<rparr>))"

definition sig_accepted ::
  "error_code \<Rightarrow> 'sock \<Rightarrow> 'sock sig_server \<Rightarrow> 'sock sig_action list \<times> 'sock sig_server" where
  "sig_accepted ec socket st =
     (if ec \<noteq> Success then sig_drain st
      else
        (let tab = emplace (next_id st) socket (sockets st)
         in ([SpawnEcho (next_id st) (map_of tab (next_id st)), AsyncAccept],
             st\<lparr>sockets := tab, next_id := next_id st + 1\<rparr>)))"

text \<open>The whole server. Events that answer no outstanding operation change nothing.\<close>

fun sig_step :: "('sock sig_server, 'sock sig_event, 'sock sig_action) stepper" where
  "sig_step st (Accepted ec socket) =
     (if phase st = Accepting then sig_accepted ec socket st else ([], st))"
| "sig_step st (Signalled ec signum shut) =
     (case phase st of Terminated x \<Rightarrow> ([], st) | Finished \<Rightarrow> ([], st) | _ \<Rightarrow> sig_on_signal ec shut st)"
| "sig_step st (SessionEnded k ep) = ([], st\<lparr>sockets := erase k (sockets st)\<rparr>)"
| "sig_step st PostDone = (if phase st = Draining then sig_drain st else ([], st))"

fun sig_spawns :: "'sock sig_action \<Rightarrow> size_t list" where
  "sig_spawns (SpawnEcho k s) = [k]"
| "sig_spawns _ = []"

fun sig_ends :: "'sock sig_event \<Rightarrow> size_t list" where
  "sig_ends (SessionEnded k ep) = [k]"
| "sig_ends _ = []"

lemma sig_spawns_shutdown: "shutdown_all shut ks = (as, x) \<Longrightarrow> ids sig_spawns as = []"
  by (induction shut ks arbitrary: as rule: shutdown_all.induct) (auto split: if_splits prod.splits)

lemma sig_on_signal_keeps:
  "sig_on_signal ec shut st = (as, st') \<Longrightarrow>
     ids sig_spawns as = [] \<and> sockets st' = sockets st \<and> next_id st' = next_id st"
  by (auto simp: sig_on_signal_def dest!: sig_spawns_shutdown split: if_splits prod.splits option.splits)

lemma sig_drain_keeps:
  "sig_drain st = (as, st') \<Longrightarrow>
     ids sig_spawns as = [] \<and> sockets st' = sockets st \<and> next_id st' = next_id st"
  by (auto simp: sig_drain_def split: if_splits)

text \<open>One step, seen from the table.\<close>

lemma sig_step_table:
  assumes "sig_step st ev = (as, st')"
  shows "ids sig_spawns as = [] \<and> next_id st' = next_id st \<and>
      set (map fst (sockets st')) = set (map fst (sockets st)) - set (sig_ends ev)
    \<or> ids sig_spawns as = [next_id st] \<and> next_id st' = next_id st + 1 \<and> sig_ends ev = [] \<and>
      set (map fst (sockets st')) = insert (next_id st) (set (map fst (sockets st)))"
proof (cases ev)
  case (Accepted ec s)
  show ?thesis
  proof (cases "phase st = Accepting \<and> ec = Success")
    case True
    with assms Accepted have "ids sig_spawns as = [next_id st]" "next_id st' = next_id st + 1"
      "sockets st' = emplace (next_id st) s (sockets st)"
      by (auto simp: sig_accepted_def Let_def)
    with Accepted show ?thesis by simp
  next
    case False
    with assms Accepted sig_drain_keeps [of st as st'] show ?thesis
      by (auto simp: sig_accepted_def split: if_splits)
  qed
next
  case (Signalled ec n shut)
  with assms sig_on_signal_keeps [of ec shut st as st'] show ?thesis
    by (auto split: server_phase.splits)
next
  case (SessionEnded k ep)
  with assms have "as = []" "sockets st' = erase k (sockets st)" "next_id st' = next_id st" by auto
  with SessionEnded show ?thesis by simp
next
  case PostDone
  with assms sig_drain_keeps [of st as st'] show ?thesis by (auto split: if_splits)
qed

interpretation sig: session_registry sig_step "\<lambda>st. map fst (sockets st)" next_id sig_spawns sig_ends
proof unfold_locales
  fix st :: "'sock sig_server" and ev as st'
  assume s: "sig_step st ev = (as, st')"
  note t = sig_step_table [OF s]
  show "ids sig_spawns as = [] \<and> next_id st' = next_id st
      \<or> ids sig_spawns as = [next_id st] \<and> next_id st' = next_id st + 1"
    using t by blast
  show "set (map fst (sockets st')) \<subseteq> set (map fst (sockets st)) \<union> set (ids sig_spawns as) - set (sig_ends ev)"
    "set (map fst (sockets st')) = set (map fst (sockets st)) \<union> set (ids sig_spawns as) - set (sig_ends ev)"
    using t by (elim disjE conjE; simp)+
qed

section \<open>echo\_coro\_signal\_advanced.cpp\<close>

subsection \<open>Sessions\<close>

text \<open>\<open>echo\<close>: the loop as before, after total cancellation has been enabled.\<close>

definition adv_echo :: "timer_op list \<times> (echo_state, stream_event, stream_op, unit) body" where
  "adv_echo = ([ResetCancellationState EnableTotal], coro_session)"

datatype adv_session_state = InEcho | Goodbye | Pause

text \<open>Completions: of the spawned \<open>echo\<close> (with \<open>cs.cancelled()\<close>), of the write, and of the sleep (with
  what \<open>shutdown\<close> of the socket answers).\<close>

datatype adv_session_event =
    EchoDone exception_ptr cancellation_type
  | GoodbyeDone error_code
  | PauseDone error_code error_code

datatype adv_session_action =
    ThrowIfCancelled bool
  | ResetState cancel_filter
  | SpawnSessionEcho
  | WriteGoodbye string
  | SleepFor int
  | ShutdownPeer

definition adv_session_start :: "adv_session_action list \<times> (adv_session_state, unit) ctl" where
  "adv_session_start =
     ([ThrowIfCancelled False, ResetState EnableTotal, SpawnSessionEcho], Suspended InEcho)"

text \<open>\<open>shutdown\<close>: says goodbye, waits for a random time of 100 to 1500 milliseconds, and shuts the
  socket down (which throws on error).\<close>

definition adv_shutdown_start :: "adv_session_action list" where
  "adv_shutdown_start = [WriteGoodbye (''goodbye'' @ [CHR 0x0A])]"

fun adv_session :: "cancel_enum \<Rightarrow> int \<Rightarrow> (adv_session_state, adv_session_event, adv_session_action, unit) body" where
  "adv_session E ms InEcho (EchoDone ep cancelled) =
     (case (case ep of None \<Rightarrow> Inr None | Some _ \<Rightarrow> map_sum id Some (code ep)) of
        Inl x \<Rightarrow> ([], Threw x)
      | Inr c \<Rightarrow>
          if c \<noteq> None \<and> c \<noteq> Some Eof \<and> cancelled = ct_none E then ([], Threw (SystemError (the c)))
          else if cancelled AND ct_terminal E \<noteq> ct_none E then ([], Threw (SystemError OperationAborted))
          else (ResetState EnableTerminal # adv_shutdown_start, Suspended Goodbye))"
| "adv_session E ms Goodbye (GoodbyeDone ec) =
     (if ec \<noteq> Success then ([], Threw (SystemError ec)) else ([SleepFor ms], Suspended Pause))"
| "adv_session E ms Pause (PauseDone ec shut) =
     (if ec \<noteq> Success then ([], Threw (SystemError ec))
      else if shut \<noteq> Success then ([ShutdownPeer], Threw (SystemError shut))
      else ([ShutdownPeer], Returned ()))"
| "adv_session E ms s e = ([], Suspended s)"

subsection \<open>Server\<close>

text \<open>The channel is \<open>experimental::channel\<close>: \<open>try_send\<close>, \<open>async_receive\<close> and the completion of a
  receive are parameters. \<open>ch_waiting\<close>: a receive is outstanding; \<open>ch_ready\<close>: its completion is on the
  way.\<close>

record 'ch channel_ops =
  ch_try_send :: "'ch \<Rightarrow> 'ch"
  ch_async_receive :: "'ch \<Rightarrow> 'ch"
  ch_received :: "'ch \<Rightarrow> 'ch"
  ch_waiting :: "'ch \<Rightarrow> bool"
  ch_ready :: "'ch \<Rightarrow> bool"

text \<open>Documented behaviour: a receive is outstanding until a message matches it; sending to an
  outstanding receive completes it, and a completion on the way is not revoked.\<close>

definition channel_ok :: "'ch channel_ops \<Rightarrow> bool" where
  "channel_ok C \<longleftrightarrow>
     (\<forall>c. ch_waiting C (ch_async_receive C c) \<or> ch_ready C (ch_async_receive C c))
     \<and> (\<forall>c. ch_waiting C c \<longrightarrow> ch_ready C (ch_try_send C c))
     \<and> (\<forall>c. ch_ready C c \<longrightarrow> ch_ready C (ch_try_send C c))"

datatype 'sock adv_event =
    AdvAccepted error_code 'sock cancellation_type
  | AdvSessionEnded size_t exception_ptr
  | AdvReceived cancellation_type

datatype 'sock adv_action =
    AdvThrowIfCancelled bool
  | AdvReset cancel_filter
  | AdvAsyncAccept
  | AdvSpawn size_t 'sock
  | AdvEmit size_t cancellation_type
  | AdvAsyncReceive

record 'ch adv_server =
  sessions :: "unit table"
  adv_next :: size_t
  adv_phase :: server_phase
  adv_channel :: 'ch

definition adv_accept :: "'sock adv_action list" where
  "adv_accept = [AdvReset EnableTotal, AdvAsyncAccept]"

definition adv_init :: "'ch \<Rightarrow> 'ch adv_server" where
  "adv_init ch = \<lparr>sessions = [], adv_next = 0, adv_phase = Accepting, adv_channel = ch\<rparr>"

definition adv_start :: "'ch \<Rightarrow> 'sock adv_action list \<times> 'ch adv_server" where
  "adv_start ch = (AdvThrowIfCancelled False # adv_accept, adv_init ch)"

definition adv_forward :: "cancellation_type \<Rightarrow> 'ch adv_server \<Rightarrow> 'sock adv_action list" where
  "adv_forward ty st = map (\<lambda>(k, _). AdvEmit k ty) (sessions st)"

text \<open>The head of the loop that waits for the sessions.\<close>

definition adv_wait :: "'ch channel_ops \<Rightarrow> 'ch adv_server \<Rightarrow> 'sock adv_action list \<times> 'ch adv_server" where
  "adv_wait C st =
     (if sessions st \<noteq> []
      then ([AdvReset EnableTerminal, AdvAsyncReceive],
            st\<lparr>adv_phase := Draining, adv_channel := ch_async_receive C (adv_channel st)\<rparr>)
      else ([], st\<lparr>adv_phase := Finished\<rparr>))"

text \<open>The body of the accept loop, from the completion of \<open>async_accept\<close> to the next suspension.\<close>

definition adv_register :: "error_code \<Rightarrow> 'sock \<Rightarrow> 'ch adv_server \<Rightarrow> 'sock adv_action list \<times> 'ch adv_server" where
  "adv_register ec socket st =
     (if ec = Success
      then ([AdvSpawn (adv_next st) socket],
            st\<lparr>sessions := emplace (adv_next st) () (sessions st), adv_next := adv_next st + 1\<rparr>)
      else ([], st))"

definition adv_accepted ::
  "cancel_enum \<Rightarrow> 'ch channel_ops \<Rightarrow> error_code \<Rightarrow> 'sock \<Rightarrow> cancellation_type \<Rightarrow> 'ch adv_server
    \<Rightarrow> 'sock adv_action list \<times> 'ch adv_server" where
  "adv_accepted E C ec socket cancelled st =
     (case adv_register ec socket st of (as, st) \<Rightarrow>
        if cancelled = ct_total E then (as @ adv_forward cancelled st @ adv_accept, st)
        else if ec \<noteq> Success \<or> cancelled \<noteq> ct_none E
        then (case adv_wait C st of (bs, st') \<Rightarrow> (as @ adv_forward cancelled st @ bs, st'))
        else (as @ adv_accept, st))"

fun adv_step :: "cancel_enum \<Rightarrow> 'ch channel_ops \<Rightarrow> ('ch adv_server, 'sock adv_event, 'sock adv_action) stepper" where
  "adv_step E C st (AdvAccepted ec socket cancelled) =
     (if adv_phase st = Accepting then adv_accepted E C ec socket cancelled st else ([], st))"
| "adv_step E C st (AdvSessionEnded k ep) =
     ([], st\<lparr>sessions := erase k (sessions st), adv_channel := ch_try_send C (adv_channel st)\<rparr>)"
| "adv_step E C st (AdvReceived cancelled) =
     (if adv_phase st = Draining
      then (let st = st\<lparr>adv_channel := ch_received C (adv_channel st)\<rparr>
            in case adv_wait C st of (bs, st') \<Rightarrow>
                 ((if cancelled \<noteq> ct_none E then adv_forward cancelled st else []) @ bs, st'))
      else ([], st))"

subsection \<open>Signals\<close>

datatype signal_action = WaitSignal "signum list" | Emit cancellation_type

definition signal_type :: "cancel_enum \<Rightarrow> signum \<Rightarrow> cancellation_type option" where
  "signal_type E sg =
     (case sg of
        SIGTSTP \<Rightarrow> Some (ct_total E)
      | SIGINT \<Rightarrow> Some (ct_partial E)
      | SIGTERM \<Rightarrow> Some (ct_terminal E)
      | OtherSignal _ \<Rightarrow> None)"

definition signal_set_advanced :: "signum list" where
  "signal_set_advanced = [SIGINT, SIGTERM, SIGTSTP]"

definition signal_handling :: "cancel_enum \<Rightarrow> (unit, error_code \<times> signum, signal_action, unit) body" where
  "signal_handling E s e =
     (case e of (ec, sg) \<Rightarrow>
        if ec \<noteq> Success then ([], Threw (SystemError ec))
        else ((case signal_type E sg of Some ty \<Rightarrow> [Emit ty] | None \<Rightarrow> []) @ [WaitSignal signal_set_advanced],
              Suspended ()))"

subsection \<open>Table and channel\<close>

fun adv_spawns :: "'sock adv_action \<Rightarrow> size_t list" where
  "adv_spawns (AdvSpawn k s) = [k]"
| "adv_spawns _ = []"

fun adv_ends :: "'sock adv_event \<Rightarrow> size_t list" where
  "adv_ends (AdvSessionEnded k ep) = [k]"
| "adv_ends _ = []"

lemma adv_ids [simp]:
  "ids adv_spawns (adv_forward ty st) = []" "ids adv_spawns adv_accept = []"
  by (auto simp: adv_forward_def adv_accept_def case_prod_beta intro: ids_map_none)

lemma adv_wait_keeps:
  "adv_wait C st = (as, st') \<Longrightarrow>
     ids adv_spawns as = [] \<and> sessions st' = sessions st \<and> adv_next st' = adv_next st"
  by (auto simp: adv_wait_def split: if_splits)

lemma adv_accepted_table:
  assumes "adv_accepted E C ec s cancelled st = (as, st')"
  shows "ids adv_spawns as = (if ec = Success then [adv_next st] else [])
    \<and> adv_next st' = (if ec = Success then adv_next st + 1 else adv_next st)
    \<and> sessions st' = (if ec = Success then emplace (adv_next st) () (sessions st) else sessions st)"
proof -
  obtain as1 st1 where r: "adv_register ec s st = (as1, st1)" by fastforce
  then have st1: "ids adv_spawns as1 = (if ec = Success then [adv_next st] else [])"
    "adv_next st1 = (if ec = Success then adv_next st + 1 else adv_next st)"
    "sessions st1 = (if ec = Success then emplace (adv_next st) () (sessions st) else sessions st)"
    by (auto simp: adv_register_def split: if_splits)
  obtain as2 :: "'a adv_action list" and st2 where w: "adv_wait C st1 = (as2, st2)" by fastforce
  note keeps = adv_wait_keeps [OF w]
  show ?thesis
  proof (cases "cancelled = ct_total E")
    case True
    then have "as = as1 @ adv_forward cancelled st1 @ adv_accept \<and> st' = st1"
      using assms unfolding adv_accepted_def r prod.case by auto
    with st1 show ?thesis by simp
  next
    case nt: False
    show ?thesis
    proof (cases "ec \<noteq> Success \<or> cancelled \<noteq> ct_none E")
      case True
      then have "as = as1 @ adv_forward cancelled st1 @ as2 \<and> st' = st2"
        using assms nt unfolding adv_accepted_def r w prod.case by auto
      with st1 keeps show ?thesis by simp
    next
      case False
      then have "as = as1 @ adv_accept \<and> st' = st1"
        using assms nt unfolding adv_accepted_def r prod.case by auto
      with st1 show ?thesis by simp
    qed
  qed
qed

lemma adv_step_table:
  assumes "adv_step E C st ev = (as, st')"
  shows "ids adv_spawns as = [] \<and> adv_next st' = adv_next st \<and>
      set (map fst (sessions st')) = set (map fst (sessions st)) - set (adv_ends ev)
    \<or> ids adv_spawns as = [adv_next st] \<and> adv_next st' = adv_next st + 1 \<and> adv_ends ev = [] \<and>
      set (map fst (sessions st')) = insert (adv_next st) (set (map fst (sessions st)))"
proof (cases ev)
  case (AdvAccepted ec s cancelled)
  show ?thesis
  proof (cases "adv_phase st = Accepting")
    case True
    with assms AdvAccepted have a: "adv_accepted E C ec s cancelled st = (as, st')" by simp
    from adv_accepted_table [OF a] AdvAccepted show ?thesis
      by (cases "ec = Success") simp_all
  qed (use assms AdvAccepted in auto)
next
  case (AdvSessionEnded k ep)
  with assms have "as = []" "sessions st' = erase k (sessions st)" "adv_next st' = adv_next st" by auto
  with AdvSessionEnded show ?thesis by simp
next
  case (AdvReceived cancelled)
  with assms adv_wait_keeps [of C "st\<lparr>adv_channel := ch_received C (adv_channel st)\<rparr>"] show ?thesis
    by (auto simp: Let_def split: if_splits prod.splits)
qed

interpretation adv: session_registry "adv_step E C" "\<lambda>st. map fst (sessions st)" adv_next adv_spawns adv_ends
  for E C
proof unfold_locales
  fix st :: "'a adv_server" and ev :: "'b adv_event" and as st'
  assume s: "adv_step E C st ev = (as, st')"
  note t = adv_step_table [OF s]
  show "ids adv_spawns as = [] \<and> adv_next st' = adv_next st
      \<or> ids adv_spawns as = [adv_next st] \<and> adv_next st' = adv_next st + 1"
    using t by blast
  show "set (map fst (sessions st')) \<subseteq> set (map fst (sessions st)) \<union> set (ids adv_spawns as) - set (adv_ends ev)"
    "set (map fst (sessions st')) = set (map fst (sessions st)) \<union> set (ids adv_spawns as) - set (adv_ends ev)"
    using t by (elim disjE conjE; simp)+
qed

text \<open>No notification is lost: while the server waits, a receive is outstanding or its completion is
  on the way, and once the last session is gone the completion is on the way.\<close>

definition adv_inv :: "'ch channel_ops \<Rightarrow> 'ch adv_server \<Rightarrow> bool" where
  "adv_inv C st \<longleftrightarrow>
     (adv_phase st = Draining \<longrightarrow>
        (if sessions st = [] then ch_ready C (adv_channel st)
         else ch_waiting C (adv_channel st) \<or> ch_ready C (adv_channel st)))
     \<and> (adv_phase st = Finished \<longrightarrow> sessions st = [])"

lemma adv_wait_inv: "channel_ok C \<Longrightarrow> adv_wait C st = (as, st') \<Longrightarrow> adv_inv C st'"
  by (auto simp: adv_wait_def adv_inv_def channel_ok_def split: if_splits)

lemma adv_step_inv:
  assumes "channel_ok C" and "adv_inv C st" and "adv_step E C st ev = (as, st')"
  shows "adv_inv C st'"
proof (cases ev)
  case (AdvAccepted ec s cancelled)
  show ?thesis
  proof (cases "adv_phase st = Accepting")
    case True
    obtain as1 st1 where r: "adv_register ec s st = (as1, st1)" by fastforce
    with True have "adv_phase st1 = Accepting" by (auto simp: adv_register_def split: if_splits)
    then have "adv_inv C st1" by (simp add: adv_inv_def)
    with assms True AdvAccepted r adv_wait_inv [OF assms(1), of st1] show ?thesis
      by (auto simp: adv_accepted_def split: if_splits prod.splits)
  qed (use assms AdvAccepted in auto)
next
  case (AdvSessionEnded k ep)
  with assms show ?thesis
    by (auto simp: adv_inv_def channel_ok_def erase_def split: if_splits)
next
  case (AdvReceived cancelled)
  with assms adv_wait_inv [OF assms(1), of "st\<lparr>adv_channel := ch_received C (adv_channel st)\<rparr>"] show ?thesis
    by (auto simp: Let_def split: if_splits prod.splits)
qed

section \<open>Properties\<close>

lemma sig_step_inv:
  assumes "table_ok (sockets st) \<and> (phase st = Finished \<longrightarrow> sockets st = [])"
    and "sig_step st ev = (as, st')"
  shows "table_ok (sockets st') \<and> (phase st' = Finished \<longrightarrow> sockets st' = [])"
proof (cases ev)
  case (Accepted ec s)
  with assms show ?thesis
    by (auto simp: sig_accepted_def sig_drain_def Let_def table_ok_emplace split: if_splits)
next
  case (Signalled ec n shut)
  then show ?thesis
    using assms by (auto simp: sig_on_signal_def split: server_phase.splits if_splits prod.splits option.splits)
next
  case (SessionEnded k ep)
  then have "st' = st\<lparr>sockets := erase k (sockets st)\<rparr>" using assms(2) by simp
  with assms(1) show ?thesis by (auto simp: table_ok_erase) (simp add: erase_def)
next
  case PostDone
  with assms show ?thesis by (auto simp: sig_drain_def split: if_splits)
qed

lemma shutdown_all_ok:
  "(\<And>k. k \<in> set ks \<Longrightarrow> shut k = Success) \<Longrightarrow> shutdown_all shut ks = (map ShutdownSocket ks, None)"
  by (induction ks) auto

lemma shutdown_all_fails:
  "k \<in> set ks \<Longrightarrow> shut k \<noteq> Success \<Longrightarrow> \<exists>as x. shutdown_all shut ks = (as, Some x)"
  by (induction ks) (auto split: prod.splits)

text \<open>The server of \<open>echo_coro_signal.cpp\<close> gives out distinct identifiers; its table holds exactly
  the sessions that were spawned and have not ended. It finishes only when every session has ended,
  and when every session has ended its next turn finishes it. (Up to \<open>2 ^ 64\<close> connections, after which
  the \<open>size_t\<close> identifiers repeat.)\<close>

lemma sig_server_sessions:
  assumes "steps sig_step (snd sig_start) es = (as, st)"
    and "timely sig_step (\<lambda>st. map fst (sockets st)) sig_ends (snd sig_start) es"
    and "length (ids sig_spawns as) \<le> 2 ^ 64"
  shows "distinct (ids sig_spawns as) \<and> table_ok (sockets st)
    \<and> fst ` set (sockets st) = set (ids sig_spawns as) - set (ids sig_ends es)
    \<and> (phase st = Finished \<longrightarrow> set (ids sig_spawns as) = set (ids sig_ends es))
    \<and> (phase st = Draining \<and> set (ids sig_spawns as) \<subseteq> set (ids sig_ends es) \<longrightarrow>
         phase (snd (sig_step st PostDone)) = Finished)"
proof -
  have start: "map fst (sockets (snd (sig_start :: 'a sig_action list \<times> 'a sig_server))) = []"
    by (simp add: sig_start_def)
  note live = sig.live_sessions [OF assms(1) start assms(2,3)]
  have inv: "table_ok (sockets st) \<and> (phase st = Finished \<longrightarrow> sockets st = [])"
    by (rule steps_invariant [OF assms(1)]) (simp add: sig_start_def, rule sig_step_inv)
  show ?thesis
    using live inv sig.ids_distinct [OF assms(1,3)] by (auto simp: sig_drain_def)
qed

text \<open>C32: What a signal does to \<open>echo_coro_signal.cpp\<close> while it accepts. Every session in the table is
  shut down; if the pending accept then fails, the server stops accepting. But an accept that had
  already succeeded is not affected: its session is spawned and not shut down, and the server
  accepts again, with its only wait for a signal used up. A socket whose \<open>shutdown\<close> fails (for
  instance because the peer is gone) terminates the program.\<close>

theorem sig_signal_race:
  assumes "phase st = Accepting" and "next_id st \<notin> fst ` set (sockets st)"
  shows "steps sig_step st [Signalled Success n (\<lambda>_. Success), Accepted Success s]
      = (CancelAcceptor # map (\<lambda>(k, _). ShutdownSocket k) (sockets st)
           @ [SpawnEcho (next_id st) (Some s), AsyncAccept],
         st\<lparr>sockets := emplace (next_id st) s (sockets st), next_id := next_id st + 1\<rparr>)
    \<and> (ec \<noteq> Success \<longrightarrow>
        phase (snd (steps sig_step st [Signalled Success n (\<lambda>_. Success), Accepted ec s])) \<in> {Draining, Finished})
    \<and> (\<forall>k \<in> fst ` set (sockets st). \<forall>shut. shut k \<noteq> Success \<longrightarrow>
        (\<exists>x. phase (snd (sig_step st (Signalled Success n shut))) = Terminated x))"
proof -
  have sh: "shutdown_all (\<lambda>_. Success) (map fst (sockets st)) = (map (\<lambda>(k, _). ShutdownSocket k) (sockets st), None)"
    by (simp add: shutdown_all_ok case_prod_beta)
  have "\<exists>x. phase (snd (sig_step st (Signalled Success n shut))) = Terminated x"
    if k: "k \<in> fst ` set (sockets st)" "shut k \<noteq> Success" for k shut
  proof -
    obtain as :: "'a sig_action list" and x where "shutdown_all shut (map fst (sockets st)) = (as, Some x)"
      using shutdown_all_fails [of k "map fst (sockets st)" shut] k by auto
    then show ?thesis using assms(1) by (auto simp: sig_on_signal_def)
  qed
  then show ?thesis
    using assms by (auto simp: sig_on_signal_def sig_accepted_def sig_drain_def sh Let_def emplace_lookup)
qed

theorem sig_signal_race_witness:
  "steps sig_step \<lparr>sockets = [(0, ''a'')], next_id = 1, phase = Accepting\<rparr>
     [Signalled Success 2 (\<lambda>_. Success), Accepted Success ''b'']
   = ([CancelAcceptor, ShutdownSocket 0, SpawnEcho 1 (Some ''b''), AsyncAccept],
      \<lparr>sockets = [(0, ''a''), (1, ''b'')], next_id = 2, phase = Accepting\<rparr>)"
proof -
  let ?st = "\<lparr>sockets = [(0, ''a'')], next_id = 1, phase = Accepting\<rparr> :: string sig_server"
  have "phase ?st = Accepting" "next_id ?st \<notin> fst ` set (sockets ?st)" by simp_all
  from sig_signal_race [OF this, of 2 "''b''", THEN conjunct1]
  show ?thesis by (simp add: emplace_def)
qed

text \<open>The server of \<open>echo_coro_signal_advanced.cpp\<close> waits for its sessions without losing a
  notification: its table holds exactly the sessions that were spawned and have not ended; it
  finishes only when all have ended; and when it waits and all have ended, the channel has a
  completion for it, and taking it finishes the server, whatever the cancellation state.\<close>

lemma adv_server_waits:
  assumes "steps (adv_step E C) (adv_init ch) es = (as, st)"
    and "channel_ok C"
    and "timely (adv_step E C) (\<lambda>st. map fst (sessions st)) adv_ends (adv_init ch) es"
    and "length (ids adv_spawns as) \<le> 2 ^ 64"
  shows "fst ` set (sessions st) = set (ids adv_spawns as) - set (ids adv_ends es)
    \<and> (adv_phase st = Finished \<longrightarrow> set (ids adv_spawns as) = set (ids adv_ends es))
    \<and> (adv_phase st = Draining \<and> set (ids adv_spawns as) \<subseteq> set (ids adv_ends es) \<longrightarrow>
         ch_ready C (adv_channel st) \<and> adv_phase (snd (adv_step E C st (AdvReceived ty))) = Finished)"
proof -
  have start: "map fst (sessions (adv_init ch)) = []" by (simp add: adv_init_def)
  note live = adv.live_sessions [OF assms(1) start assms(3,4)]
  have inv: "adv_inv C st"
    by (rule steps_invariant [OF assms(1)]) (simp add: adv_init_def adv_inv_def, rule adv_step_inv [OF assms(2)])
  have fin: "adv_phase (snd (adv_step E C st (AdvReceived ty))) = Finished"
    if "adv_phase st = Draining" "sessions st = []"
    using that by (simp add: Let_def adv_wait_def split: prod.splits)
  show ?thesis
    using live inv fin by (auto simp: adv_inv_def)
qed

text \<open>A channel without buffer: whether a receive is outstanding, and whether it has been matched.\<close>

definition rendezvous :: "(bool \<times> bool) channel_ops" where
  "rendezvous = \<lparr>ch_try_send = (\<lambda>(w, r). (False, w \<or> r)), ch_async_receive = (\<lambda>(w, r). (True, r)),
     ch_received = (\<lambda>_. (False, False)), ch_waiting = fst, ch_ready = snd\<rparr>"

lemma rendezvous_ok: "channel_ok rendezvous"
  by (simp add: rendezvous_def channel_ok_def)

text \<open>Each signal of \<open>echo_coro_signal_advanced.cpp\<close> reaches every session, also one that was
  accepted at the same moment: the server forwards the cancellation type of the signal to every
  session in its table. After \<open>SIGTSTP\<close> it goes on accepting, after \<open>SIGINT\<close> and \<open>SIGTERM\<close> it does not.\<close>

lemma adv_signal_effect:
  assumes "cancel_enum_ok E" and "adv_phase st = Accepting" and "signal_type E sg = Some ty"
    and "adv_step E C st (AdvAccepted ec s ty) = (as, st')"
  shows "{k. AdvEmit k ty \<in> set as} = fst ` set (sessions st')
    \<and> (ec = Success \<longrightarrow> adv_next st \<in> fst ` set (sessions st'))
    \<and> (sg = SIGTSTP \<longleftrightarrow> adv_phase st' = Accepting) \<and> (sg = SIGTSTP \<longleftrightarrow> AdvAsyncAccept \<in> set as)
    \<and> signal_handling E () (Success, sg) = ([Emit ty, WaitSignal signal_set_advanced], Suspended ())"
proof -
  have ty: "ty \<noteq> ct_none E" "ty = ct_total E \<longleftrightarrow> sg = SIGTSTP"
    using assms(1,3) by (auto simp: signal_type_def cancel_enum_ok_def split: signum.splits)
  obtain as1 st1 where r: "adv_register ec s st = (as1, st1)" by fastforce
  then have st1: "AdvEmit k ty \<notin> set as1" "AdvAsyncAccept \<notin> set as1" "adv_phase st1 = Accepting"
    "ec = Success \<longrightarrow> adv_next st \<in> fst ` set (sessions st1)" for k
    using assms(2) by (auto simp: adv_register_def split: if_splits)
  have fwd: "AdvEmit k ty \<in> set (adv_forward ty st1) \<longleftrightarrow> k \<in> fst ` set (sessions st1)"
    "AdvAsyncAccept \<notin> set (adv_forward ty st1)" for k
    by (force simp: adv_forward_def)+
  have step: "adv_accepted E C ec s ty st = (as, st')" using assms(2,4) by simp
  have sh: "signal_handling E () (Success, sg) = ([Emit ty, WaitSignal signal_set_advanced], Suspended ())"
    using assms(3) by (simp add: signal_handling_def)
  show ?thesis
  proof (cases "sg = SIGTSTP")
    case True
    then have "as = as1 @ adv_forward ty st1 @ adv_accept \<and> st' = st1"
      using step ty(2) unfolding adv_accepted_def r prod.case by auto
    with st1 fwd True sh show ?thesis by (auto simp: adv_accept_def)
  next
    case False
    obtain as2 :: "'b adv_action list" and st2 where w: "adv_wait C st1 = (as2, st2)" by fastforce
    then have w2: "AdvEmit k ty \<notin> set as2" "AdvAsyncAccept \<notin> set as2" "adv_phase st2 \<noteq> Accepting"
      "sessions st2 = sessions st1" for k
      by (auto simp: adv_wait_def split: if_splits)
    have "as = as1 @ adv_forward ty st1 @ as2 \<and> st' = st2"
      using step ty False unfolding adv_accepted_def r w prod.case by auto
    with st1 fwd w2 False sh show ?thesis by auto
  qed
qed

text \<open>A session of \<open>echo_coro_signal_advanced.cpp\<close> says goodbye exactly when its echo loop ended by
  itself or at end of file, or was cancelled, but not by a terminal cancellation; then, if nothing
  fails, it sends the goodbye, pauses, shuts the socket down and returns. In all other cases it
  throws without touching the socket again.\<close>

lemma adv_session_goodbye:
  assumes "cancel_enum_ok E" and "code ep = Inr ec"
    and "adv_session E ms InEcho (EchoDone ep cancelled) = (as, c)"
    and "goodbye \<longleftrightarrow> cancelled AND ct_terminal E = 0 \<and> (ep = None \<or> ec = Eof \<or> cancelled \<noteq> 0)"
  shows "(goodbye \<longrightarrow>
      drive (adv_session E ms) (Suspended InEcho) [EchoDone ep cancelled, GoodbyeDone Success, PauseDone Success Success]
        = ([ResetState EnableTerminal, WriteGoodbye (''goodbye'' @ [CHR 0x0A]), SleepFor ms, ShutdownPeer], Returned ()))
    \<and> (\<not> goodbye \<longrightarrow> as = [] \<and>
        c = Threw (SystemError (if ep \<noteq> None \<and> ec \<noteq> Eof \<and> cancelled = 0 then ec else OperationAborted)))"
  using assms by (cases ep) (auto simp: cancel_enum_ok_def adv_shutdown_start_def)

end
