(* ===== verification/Signal_Program.thy ===== *)
theory Signal_Program
  imports Signal_Servers
begin

text \<open>
  \<open>cancellation/echo_coro_signal_advanced.cpp\<close> as a whole: \<open>with_signal_handling(server(...))\<close>, that is the
  signal handler, the server and its sessions, connected by cancellation signals and slots. The
  parts are those of \<open>Signal_Servers\<close>; here a type emitted by the signal handler reaches the
  cancellation state of the server, and a type emitted by the server that of a session.

  A cancellation state belongs to the library. It holds a filter, set by
  \<open>reset_cancellation_state\<close>, and accumulates the types that pass it; what \<open>cs.cancelled()\<close> reports after an
  emission and after a reset is a parameter. \<open>filter_ok\<close> is the documentation of
  \<open>enable_terminal_cancellation\<close> and so on; that a \<open>cs\<close> obtained before a reset reports on the state after
  it, as the programs rely on, is part of it. A coroutine spawned on the executor of the running
  one starts at once (\<open>co_spawn\<close> dispatches to the executor) and runs up to its first suspension.
\<close>

section \<open>Cancellation states\<close>

text \<open>\<open>cl_emit f ty c\<close>: what a state with filter \<open>f\<close> that has reported \<open>c\<close> reports after \<open>ty\<close> has been emitted to
  it; \<open>cl_reset f c\<close>: after it has been reset to filter \<open>f\<close>.\<close>

record cancel_lib =
  cl_emit :: "cancel_filter \<Rightarrow> cancellation_type \<Rightarrow> cancellation_type \<Rightarrow> cancellation_type"
  cl_reset :: "cancel_filter \<Rightarrow> cancellation_type \<Rightarrow> cancellation_type"

record cancel_state =
  cs_filter :: cancel_filter
  cs_cancelled :: cancellation_type

text \<open>The state of a spawned coroutine accepts terminal cancellation.\<close>

definition cs_new :: "cancel_enum \<Rightarrow> cancel_state" where
  "cs_new E = \<lparr>cs_filter = EnableTerminal, cs_cancelled = ct_none E\<rparr>"

definition cs_reset :: "cancel_lib \<Rightarrow> cancel_filter \<Rightarrow> cancel_state \<Rightarrow> cancel_state" where
  "cs_reset F f cs = \<lparr>cs_filter = f, cs_cancelled = cl_reset F f (cs_cancelled cs)\<rparr>"

definition cs_emit :: "cancel_lib \<Rightarrow> cancellation_type \<Rightarrow> cancel_state \<Rightarrow> cancel_state" where
  "cs_emit F ty cs = cs\<lparr>cs_cancelled := cl_emit F (cs_filter cs) ty (cs_cancelled cs)\<rparr>"

text \<open>Documented behaviour: \<open>pass f ty\<close> is what filter \<open>f\<close> lets pass of a type; it is added to what has been
  received. After a reset nothing has been received.\<close>

abbreviation pass :: "cancel_enum \<Rightarrow> cancel_lib \<Rightarrow> cancel_filter \<Rightarrow> cancellation_type \<Rightarrow> cancellation_type" where
  "pass E F f ty \<equiv> cl_emit F f ty (ct_none E)"

definition filter_ok :: "cancel_enum \<Rightarrow> cancel_lib \<Rightarrow> bool" where
  "filter_ok E F \<longleftrightarrow>
     (\<forall>f ty c. cl_emit F f ty c = c OR pass E F f ty)
     \<and> (\<forall>f c. cl_reset F f c = ct_none E)
     \<and> (\<forall>ty \<in> {ct_terminal E, ct_partial E, ct_total E}. pass E F EnableTotal ty = ty)
     \<and> (\<forall>f. pass E F f (ct_terminal E) = ct_terminal E)
     \<and> pass E F EnableTerminal (ct_partial E) = ct_none E \<and> pass E F EnableTerminal (ct_total E) = ct_none E
     \<and> pass E F EnablePartial (ct_partial E) = ct_partial E \<and> pass E F EnablePartial (ct_total E) = ct_none E"

lemma filter_okD:
  assumes "filter_ok E F"
  shows "cl_emit F f ty (cl_emit F f ty c) = cl_emit F f ty c" and "cl_reset F f c = ct_none E"
    and "signal_type E sg = Some ty \<Longrightarrow> pass E F EnableTotal ty = ty"
proof -
  have acc: "cl_emit F f ty c = c OR pass E F f ty" for c using assms unfolding filter_ok_def by blast
  show "cl_emit F f ty (cl_emit F f ty c) = cl_emit F f ty c" by (subst (1 2 3) acc) (simp add: ac_simps)
  show "cl_reset F f c = ct_none E" using assms unfolding filter_ok_def by blast
  assume "signal_type E sg = Some ty"
  then have "ty \<in> {ct_terminal E, ct_partial E, ct_total E}" by (auto simp: signal_type_def split: signum.splits)
  then show "pass E F EnableTotal ty = ty" using assms unfolding filter_ok_def by blast
qed

section \<open>The program\<close>

record adv_live =
  live_cs :: cancel_state
  live_ctl :: "(adv_session_state, unit) ctl"

record 'ch adv_program =
  handler_ctl :: "(unit, unit) ctl"
  server_cs :: cancel_state
  adv_srv :: "'ch adv_server"
  live :: "size_t \<Rightarrow> adv_live option"

text \<open>Completions: of the wait for a signal, of \<open>async_accept\<close>, of \<open>async_receive\<close>, and of the outstanding
  operation of a session: its echo loop, the goodbye, or the pause.\<close>

datatype live_event = EchoEnds exception_ptr | GoodbyeEnds error_code | PauseEnds error_code error_code

datatype 'sock prog_signal_event =
    GotSignal error_code signum
  | GotAccept error_code 'sock
  | GotReceive
  | SessionResumed size_t live_event

datatype 'sock prog_signal_action =
    HandlerDoes signal_action
  | ServerDoes "'sock adv_action"
  | SessionActs size_t adv_session_action

text \<open>What the actions of the server do to the cancellation states; a spawned session runs up to the
  start of its echo loop.\<close>

definition emitted :: "cancel_lib \<Rightarrow> cancellation_type \<Rightarrow> adv_live \<Rightarrow> adv_live" where
  "emitted F ty l = l\<lparr>live_cs := cs_emit F ty (live_cs l)\<rparr>"

fun server_effect :: "cancel_enum \<Rightarrow> cancel_lib \<Rightarrow> 'sock adv_action \<Rightarrow> 'ch adv_program \<Rightarrow> 'ch adv_program" where
  "server_effect E F (AdvReset f) p = p\<lparr>server_cs := cs_reset F f (server_cs p)\<rparr>"
| "server_effect E F (AdvSpawn k s) p =
     p\<lparr>live := (live p)(k \<mapsto> \<lparr>live_cs = cs_reset F EnableTotal (cs_new E), live_ctl = snd adv_session_start\<rparr>)\<rparr>"
| "server_effect E F (AdvEmit k ty) p =
     p\<lparr>live := (live p)(k := map_option (emitted F ty) (live p k))\<rparr>"
| "server_effect E F _ p = p"

definition server_effects :: "cancel_enum \<Rightarrow> cancel_lib \<Rightarrow> 'sock adv_action list \<Rightarrow> 'ch adv_program \<Rightarrow> 'ch adv_program" where
  "server_effects E F as p = foldl (\<lambda>p a. server_effect E F a p) p as"

fun spawn_actions :: "'sock adv_action \<Rightarrow> 'sock prog_signal_action list" where
  "spawn_actions (AdvSpawn k s) = ServerDoes (AdvSpawn k s) # map (SessionActs k) (fst adv_session_start)"
| "spawn_actions a = [ServerDoes a]"

definition server_turn ::
  "cancel_enum \<Rightarrow> cancel_lib \<Rightarrow> 'ch channel_ops \<Rightarrow> 'sock adv_event \<Rightarrow> 'ch adv_program
    \<Rightarrow> 'sock prog_signal_action list \<times> 'ch adv_program" where
  "server_turn E F C ev p =
     (case adv_step E C (adv_srv p) ev of
        (as, srv) \<Rightarrow> (concat (map spawn_actions as), server_effects E F as (p\<lparr>adv_srv := srv\<rparr>)))"

text \<open>The completion of a session carries \<open>cs.cancelled()\<close> of its own cancellation state.\<close>

fun live_input :: "adv_live \<Rightarrow> live_event \<Rightarrow> adv_session_event" where
  "live_input l (EchoEnds ep) = EchoDone ep (cs_cancelled (live_cs l))"
| "live_input l (GoodbyeEnds ec) = GoodbyeDone ec"
| "live_input l (PauseEnds ec shut) = PauseDone ec shut"

fun live_effect :: "cancel_lib \<Rightarrow> adv_session_action \<Rightarrow> cancel_state \<Rightarrow> cancel_state" where
  "live_effect F (ResetState f) cs = cs_reset F f cs"
| "live_effect F _ cs = cs"

fun result_of :: "('s, unit) ctl \<Rightarrow> exception_ptr" where
  "result_of (Threw x) = Some x"
| "result_of _ = None"

definition session_turn ::
  "cancel_enum \<Rightarrow> cancel_lib \<Rightarrow> 'ch channel_ops \<Rightarrow> int \<Rightarrow> size_t \<Rightarrow> live_event \<Rightarrow> 'ch adv_program
    \<Rightarrow> 'sock prog_signal_action list \<times> 'ch adv_program" where
  "session_turn E F C ms k e p =
     (case live p k of
        Some l \<Rightarrow>
          (case drive (adv_session E ms) (live_ctl l) [live_input l e] of
             (as, c) \<Rightarrow>
               if finished c
               then (case server_turn E F C (AdvSessionEnded k (result_of c)) (p\<lparr>live := (live p)(k := None)\<rparr>) of
                       (bs, p') \<Rightarrow> (map (SessionActs k) as @ bs, p'))
               else (map (SessionActs k) as,
                     p\<lparr>live := (live p)(k \<mapsto> \<lparr>live_cs = foldl (\<lambda>cs a. live_effect F a cs) (live_cs l) as, live_ctl = c\<rparr>)\<rparr>))
      | None \<Rightarrow> ([], p))"

text \<open>The signal handler: what it emits reaches the server. When the server has ended, \<open>||\<close> cancels it.\<close>

definition signal_turn ::
  "cancel_enum \<Rightarrow> cancel_lib \<Rightarrow> error_code \<times> signum \<Rightarrow> 'ch adv_program \<Rightarrow> 'sock prog_signal_action list \<times> 'ch adv_program" where
  "signal_turn E F e p =
     (case drive (signal_handling E) (handler_ctl p) [e] of
        (as, c) \<Rightarrow>
          (map HandlerDoes as,
           p\<lparr>handler_ctl := c,
             server_cs := foldl (\<lambda>cs a. case a of Emit ty \<Rightarrow> cs_emit F ty cs | _ \<Rightarrow> cs) (server_cs p) as\<rparr>))"

definition with_signal_handling_step ::
  "cancel_enum \<Rightarrow> cancel_lib \<Rightarrow> 'ch channel_ops \<Rightarrow> int \<Rightarrow> ('ch adv_program, 'sock prog_signal_event, 'sock prog_signal_action) stepper" where
  "with_signal_handling_step E F C ms p ev =
     (if adv_phase (adv_srv p) = Finished then ([], p)
      else
        (case ev of
           GotSignal ec sg \<Rightarrow> signal_turn E F (ec, sg) p
         | GotAccept ec sock \<Rightarrow> server_turn E F C (AdvAccepted ec sock (cs_cancelled (server_cs p))) p
         | GotReceive \<Rightarrow> server_turn E F C (AdvReceived (cs_cancelled (server_cs p))) p
         | SessionResumed k e \<Rightarrow> session_turn E F C ms k e p))"

text \<open>\<open>main\<close>: both coroutines have been started, the server waits for its first connection.\<close>

definition signal_main :: "cancel_enum \<Rightarrow> cancel_lib \<Rightarrow> 'ch \<Rightarrow> 'ch adv_program" where
  "signal_main E F ch =
     \<lparr>handler_ctl = Suspended (), server_cs = cs_reset F EnableTotal (cs_new E), adv_srv = adv_init ch, live = Map.empty\<rparr>"

section \<open>The table of the server and the running sessions\<close>

text \<open>The sessions the server knows are exactly those that run, so that a cancellation always finds its
  session.\<close>

definition linked :: "'ch adv_program \<Rightarrow> bool" where
  "linked p \<longleftrightarrow> fst ` set (sessions (adv_srv p)) = dom (live p)"

lemma server_effects_simps [simp]:
  "server_effects E F [] p = p"
  "server_effects E F (a # as) p = server_effects E F as (server_effect E F a p)"
  "server_effects E F (as @ bs) p = server_effects E F bs (server_effects E F as p)"
  by (simp_all add: server_effects_def)

text \<open>Forwarding reaches every session in the table.\<close>

fun forwarded ::
  "cancel_lib \<Rightarrow> cancellation_type \<Rightarrow> unit table \<Rightarrow> (size_t \<Rightarrow> adv_live option) \<Rightarrow> size_t \<Rightarrow> adv_live option" where
  "forwarded F ty [] m = m"
| "forwarded F ty (e # tab) m = forwarded F ty tab (m(fst e := map_option (emitted F ty) (m (fst e))))"

lemma dom_forwarded [simp]: "dom (forwarded F ty tab m) = dom m"
  by (induction tab arbitrary: m) (auto simp: dom_def)

lemma emitted_twice: "filter_ok E F \<Longrightarrow> emitted F ty (emitted F ty l) = emitted F ty l"
  by (simp add: emitted_def cs_emit_def filter_okD)

lemma forwarded_apply:
  assumes "filter_ok E F"
  shows "forwarded F ty tab m k = (if k \<in> fst ` set tab then map_option (emitted F ty) (m k) else m k)"
  by (induction tab arbitrary: m) (auto simp: option.map_comp o_def emitted_twice [OF assms])

lemma forward_effects:
  "server_effects E F (map (\<lambda>(k, _). AdvEmit k ty) tab) p = p\<lparr>live := forwarded F ty tab (live p)\<rparr>"
  by (induction tab arbitrary: p) (simp_all add: case_prod_beta)

lemma wait_effects:
  assumes "adv_wait C srv = (as, srv')"
  shows "server_effects E F as p = (if sessions srv = [] then p else p\<lparr>server_cs := cs_reset F EnableTerminal (server_cs p)\<rparr>)"
  using assms by (auto simp: adv_wait_def split: if_splits)

lemma register_effects:
  assumes "adv_register ec sock srv = (as, srv')"
  shows "server_effects E F as p =
     (if ec = Success
      then p\<lparr>live := (live p)(adv_next srv \<mapsto> \<lparr>live_cs = cs_reset F EnableTotal (cs_new E), live_ctl = Suspended InEcho\<rparr>)\<rparr> else p)"
  using assms by (auto simp: adv_register_def adv_session_start_def split: if_splits)

lemma accept_effects: "server_effects E F adv_accept p = p\<lparr>server_cs := cs_reset F EnableTotal (server_cs p)\<rparr>"
  by (simp add: adv_accept_def)

lemma wait_sessions: "adv_wait C srv = (as, srv') \<Longrightarrow> sessions srv' = sessions srv"
  by (auto simp: adv_wait_def split: if_splits)

lemma register_keys:
  assumes "adv_register ec sock srv = (as, srv')"
  shows "fst ` set (sessions srv') =
    (if ec = Success then insert (adv_next srv) (fst ` set (sessions srv)) else fst ` set (sessions srv))"
proof (cases "ec = Success")
  case True
  with assms have "srv' = srv\<lparr>sessions := emplace (adv_next srv) () (sessions srv), adv_next := adv_next srv + 1\<rparr>"
    by (auto simp: adv_register_def)
  with True show ?thesis by simp
qed (use assms in \<open>auto simp: adv_register_def\<close>)

definition registered ::
  "cancel_enum \<Rightarrow> cancel_lib \<Rightarrow> error_code \<Rightarrow> size_t \<Rightarrow> (size_t \<Rightarrow> adv_live option) \<Rightarrow> size_t \<Rightarrow> adv_live option" where
  "registered E F ec k m =
     (if ec = Success then m(k \<mapsto> \<lparr>live_cs = cs_reset F EnableTotal (cs_new E), live_ctl = Suspended InEcho\<rparr>) else m)"

lemma dom_registered: "dom (registered E F ec k m) = (if ec = Success then insert k (dom m) else dom m)"
  by (simp add: registered_def)

text \<open>The turn of the server after an accept.\<close>

lemma accept_turn:
  fixes sock :: 'sock and as2 :: "'sock adv_action list" and as :: "'sock prog_signal_action list"
  assumes "adv_phase (adv_srv p) = Accepting"
    and "adv_register ec sock (adv_srv p) = (as1, srv1)" and "adv_wait C srv1 = (as2, srv2)"
    and "server_turn E F C (AdvAccepted ec sock ty) p = (as, p')"
  shows "p' =
    (if ty = ct_total E
     then p\<lparr>adv_srv := srv1, live := forwarded F ty (sessions srv1) (registered E F ec (adv_next (adv_srv p)) (live p)),
            server_cs := cs_reset F EnableTotal (server_cs p)\<rparr>
     else if ec \<noteq> Success \<or> ty \<noteq> ct_none E
     then p\<lparr>adv_srv := srv2, live := forwarded F ty (sessions srv1) (registered E F ec (adv_next (adv_srv p)) (live p)),
            server_cs := (if sessions srv1 = [] then server_cs p else cs_reset F EnableTerminal (server_cs p))\<rparr>
     else p\<lparr>adv_srv := srv1, live := registered E F ec (adv_next (adv_srv p)) (live p), server_cs := cs_reset F EnableTotal (server_cs p)\<rparr>)"
proof -
  have step: "adv_step E C (adv_srv p) (AdvAccepted ec sock ty) =
     (if ty = ct_total E then (as1 @ adv_forward ty srv1 @ adv_accept, srv1)
      else if ec \<noteq> Success \<or> ty \<noteq> ct_none E then (as1 @ adv_forward ty srv1 @ as2, srv2)
      else (as1 @ adv_accept, srv1))"
    using assms(1) by (simp add: adv_accepted_def assms(2,3))
  have "p' = (case adv_step E C (adv_srv p) (AdvAccepted ec sock ty) of (as, srv) \<Rightarrow> server_effects E F as (p\<lparr>adv_srv := srv\<rparr>))"
    using assms(4) by (simp add: server_turn_def del: adv_step.simps split: prod.splits)
  then show ?thesis
    unfolding step
    by (simp add: adv_forward_def forward_effects registered_def
        register_effects [OF assms(2)] wait_effects [OF assms(3)] accept_effects)
qed

lemma receive_turn:
  fixes as2 :: "'sock adv_action list" and as :: "'sock prog_signal_action list"
  assumes "adv_phase (adv_srv p) = Draining"
    and "adv_wait C ((adv_srv p)\<lparr>adv_channel := ch_received C (adv_channel (adv_srv p))\<rparr>) = (as2, srv2)"
    and "server_turn E F C (AdvReceived ty) p = (as, p')"
  shows "p' = p\<lparr>adv_srv := srv2,
      live := (if ty \<noteq> ct_none E then forwarded F ty (sessions (adv_srv p)) (live p) else live p),
      server_cs := (if sessions (adv_srv p) = [] then server_cs p else cs_reset F EnableTerminal (server_cs p))\<rparr>"
  using assms(1,3)
  by (auto simp: server_turn_def assms(2) adv_forward_def forward_effects wait_effects [OF assms(2)] Let_def)

lemma ended_turn:
  "server_turn E F C (AdvSessionEnded k ep) p = ([], p\<lparr>adv_srv := (adv_srv p)\<lparr>sessions := erase k (sessions (adv_srv p)),
     adv_channel := ch_try_send C (adv_channel (adv_srv p))\<rparr>\<rparr>)"
  by (simp add: server_turn_def)

lemma linked_accept:
  assumes "linked p" and "server_turn E F C (AdvAccepted ec sock ty) p = (as, p')"
  shows "linked p'"
proof (cases "adv_phase (adv_srv p) = Accepting")
  case True
  obtain as1 srv1 where r: "adv_register ec sock (adv_srv p) = (as1, srv1)" by fastforce
  obtain as2 :: "'b adv_action list" and srv2 where w: "adv_wait C srv1 = (as2, srv2)" by fastforce
  show ?thesis
    using assms(1) register_keys [OF r] wait_sessions [OF w]
    by (simp add: linked_def accept_turn [OF True r w assms(2)] dom_registered)
qed (use assms in \<open>auto simp: server_turn_def\<close>)

lemma linked_receive:
  assumes "linked p" and "server_turn E F C (AdvReceived ty) p = (as, p')"
  shows "linked p'"
proof (cases "adv_phase (adv_srv p) = Draining")
  case True
  obtain as2 :: "'b adv_action list" and srv2 where
    w: "adv_wait C ((adv_srv p)\<lparr>adv_channel := ch_received C (adv_channel (adv_srv p))\<rparr>) = (as2, srv2)" by fastforce
  show ?thesis
    using assms(1) wait_sessions [OF w] by (simp add: linked_def receive_turn [OF True w assms(2)])
qed (use assms in \<open>auto simp: server_turn_def\<close>)

lemma linked_session:
  assumes "linked p" and "session_turn E F C ms k e p = (as, p')"
  shows "linked p'"
proof (cases "live p k")
  case (Some l)
  obtain as1 c where d: "drive (adv_session E ms) (live_ctl l) [live_input l e] = (as1, c)" by fastforce
  show ?thesis
  proof (cases "finished c")
    case True
    then have "p' = p\<lparr>live := (live p)(k := None), adv_srv := (adv_srv p)\<lparr>sessions := erase k (sessions (adv_srv p)),
       adv_channel := ch_try_send C (adv_channel (adv_srv p))\<rparr>\<rparr>"
      using assms(2) Some d by (auto simp: session_turn_def ended_turn simp del: drive.simps)
    with assms(1) show ?thesis by (simp add: linked_def)
  next
    case False
    then obtain l' where p': "p' = p\<lparr>live := (live p)(k \<mapsto> l')\<rparr>"
      using assms(2) Some d by (auto simp: session_turn_def simp del: drive.simps)
    have "insert k (dom (live p)) = dom (live p)" using Some by auto
    then show ?thesis using assms(1) p' by (simp add: linked_def)
  qed
qed (use assms in \<open>auto simp: session_turn_def\<close>)

lemma linked_step:
  assumes "linked p" and "with_signal_handling_step E F C ms p ev = (as, p')"
  shows "linked p'"
proof (cases "adv_phase (adv_srv p) = Finished")
  case True
  with assms show ?thesis by (simp add: with_signal_handling_step_def)
next
  case False
  show ?thesis
  proof (cases ev)
    case (GotSignal ec sg)
    with False assms(2) have "adv_srv p' = adv_srv p" "live p' = live p"
      by (auto simp: with_signal_handling_step_def signal_turn_def split: prod.splits)
    with assms(1) show ?thesis by (simp add: linked_def)
  next
    case (GotAccept ec sock)
    with False assms linked_accept show ?thesis by (fastforce simp: with_signal_handling_step_def)
  next
    case GotReceive
    with False assms linked_receive show ?thesis by (fastforce simp: with_signal_handling_step_def)
  next
    case (SessionResumed k e)
    with False assms linked_session show ?thesis by (fastforce simp: with_signal_handling_step_def)
  qed
qed

lemma server_effect_srv [simp]: "adv_srv (server_effect E F a p) = adv_srv p"
  by (cases a) simp_all

lemma server_effects_srv [simp]: "adv_srv (server_effects E F as p) = adv_srv p"
  by (induction as arbitrary: p) simp_all

lemma server_turn_srv:
  "server_turn E F C ev p = (as, p') \<Longrightarrow> \<exists>bs. adv_step E C (adv_srv p) ev = (bs, adv_srv p')"
  by (auto simp: server_turn_def split: prod.splits)

lemma server_turn_inv:
  assumes "channel_ok C" and "adv_inv C (adv_srv p)" and "server_turn E F C ev p = (as, p')"
  shows "adv_inv C (adv_srv p')"
  using server_turn_srv [OF assms(3)] adv_step_inv [OF assms(1,2)] by blast

lemma session_turn_inv:
  fixes as :: "'sock prog_signal_action list"
  assumes "channel_ok C" and "adv_inv C (adv_srv p)" and "session_turn E F C ms k e p = (as, p')"
  shows "adv_inv C (adv_srv p')"
proof (cases "live p k")
  case (Some l)
  let ?p = "p\<lparr>live := (live p)(k := None)\<rparr>"
  obtain as1 c where d: "drive (adv_session E ms) (live_ctl l) [live_input l e] = (as1, c)" by fastforce
  obtain bs :: "'sock prog_signal_action list" and p1
    where t: "server_turn E F C (AdvSessionEnded k (result_of c)) ?p = (bs, p1)" by fastforce
  have "adv_inv C (adv_srv ?p)" using assms(2) by simp
  from server_turn_inv [OF assms(1) this t] assms(2,3) Some d t show ?thesis
    by (auto simp: session_turn_def simp del: drive.simps split: if_splits)
qed (use assms in \<open>auto simp: session_turn_def\<close>)

lemma program_step_inv:
  assumes "channel_ok C" and "linked p \<and> adv_inv C (adv_srv p)"
    and "with_signal_handling_step E F C ms p ev = (as, p')"
  shows "linked p' \<and> adv_inv C (adv_srv p')"
proof
  show "linked p'" using linked_step assms(2,3) by blast
  show "adv_inv C (adv_srv p')"
  proof (cases ev)
    case (GotSignal ec sg)
    with assms(2,3) show ?thesis
      by (auto simp: with_signal_handling_step_def signal_turn_def split: if_splits prod.splits)
  next
    case (GotAccept ec sock)
    with assms server_turn_inv [OF assms(1)] show ?thesis
      by (fastforce simp: with_signal_handling_step_def split: if_splits)
  next
    case GotReceive
    with assms server_turn_inv [OF assms(1)] show ?thesis
      by (fastforce simp: with_signal_handling_step_def split: if_splits)
  next
    case (SessionResumed k e)
    with assms session_turn_inv [OF assms(1)] show ?thesis
      by (fastforce simp: with_signal_handling_step_def split: if_splits)
  qed
qed

section \<open>Closing\<close>

text \<open>Sessions that are all in their echo loop, with the given types received.\<close>

definition all_echoing :: "cancellation_type \<Rightarrow> 'ch adv_program \<Rightarrow> bool" where
  "all_echoing ty p \<longleftrightarrow> (\<forall>k l. live p k = Some l \<longrightarrow>
     l = \<lparr>live_cs = \<lparr>cs_filter = EnableTotal, cs_cancelled = ty\<rparr>, live_ctl = Suspended InEcho\<rparr>)"

text \<open>One session alone, resumed by completions of its operations.\<close>

fun live_run ::
  "cancel_enum \<Rightarrow> cancel_lib \<Rightarrow> int \<Rightarrow> adv_live \<Rightarrow> live_event list \<Rightarrow> adv_session_action list \<times> adv_live option" where
  "live_run E F ms l [] = ([], Some l)"
| "live_run E F ms l (e # es) =
     (case drive (adv_session E ms) (live_ctl l) [live_input l e] of
        (as, c) \<Rightarrow>
          if finished c then (as, None)
          else (case live_run E F ms \<lparr>live_cs = foldl (\<lambda>cs a. live_effect F a cs) (live_cs l) as, live_ctl = c\<rparr> es of
                  (bs, r) \<Rightarrow> (as @ bs, r)))"

text \<open>What concerns session \<open>k\<close> in a list of events or actions.\<close>

fun ev_of :: "size_t \<Rightarrow> 'sock prog_signal_event \<Rightarrow> live_event list" where
  "ev_of k (SessionResumed j e) = (if j = k then [e] else [])"
| "ev_of k _ = []"

fun act_of :: "size_t \<Rightarrow> 'sock prog_signal_action \<Rightarrow> adv_session_action list" where
  "act_of k (SessionActs j a) = (if j = k then [a] else [])"
| "act_of k _ = []"

definition evs_of :: "size_t \<Rightarrow> 'sock prog_signal_event list \<Rightarrow> live_event list" where
  "evs_of k es = concat (map (ev_of k) es)"

definition acts_of :: "size_t \<Rightarrow> 'sock prog_signal_action list \<Rightarrow> adv_session_action list" where
  "acts_of k as = concat (map (act_of k) as)"

lemma evs_of_simps [simp]: "evs_of k [] = []" "evs_of k (e # es) = ev_of k e @ evs_of k es"
  by (simp_all add: evs_of_def)

lemma acts_of_simps [simp]:
  "acts_of k [] = []" "acts_of k (a # as) = act_of k a @ acts_of k as" "acts_of k (as @ bs) = acts_of k as @ acts_of k bs"
  "acts_of k (map (SessionActs j) cs) = (if j = k then cs else [])"
  by (simp_all add: acts_of_def o_def concat_map_singleton)

text \<open>How a session that was cancelled by a signal ends, when nothing fails: its echo loop is aborted;
  after \<open>SIGINT\<close> it then writes the goodbye and pauses.\<close>

definition closing :: "signum \<Rightarrow> live_event list" where
  "closing sg = EchoEnds (Some (SystemError OperationAborted)) #
      (if sg = SIGINT then [GoodbyeEnds Success, PauseEnds Success Success] else [])"

definition closing_actions :: "int \<Rightarrow> signum \<Rightarrow> adv_session_action list" where
  "closing_actions ms sg =
     (if sg = SIGINT then [ResetState EnableTerminal, WriteGoodbye (''goodbye'' @ [CHR 0x0A]), SleepFor ms, ShutdownPeer] else [])"

lemma live_run_closing:
  assumes "cancel_enum_ok E" and "sg \<in> {SIGINT, SIGTERM}" and "signal_type E sg = Some ty"
  shows "live_run E F ms \<lparr>live_cs = \<lparr>cs_filter = EnableTotal, cs_cancelled = ty\<rparr>, live_ctl = Suspended InEcho\<rparr> (closing sg @ fs)
    = (closing_actions ms sg, None)"
  using assms and.commute [of "ct_partial E" "ct_terminal E"]
  by (auto simp: closing_def closing_actions_def signal_type_def cancel_enum_ok_def adv_shutdown_start_def)

text \<open>Whatever the outcomes, three completions end a session.\<close>

lemma live_run_ends:
  assumes "live_ctl l = Suspended InEcho"
  shows "snd (live_run E F ms l (EchoEnds ep # GoodbyeEnds ec # PauseEnds ec' shut # fs)) = None"
  using assms by (auto split: prod.splits option.splits sum.splits if_splits)

text \<open>While the server drains and no signal arrives, the sessions run independently of each other and of
  the server.\<close>

definition draining_ok :: "cancel_enum \<Rightarrow> 'ch channel_ops \<Rightarrow> 'ch adv_program \<Rightarrow> bool" where
  "draining_ok E C p \<longleftrightarrow> linked p \<and> adv_inv C (adv_srv p) \<and> adv_phase (adv_srv p) \<in> {Draining, Finished}
     \<and> (adv_phase (adv_srv p) = Draining \<longrightarrow> cs_cancelled (server_cs p) = ct_none E)"

lemma draining_session:
  assumes "draining_ok E C p" and "with_signal_handling_step E F C ms p (SessionResumed k e) = (as, p')"
  shows "adv_phase (adv_srv p') = adv_phase (adv_srv p) \<and> server_cs p' = server_cs p
    \<and> (\<forall>j. case live p j of
          Some l \<Rightarrow> live_run E F ms l (evs_of j [SessionResumed k e]) = (acts_of j as, live p' j)
        | None \<Rightarrow> acts_of j as = [] \<and> live p' j = None)"
proof (cases "adv_phase (adv_srv p) = Finished")
  case True
  then have "dom (live p) = {}"
    using assms(1) by (simp add: draining_ok_def linked_def adv_inv_def del: dom_eq_empty_conv) (metis image_empty list.set(1))
  with True assms(2) show ?thesis by (simp add: with_signal_handling_step_def)
next
  case False
  then have t: "session_turn E F C ms k e p = (as, p')" using assms(2) by (simp add: with_signal_handling_step_def)
  show ?thesis
  proof (cases "live p k")
    case None
    with t show ?thesis by (auto simp: session_turn_def split: option.splits)
  next
    case (Some l)
    obtain bs c where d: "drive (adv_session E ms) (live_ctl l) [live_input l e] = (bs, c)" by fastforce
    with t Some show ?thesis
      by (cases "finished c") (auto simp: session_turn_def ended_turn simp del: drive.simps split: option.splits)
  qed
qed

lemma draining_other:
  assumes "draining_ok E C p" and F: "filter_ok E F" and "with_signal_handling_step E F C ms p ev = (as, p')"
    and "ev = GotReceive \<or> (\<exists>ec sock. ev = GotAccept ec sock)"
  shows "adv_phase (adv_srv p') \<in> {Draining, Finished} \<and> (adv_phase (adv_srv p') = Draining \<longrightarrow> cs_cancelled (server_cs p') = ct_none E)
    \<and> live p' = live p \<and> (\<forall>j. acts_of j as = [] \<and> evs_of j [ev] = [])"
proof (cases "adv_phase (adv_srv p) = Draining")
  case True
  show ?thesis
  proof (cases "ev = GotReceive")
    case rec: True
    obtain as2 :: "'b adv_action list" and srv2 where
      w: "adv_wait C ((adv_srv p)\<lparr>adv_channel := ch_received C (adv_channel (adv_srv p))\<rparr>) = (as2, srv2)" by fastforce
    have t: "server_turn E F C (AdvReceived (ct_none E)) p = (as, p')"
      using assms(1,3) True rec by (simp add: with_signal_handling_step_def draining_ok_def)
    have "as = concat (map spawn_actions as2)"
      using t True w by (auto simp: server_turn_def Let_def adv_forward_def)
    moreover have "acts_of j (concat (map spawn_actions as2)) = []" for j
      using w by (auto simp: adv_wait_def split: if_splits)
    moreover have "adv_phase srv2 \<in> {Draining, Finished}" using w True by (auto simp: adv_wait_def split: if_splits)
    ultimately show ?thesis using receive_turn [OF True w t] assms(1) rec True by (simp add: cs_reset_def filter_okD [OF F] draining_ok_def)
  next
    case False
    then show ?thesis using assms(1,3,4) True by (auto simp: with_signal_handling_step_def server_turn_def draining_ok_def)
  qed
next
  case False
  then show ?thesis using assms(1,3,4) by (auto simp: with_signal_handling_step_def draining_ok_def)
qed

lemma draining_step:
  assumes "channel_ok C" and "draining_ok E C p" and "filter_ok E F" and "with_signal_handling_step E F C ms p ev = (as, p')"
    and "\<forall>ec sg. ev \<noteq> GotSignal ec sg"
  shows "draining_ok E C p'
    \<and> (\<forall>j. case live p j of
          Some l \<Rightarrow> live_run E F ms l (evs_of j [ev]) = (acts_of j as, live p' j)
        | None \<Rightarrow> acts_of j as = [] \<and> live p' j = None)"
proof -
  have inv: "linked p' \<and> adv_inv C (adv_srv p')"
    using program_step_inv [OF assms(1) _ assms(4)] assms(2) by (simp add: draining_ok_def)
  show ?thesis
  proof (cases ev)
    case (SessionResumed k e)
    note s = draining_session [OF assms(2) assms(4) [unfolded SessionResumed]]
    then have "draining_ok E C p'" using inv assms(2) by (auto simp: draining_ok_def)
    with s show ?thesis unfolding SessionResumed by blast
  next
    case GotReceive
    from draining_other [OF assms(2-4)] inv assms(2) GotReceive show ?thesis
      by (auto simp: draining_ok_def split: option.splits)
  next
    case (GotAccept ec sock)
    from draining_other [OF assms(2-4)] inv assms(2) GotAccept show ?thesis
      by (auto simp: draining_ok_def split: option.splits)
  qed (use assms(5) in simp)
qed

lemma live_run_append:
  "live_run E F ms l (es @ fs) =
     (case live_run E F ms l es of
        (as, Some l') \<Rightarrow> (case live_run E F ms l' fs of (bs, r) \<Rightarrow> (as @ bs, r))
      | (as, None) \<Rightarrow> (as, None))"
  by (induction es arbitrary: l) (auto split: prod.splits option.splits)

lemma draining_run:
  assumes "channel_ok C" and "filter_ok E F" and "draining_ok E C p" and "steps (with_signal_handling_step E F C ms) p es = (as, p')"
    and "\<forall>ec sg. GotSignal ec sg \<notin> set es"
  shows "draining_ok E C p'
    \<and> (\<forall>j. case live p j of
          Some l \<Rightarrow> live_run E F ms l (evs_of j es) = (acts_of j as, live p' j)
        | None \<Rightarrow> acts_of j as = [] \<and> live p' j = None)"
  using assms(3-)
proof (induction es arbitrary: p as)
  case (Cons ev es)
  obtain as1 p1 where s: "with_signal_handling_step E F C ms p ev = (as1, p1)" by fastforce
  then obtain as2 where r: "steps (with_signal_handling_step E F C ms) p1 es = (as2, p')" "as = as1 @ as2"
    using Cons.prems(2) by (auto split: prod.splits)
  have no: "\<forall>ec sg. ev \<noteq> GotSignal ec sg" "\<forall>ec sg. GotSignal ec sg \<notin> set es" using Cons.prems(3) by auto
  note one = draining_step [OF assms(1) Cons.prems(1) assms(2) s no(1)]
  note rest = Cons.IH [OF _ r(1) no(2)]
  show ?case
  proof (intro conjI allI)
    show "draining_ok E C p'" using one rest by blast
    fix j
    have a: "acts_of j as = acts_of j as1 @ acts_of j as2" by (simp add: r(2))
    have e: "evs_of j (ev # es) = evs_of j [ev] @ evs_of j es" by simp
    show "case live p j of
          Some l \<Rightarrow> live_run E F ms l (evs_of j (ev # es)) = (acts_of j as, live p' j)
        | None \<Rightarrow> acts_of j as = [] \<and> live p' j = None"
    proof (cases "live p j")
      case None
      with one rest a show ?thesis by (auto dest!: spec [of _ j])
    next
      case (Some l)
      with one have l: "live_run E F ms l (evs_of j [ev]) = (acts_of j as1, live p1 j)" by (auto dest!: spec [of _ j])
      have "case live p1 j of Some l \<Rightarrow> live_run E F ms l (evs_of j es) = (acts_of j as2, live p' j)
        | None \<Rightarrow> acts_of j as2 = [] \<and> live p' j = None" using one rest by blast
      with Some l show ?thesis unfolding e live_run_append a by (auto split: option.splits)
    qed
  qed
qed (auto split: option.splits)

text \<open>A signal reaches every session, and the server stops accepting.\<close>

lemma signal_reaches:
  fixes sock :: 'sock
  assumes E: "cancel_enum_ok E" "filter_ok E F"
    and "sg \<in> {SIGINT, SIGTERM}" and "signal_type E sg = Some ty"
    and "handler_ctl p = Suspended ()" and "adv_phase (adv_srv p) = Accepting"
    and "server_cs p = \<lparr>cs_filter = EnableTotal, cs_cancelled = ct_none E\<rparr>" and "linked p" and "all_echoing (ct_none E) p"
    and "steps (with_signal_handling_step E F C ms) p [GotSignal Success sg, GotAccept ec sock] = (as, p')"
  shows "all_echoing ty p' \<and> adv_phase (adv_srv p') = (if dom (live p') = {} then Finished else Draining)
    \<and> dom (live p') = (if ec = Success then insert (adv_next (adv_srv p)) (dom (live p)) else dom (live p))
    \<and> (adv_phase (adv_srv p') = Draining \<longrightarrow> cs_cancelled (server_cs p') = ct_none E)"
proof -
  have ty: "ty \<noteq> ct_total E" "ty \<noteq> ct_none E" "cl_emit F EnableTotal ty (ct_none E) = ty" "ct_none E = 0"
    using assms(1,3,4) filter_okD(3) [OF E(2) assms(4)] by (auto simp: signal_type_def cancel_enum_ok_def split: signum.splits)
  let ?p = "p\<lparr>server_cs := \<lparr>cs_filter = EnableTotal, cs_cancelled = ty\<rparr>\<rparr>"
  have one: "with_signal_handling_step E F C ms p (GotSignal Success sg :: 'sock prog_signal_event)
      = ([HandlerDoes (Emit ty), HandlerDoes (WaitSignal signal_set_advanced)], ?p)"
    using assms(4-7) ty
    by (simp add: with_signal_handling_step_def signal_turn_def signal_handling_def cs_emit_def)
  obtain as1 srv1 where r: "adv_register ec sock (adv_srv ?p) = (as1, srv1)" by fastforce
  obtain as2 :: "'sock adv_action list" and srv2 where w: "adv_wait C srv1 = (as2, srv2)" by fastforce
  obtain bs where t: "server_turn E F C (AdvAccepted ec sock ty) ?p = (bs, p')"
    using assms(6,10) one by (auto simp: with_signal_handling_step_def split: prod.splits)
  have acc: "adv_phase (adv_srv ?p) = Accepting" using assms(6) by simp
  have keys: "fst ` set (sessions srv1) = dom (registered E F ec (adv_next (adv_srv p)) (live p))"
    using register_keys [OF r] assms(8) by (simp add: linked_def dom_registered)
  have p': "live p' = forwarded F ty (sessions srv1) (registered E F ec (adv_next (adv_srv p)) (live p))"
    "adv_srv p' = srv2"
    using accept_turn [OF acc r w t] ty by simp_all
  let ?l = "\<lparr>live_cs = \<lparr>cs_filter = EnableTotal, cs_cancelled = ct_none E\<rparr>, live_ctl = Suspended InEcho\<rparr>"
  have em: "emitted F ty ?l = \<lparr>live_cs = \<lparr>cs_filter = EnableTotal, cs_cancelled = ty\<rparr>, live_ctl = Suspended InEcho\<rparr>"
    using ty by (simp add: emitted_def cs_emit_def)
  have old: "registered E F ec (adv_next (adv_srv p)) (live p) k \<in> {None, Some ?l}" for k
    using assms(9) by (cases "live p k") (auto simp: all_echoing_def registered_def cs_reset_def filter_okD [OF E(2)])
  have "all_echoing ty p'"
    unfolding all_echoing_def p'
  proof (intro allI impI)
    fix k l
    assume l: "forwarded F ty (sessions srv1) (registered E F ec (adv_next (adv_srv p)) (live p)) k = Some l"
    then have "k \<in> fst ` set (sessions srv1)" using keys by (auto simp: forwarded_apply [OF E(2)] split: if_splits)
    with l old [of k] em show "l = \<lparr>live_cs = \<lparr>cs_filter = EnableTotal, cs_cancelled = ty\<rparr>, live_ctl = Suspended InEcho\<rparr>"
      by (auto simp: forwarded_apply [OF E(2)])
  qed
  moreover have d: "dom (live p') = fst ` set (sessions srv1)" by (simp only: p' dom_forwarded keys)
  moreover have "adv_phase (adv_srv p') = (if sessions srv1 = [] then Finished else Draining)"
    unfolding p'(2) using w by (auto simp: adv_wait_def split: if_splits)
  moreover have "dom (live p') = {} \<longleftrightarrow> sessions srv1 = []" unfolding d by simp
  moreover have "server_cs p' = (if sessions srv1 = [] then server_cs ?p else cs_reset F EnableTerminal (server_cs ?p))"
    using accept_turn [OF acc r w t] ty by simp
  ultimately show ?thesis using keys by (simp add: dom_registered cs_reset_def filter_okD [OF E(2)] del: dom_eq_empty_conv)
qed

section \<open>Properties\<close>

text \<open>C23: In every reachable state of the whole program the sessions in the server's table are exactly
  the sessions that run, whatever signals, connections and completions have occurred in whatever
  order; so a cancellation the server forwards always reaches a running session and no running
  session is missed. And the server has ended only if no session runs.\<close>

theorem adv_program_linked:
  assumes "channel_ok C" and "steps (with_signal_handling_step E F C ms) (signal_main E F ch) es = (as, p)"
  shows "fst ` set (sessions (adv_srv p)) = dom (live p) \<and> (adv_phase (adv_srv p) = Finished \<longrightarrow> live p = Map.empty)"
proof -
  have "linked p \<and> adv_inv C (adv_srv p)"
    by (rule steps_invariant [OF assms(2)])
       (simp add: signal_main_def linked_def adv_init_def adv_inv_def, rule program_step_inv [OF assms(1)])
  then have keys: "fst ` set (sessions (adv_srv p)) = dom (live p)" and fin: "adv_phase (adv_srv p) = Finished \<Longrightarrow> sessions (adv_srv p) = []"
    by (simp_all add: linked_def adv_inv_def)
  have "dom (live p) = {}" if "adv_phase (adv_srv p) = Finished" using keys fin [OF that] by simp
  with keys show ?thesis by simp
qed

text \<open>Filters as the library defines them.\<close>

definition asio_filters :: cancel_lib where
  "asio_filters =
     \<lparr>cl_emit = (\<lambda>f ty c. c OR (ty AND (case f of EnableTerminal \<Rightarrow> 1 | EnablePartial \<Rightarrow> 3 | EnableTotal \<Rightarrow> 7))),
      cl_reset = (\<lambda>f c. 0)\<rparr>"

lemma asio_filters_ok: "filter_ok asio_enum asio_filters"
  unfolding filter_ok_def
proof (intro conjI ballI allI)
  fix f
  show "pass asio_enum asio_filters f (ct_terminal asio_enum) = ct_terminal asio_enum"
    by (cases f) (simp_all add: asio_filters_def asio_enum_def)
qed (auto simp: asio_filters_def asio_enum_def)

theorem adv_program_linked_witness:
  "dom (live (snd (steps (with_signal_handling_step asio_enum asio_filters rendezvous 100) (signal_main asio_enum asio_filters (False, False))
     [GotAccept Success ''a'', GotSignal Success SIGTSTP, GotAccept Success ''b'']))) = {0, 1}"
proof -
  let ?es = "[GotAccept Success ''a'', GotSignal Success SIGTSTP, GotAccept Success ''b'']"
  obtain as p where r: "steps (with_signal_handling_step asio_enum asio_filters rendezvous 100)
      (signal_main asio_enum asio_filters (False, False)) ?es = (as, p)" by fastforce
  note l = adv_program_linked [OF rendezvous_ok r]
  have "sessions (adv_srv p) = [(0, ()), (1, ())]"
    using r by (auto simp: with_signal_handling_step_def signal_turn_def signal_handling_def signal_type_def
        server_turn_def adv_accepted_def adv_register_def adv_forward_def adv_accept_def signal_main_def adv_init_def
        asio_enum_def asio_filters_def cs_reset_def cs_new_def cs_emit_def emplace_def adv_session_start_def)
  with l r show ?thesis by simp
qed



end
