(* ===== verification/Promise_Servers.thy ===== *)
theory Promise_Servers
  imports Session_Registry Echo_Sessions Formatters
begin

text \<open>
  The servers of \<open>cancellation/\<close> that own their sessions through \<open>experimental::promise\<close>:
  \<open>echo_coro_signal_cancellation.cpp\<close> (the table is a local variable of the accept loop) and
  \<open>echo_class.cpp\<close> (the table is a member of a class that may be destroyed while its coroutine is
  suspended). In both, a session removes itself from the table when it ends, but the table may be
  gone by then. The state records whether the table exists and whether it was ever used after its
  end (\<open>fault\<close>).

  Documented behaviour of the library that the model uses: destroying or cancelling a promise emits
  \<open>cancellation_type::all\<close> to its operation, and the state of a coroutine accepts terminal
  cancellation only unless it says otherwise and accumulates what it accepts (the parameter
  \<open>ct_received\<close> of \<open>cancel_enum\<close>, with its law in \<open>cancel_enum_ok\<close>).
\<close>

section \<open>State\<close>

record promise_server =
  promises :: "unit table"
  alive :: bool
  prom_next :: size_t
  accepting :: bool
  self_cancelled :: cancellation_type
  running :: "(size_t \<times> cancellation_type) list"
  fault :: bool

text \<open>\<open>running\<close>: the session tasks that have not ended, each with its own \<open>cs.cancelled()\<close>.\<close>

abbreviation accept_cancel :: "cancel_enum \<Rightarrow> cancellation_type \<Rightarrow> cancellation_type \<Rightarrow> cancellation_type" where
  "accept_cancel E ty cancelled \<equiv> ct_received E ty cancelled"

definition prom_init :: "cancel_enum \<Rightarrow> promise_server" where
  "prom_init E = \<lparr>promises = [], alive = True, prom_next = 0, accepting = True,
     self_cancelled = ct_none E, running = [], fault = False\<rparr>"

definition use_table :: "promise_server \<Rightarrow> promise_server" where
  "use_table st = st\<lparr>fault := fault st \<or> \<not> alive st\<rparr>"

text \<open>The destruction of all promises of the table.\<close>

definition cancel_tasks :: "cancel_enum \<Rightarrow> size_t list \<Rightarrow> (size_t \<times> cancellation_type) list
    \<Rightarrow> (size_t \<times> cancellation_type) list" where
  "cancel_tasks E ks rs = map (\<lambda>(k, c). (k, if k \<in> set ks then accept_cancel E (ct_all E) c else c)) rs"

definition drop_table :: "cancel_enum \<Rightarrow> promise_server \<Rightarrow> promise_server" where
  "drop_table E st = st\<lparr>promises := [], alive := False,
     running := cancel_tasks E (map fst (promises st)) (running st)\<rparr>"

text \<open>\<open>sessions.emplace(id, co_spawn(ex, std::move(task), use_promise)); ++id\<close>. If the identifier is in
  use (after \<open>2 ^ 64\<close> connections) the new promise is destroyed at once.\<close>

definition spawn_task :: "cancel_enum \<Rightarrow> promise_server \<Rightarrow> promise_server" where
  "spawn_task E st =
     (let st = use_table st; k = prom_next st;
          c = (if k \<in> fst ` set (promises st) then accept_cancel E (ct_all E) (ct_none E) else ct_none E)
      in st\<lparr>promises := emplace k () (promises st), running := (k, c) # running st, prom_next := k + 1\<rparr>)"

text \<open>The end of a task: a cancelled one returns without touching the table.\<close>

definition task_done :: "cancel_enum \<Rightarrow> size_t \<Rightarrow> promise_server \<Rightarrow> promise_server" where
  "task_done E k st =
     (case map_of (running st) k of
        None \<Rightarrow> st
      | Some c \<Rightarrow>
          let st' = st\<lparr>running := erase k (running st)\<rparr>
          in if c \<noteq> ct_none E then st'
             else (let st'' = use_table st' in st''\<lparr>promises := erase k (promises st'')\<rparr>))"

section \<open>echo\_coro\_signal\_cancellation.cpp\<close>

datatype 'sock prom_event =
    PromAccepted error_code 'sock
  | PromCancel cancellation_type
  | PromTaskDone size_t

datatype 'sock prom_action = PromAccept | PromSpawn size_t 'sock | PromRejected

text \<open>The session.\<close>

definition prom_session :: "(echo_state, stream_event, stream_op, unit) body" where
  "prom_session = coro_session"

text \<open>The wrapper \<open>log_cancellation\<close>: what it emits to the task it runs, and its own result.\<close>

datatype 'r wrap_event = WrapCancelled cancellation_type | WrapDone "exn + 'r"

fun log_cancellation :: "(unit, 'r wrap_event, cancellation_type, 'r) body" where
  "log_cancellation s (WrapCancelled ct) = ([ct], Suspended s)"
| "log_cancellation s (WrapDone (Inr r)) = ([], Returned r)"
| "log_cancellation s (WrapDone (Inl x)) = ([], Threw x)"

text \<open>The accept loop. When it ends, \<open>sessions.clear()\<close> destroys the promises, and the table goes
  with the coroutine.\<close>

fun prom_step :: "cancel_enum \<Rightarrow> (promise_server, 'sock prom_event, 'sock prom_action) stepper" where
  "prom_step E st (PromAccepted ec socket) =
     (if \<not> accepting st then ([], st)
      else
        (let (as, st') = (if ec = Success then ([PromSpawn (prom_next st) socket], spawn_task E st) else ([], st))
         in if ec \<noteq> Success \<or> self_cancelled st' \<noteq> ct_none E
            then (as, drop_table E (st'\<lparr>accepting := False\<rparr>))
            else (as @ [PromAccept], st')))"
| "prom_step E st (PromCancel ty) =
     ([], if accepting st then st\<lparr>self_cancelled := accept_cancel E ty (self_cancelled st)\<rparr> else st)"
| "prom_step E st (PromTaskDone k) = ([], task_done E k st)"

text \<open>\<open>wait_for_signal\<close> ends at the first signal; \<open>with_signal_handling\<close> awaits it or the server,
  whichever ends first, and cancels the other.\<close>

definition wait_for_signal :: "(unit, error_code, unit, unit) body" where
  "wait_for_signal s ec = (if ec \<noteq> Success then ([], Threw (SystemError ec)) else ([], Returned ()))"

section \<open>echo\_class.cpp\<close>

datatype 'sock class_event =
    ClassAccepted error_code 'sock
  | ClassDestroy
  | ClassTaskDone size_t

definition class_echo :: "(echo_state, stream_event, stream_op, unit) body" where
  "class_echo = coro_session"

text \<open>The destructor cancels the accept loop; then the members are destroyed: the table, and with it
  the promises of the sessions.\<close>

definition class_destroy :: "cancel_enum \<Rightarrow> promise_server \<Rightarrow> promise_server" where
  "class_destroy E st =
     (if alive st then drop_table E (st\<lparr>self_cancelled := accept_cancel E (ct_all E) (self_cancelled st)\<rparr>) else st)"

text \<open>\<open>EchoServer::run\<close>: \<open>async_accept\<close> throws on error.\<close>

fun class_step :: "cancel_enum \<Rightarrow> (promise_server, 'sock class_event, 'sock prom_action) stepper" where
  "class_step E st (ClassAccepted ec socket) =
     (if \<not> accepting st then ([], st)
      else if ec \<noteq> Success then ([], st\<lparr>accepting := False\<rparr>)
      else if self_cancelled st \<noteq> ct_none E then ([PromRejected], st\<lparr>accepting := False\<rparr>)
      else ([PromSpawn (prom_next st) socket, PromAccept], spawn_task E st))"
| "class_step E st ClassDestroy = ([], class_destroy E st)"
| "class_step E st (ClassTaskDone k) = ([], task_done E k st)"

text \<open>\<open>wait_for_signal\<close>: the first signal destroys the server, the second ends the coroutine.\<close>

datatype class_wait = FirstSignal | SecondSignal

datatype class_action = ResetServer | WaitAgain

fun class_wait_for_signal :: "(class_wait, error_code, class_action, unit) body" where
  "class_wait_for_signal FirstSignal ec =
     (if ec \<noteq> Success then ([], Threw (SystemError ec)) else ([ResetServer, WaitAgain], Suspended SecondSignal))"
| "class_wait_for_signal SecondSignal ec =
     (if ec \<noteq> Success then ([], Threw (SystemError ec)) else ([], Returned ()))"

section \<open>Invariant\<close>

text \<open>A task that has not been cancelled is in the table, and the table exists; an uncancelled
  accept loop has its table.\<close>

definition prom_inv :: "cancel_enum \<Rightarrow> promise_server \<Rightarrow> bool" where
  "prom_inv E st \<longleftrightarrow>
     (\<forall>(k, c) \<in> set (running st). c = ct_none E \<longrightarrow> alive st \<and> k \<in> fst ` set (promises st))
     \<and> (accepting st \<and> self_cancelled st = ct_none E \<longrightarrow> alive st)
     \<and> (\<not> alive st \<longrightarrow> promises st = []) \<and> \<not> fault st"

text \<open>What a coroutine accepts by default.\<close>

definition self_filter :: "cancel_enum \<Rightarrow> cancellation_type \<Rightarrow> cancellation_type" where
  "self_filter E ty = ty AND ct_terminal E"

lemma accept_cancel_filtered: "cancel_enum_ok E \<Longrightarrow> accept_cancel E ty c = c OR self_filter E ty"
  by (simp add: cancel_enum_ok_def self_filter_def)

lemma self_filter_all: "cancel_enum_ok E \<Longrightarrow> self_filter E (ct_all E) \<noteq> ct_none E"
proof -
  assume E: "cancel_enum_ok E"
  let ?m = "ct_terminal E OR ct_partial E OR ct_total E"
  have "ct_all E AND ct_terminal E = (ct_all E AND ?m) AND ct_terminal E" by (auto simp: bit_eq_iff bit_simps)
  also have "\<dots> = ?m AND ct_terminal E" using E by (simp add: cancel_enum_ok_def)
  also have "\<dots> = ct_terminal E" by (auto simp: bit_eq_iff bit_simps)
  finally show ?thesis using E by (simp add: self_filter_def cancel_enum_ok_def)
qed

lemma accept_cancel_all: "cancel_enum_ok E \<Longrightarrow> accept_cancel E (ct_all E) c \<noteq> ct_none E"
  using self_filter_all [of E] by (simp add: accept_cancel_filtered) (simp add: cancel_enum_ok_def or_eq_0_iff)

lemma prom_init_inv: "prom_inv E (prom_init E)"
  by (simp add: prom_inv_def prom_init_def)

lemma drop_table_inv:
  assumes "cancel_enum_ok E" and "prom_inv E st" and "accepting st \<longrightarrow> self_cancelled st \<noteq> ct_none E"
  shows "prom_inv E (drop_table E st)"
  using assms accept_cancel_all [OF assms(1)]
  by (fastforce simp: prom_inv_def drop_table_def cancel_tasks_def split: if_splits)

lemma drop_table_cancels:
  assumes "cancel_enum_ok E" and "prom_inv E st" and "(k, c) \<in> set (running (drop_table E st))"
  shows "c \<noteq> ct_none E"
  using assms accept_cancel_all [OF assms(1)]
  by (fastforce simp: prom_inv_def drop_table_def cancel_tasks_def split: if_splits)

lemma spawn_task_inv:
  assumes "cancel_enum_ok E" and "prom_inv E st" and "alive st"
  shows "prom_inv E (spawn_task E st)"
  using assms accept_cancel_all [OF assms(1)]
  by (auto simp: prom_inv_def spawn_task_def use_table_def Let_def)

lemma task_done_inv: "prom_inv E st \<Longrightarrow> prom_inv E (task_done E k st)"
proof -
  assume inv: "prom_inv E st"
  show ?thesis
  proof (cases "map_of (running st) k")
    case (Some c)
    then have "(k, c) \<in> set (running st)" by (rule map_of_SomeD)
    with inv Some show ?thesis
      by (auto simp: prom_inv_def task_done_def use_table_def Let_def erase_def image_iff)
  qed (use inv in \<open>simp add: task_done_def\<close>)
qed

lemma spawn_task_simps [simp]:
  "alive (spawn_task E st) = alive st" "accepting (spawn_task E st) = accepting st"
  "self_cancelled (spawn_task E st) = self_cancelled st" "prom_next (spawn_task E st) = prom_next st + 1"
  "fst ` set (promises (spawn_task E st)) = insert (prom_next st) (fst ` set (promises st))"
  by (simp_all add: spawn_task_def use_table_def Let_def)

lemma task_done_simps [simp]:
  "alive (task_done E k st) = alive st" "accepting (task_done E k st) = accepting st"
  "self_cancelled (task_done E k st) = self_cancelled st" "prom_next (task_done E k st) = prom_next st"
  by (simp_all add: task_done_def use_table_def Let_def split: option.splits)

lemma drop_table_simps [simp]:
  "alive (drop_table E st) = False" "accepting (drop_table E st) = accepting st"
  "prom_next (drop_table E st) = prom_next st" "promises (drop_table E st) = []"
  "self_cancelled (drop_table E st) = self_cancelled st"
  by (simp_all add: drop_table_def)

lemma prom_step_inv:
  assumes "cancel_enum_ok E" and "prom_inv E st \<and> (alive st \<longleftrightarrow> accepting st)"
    and "prom_step E st ev = (as, st')"
  shows "prom_inv E st' \<and> (alive st' \<longleftrightarrow> accepting st')"
proof (cases ev)
  case (PromAccepted ec s)
  show ?thesis
  proof (cases "accepting st")
    case True
    let ?st1 = "if ec = Success then spawn_task E st else st"
    have st1: "prom_inv E ?st1" "alive ?st1" "accepting ?st1" "self_cancelled ?st1 = self_cancelled st"
      using True assms(1,2) spawn_task_inv by auto
    have "prom_inv E (?st1\<lparr>accepting := False\<rparr>)" using st1(1) by (simp add: prom_inv_def)
    then have "prom_inv E (drop_table E (?st1\<lparr>accepting := False\<rparr>))"
      by (rule drop_table_inv [OF assms(1)]) simp
    with st1 True assms(3) PromAccepted show ?thesis by (auto simp: Let_def split: if_splits)
  qed (use assms PromAccepted in auto)
next
  case (PromCancel ty)
  with assms(2,3) show ?thesis by (auto simp: prom_inv_def)
next
  case (PromTaskDone k)
  with assms(2,3) show ?thesis by (auto simp: task_done_inv)
qed

lemma class_step_inv:
  assumes "cancel_enum_ok E" and "prom_inv E st" and "class_step E st ev = (as, st')"
  shows "prom_inv E st'"
proof (cases ev)
  case (ClassAccepted ec s)
  have "prom_inv E (spawn_task E st)" if "accepting st" "self_cancelled st = ct_none E"
    using spawn_task_inv [OF assms(1,2)] assms(2) that by (simp add: prom_inv_def)
  with assms ClassAccepted show ?thesis by (auto simp: prom_inv_def split: if_splits)
next
  case ClassDestroy
  have "prom_inv E (st\<lparr>self_cancelled := accept_cancel E (ct_all E) (self_cancelled st)\<rparr>)"
    using assms(1,2) accept_cancel_all by (auto simp: prom_inv_def)
  from drop_table_inv [OF assms(1) this] assms(2,3) ClassDestroy accept_cancel_all [OF assms(1)] show ?thesis
    by (auto simp: class_destroy_def split: if_splits)
next
  case (ClassTaskDone k)
  with assms(2,3) show ?thesis by (auto simp: task_done_inv)
qed

section \<open>Identifiers\<close>

fun prom_spawns :: "'sock prom_action \<Rightarrow> size_t list" where
  "prom_spawns (PromSpawn k s) = [k]"
| "prom_spawns _ = []"

lemma task_done_keys: "fst ` set (promises (task_done E k st)) \<subseteq> fst ` set (promises st)"
  by (auto simp: task_done_def use_table_def Let_def erase_def split: option.splits)

lemma prom_step_keys:
  assumes "prom_step E st ev = (as, st')"
  shows "fst ` set (promises st') \<subseteq> fst ` set (promises st) \<union> set (ids prom_spawns as)"
proof (cases ev)
  case (PromAccepted ec s)
  with assms show ?thesis
    by (cases "accepting st"; cases "ec = Success"; cases "self_cancelled st = ct_none E")
      (simp_all add: Let_def, (elim conjE, hypsubst, simp)+)
next
  case (PromCancel ty)
  with assms show ?thesis by (simp split: if_splits) (elim conjE, hypsubst, simp)+
next
  case (PromTaskDone k)
  with assms have "st' = task_done E k st" by simp
  with task_done_keys [of E k st] show ?thesis by (simp add: le_supI1)
qed

lemma class_step_keys:
  assumes "class_step E st ev = (as, st')"
  shows "fst ` set (promises st') \<subseteq> fst ` set (promises st) \<union> set (ids prom_spawns as)"
proof (cases ev)
  case (ClassAccepted ec s)
  with assms show ?thesis
    by (cases "accepting st"; cases "ec = Success"; cases "self_cancelled st = ct_none E")
      (simp_all, (elim conjE, hypsubst, simp)+)
next
  case ClassDestroy
  with assms have "st' = class_destroy E st" by simp
  then show ?thesis by (cases "alive st") (simp_all add: class_destroy_def)
next
  case (ClassTaskDone k)
  with assms have "st' = task_done E k st" by simp
  with task_done_keys [of E k st] show ?thesis by (simp add: le_supI1)
qed

interpretation prom_ids: session_ids "prom_step E" "\<lambda>st. map fst (promises st)" prom_next prom_spawns "\<lambda>_. []" for E
proof unfold_locales
  fix st :: promise_server and ev :: "'a prom_event" and as st'
  assume s: "prom_step E st ev = (as, st')"
  show "ids prom_spawns as = [] \<and> prom_next st' = prom_next st
      \<or> ids prom_spawns as = [prom_next st] \<and> prom_next st' = prom_next st + 1"
    using s by (cases ev) (auto simp: Let_def split: if_splits)
  show "set (map fst (promises st')) \<subseteq> set (map fst (promises st)) \<union> set (ids prom_spawns as) - set []"
    using prom_step_keys [OF s] by simp
qed

interpretation class_ids: session_ids "class_step E" "\<lambda>st. map fst (promises st)" prom_next prom_spawns "\<lambda>_. []" for E
proof unfold_locales
  fix st :: promise_server and ev :: "'a class_event" and as st'
  assume s: "class_step E st ev = (as, st')"
  show "ids prom_spawns as = [] \<and> prom_next st' = prom_next st
      \<or> ids prom_spawns as = [prom_next st] \<and> prom_next st' = prom_next st + 1"
    using s by (cases ev) (auto simp: class_destroy_def split: if_splits)
  show "set (map fst (promises st')) \<subseteq> set (map fst (promises st)) \<union> set (ids prom_spawns as) - set []"
    using class_step_keys [OF s] by simp
qed

section \<open>Properties\<close>

text \<open>C13: The table of \<open>echo_coro_signal_cancellation.cpp\<close> is never used after the accept loop has
  ended: in every run, a session that ends later sees that it was cancelled and leaves the table
  alone. Once the loop has ended, every task still running has been cancelled, and identifiers are
  distinct (up to \<open>2 ^ 64\<close> connections).\<close>

theorem prom_server_no_dangling:
  assumes "cancel_enum_ok E" and "steps (prom_step E) (prom_init E) es = (as, st)"
  shows "\<not> fault st
    \<and> (\<not> accepting st \<longrightarrow> promises st = [] \<and> (\<forall>(k, c) \<in> set (running st). c \<noteq> ct_none E))
    \<and> (length (ids prom_spawns as) \<le> 2 ^ 64 \<longrightarrow> distinct (ids prom_spawns as))"
proof -
  have "prom_inv E st \<and> (alive st \<longleftrightarrow> accepting st)"
    by (rule steps_invariant [OF assms(2)], simp add: prom_init_inv, simp add: prom_init_def,
        rule prom_step_inv [OF assms(1)])
  then show ?thesis using prom_ids.ids_distinct [OF assms(2)] by (auto simp: prom_inv_def)
qed

theorem prom_server_no_dangling_witness:
  "\<not> fault (snd (steps (prom_step asio_enum) (prom_init asio_enum)
     [PromAccepted Success ''a'', PromCancel 1, PromAccepted Success ''b'', PromTaskDone 0, PromTaskDone 1]))"
proof -
  obtain as st where "steps (prom_step asio_enum) (prom_init asio_enum)
     [PromAccepted Success ''a'', PromCancel 1, PromAccepted Success ''b'', PromTaskDone 0, PromTaskDone 1] = (as, st)"
    by fastforce
  from prom_server_no_dangling [OF asio_enum_ok this] this show ?thesis by simp
qed

text \<open>C12: Destroying the server object of \<open>echo_class.cpp\<close> is safe at any moment: no coroutine uses
  the table of a destroyed server, not even when an accept has already succeeded. After the
  destruction every running session has been cancelled, and the accept loop starts no other: the
  next completion of \<open>async_accept\<close> ends it.\<close>

theorem class_server_destroy:
  assumes "cancel_enum_ok E" and "steps (class_step E) (prom_init E) es = (as, st)"
  shows "\<not> fault st
    \<and> (\<not> alive st \<longrightarrow> (\<forall>(k, c) \<in> set (running st). c \<noteq> ct_none E)
         \<and> ids prom_spawns (fst (class_step E st (ClassAccepted ec s))) = []
         \<and> \<not> accepting (snd (class_step E st (ClassAccepted ec s))))
    \<and> \<not> alive (snd (class_step E st ClassDestroy))"
proof -
  have "prom_inv E st"
    by (rule steps_invariant [OF assms(2)], rule prom_init_inv, rule class_step_inv [OF assms(1)])
  then show ?thesis by (auto simp: prom_inv_def class_destroy_def)
qed

theorem class_server_destroy_witness:
  "\<not> fault (snd (steps (class_step asio_enum) (prom_init asio_enum)
     [ClassAccepted Success ''a'', ClassDestroy, ClassAccepted Success ''b'', ClassTaskDone 0]))"
proof -
  obtain as st where "steps (class_step asio_enum) (prom_init asio_enum)
     [ClassAccepted Success ''a'', ClassDestroy, ClassAccepted Success ''b'', ClassTaskDone 0] = (as, st)"
    by fastforce
  from class_server_destroy [OF asio_enum_ok this, of Eof "''c''"] this show ?thesis by simp
qed

end
