(* ===== verification/Promise_Programs.thy ===== *)
theory Promise_Programs
  imports Promise_Servers
begin

text \<open>
  \<open>cancellation/echo_coro_signal_cancellation.cpp\<close> and \<open>cancellation/echo_class.cpp\<close> as whole programs: the wait
  for signals, the accept loop and the coroutines of the sessions, connected by promises and
  cancellation slots. The accept loops and the table of promises are those of \<open>Promise_Servers\<close>; here the
  sessions run, and a cancellation that reaches a task travels to the coroutine that reads and writes.

  Two things belong to the library and are parameters: \<open>thr\<close> says for which value of
  \<open>cs.cancelled()\<close> the next \<open>co_await\<close> of a coroutine throws (\<open>throws_ok\<close> is the documented default,
  \<open>throw_if_cancelled(true)\<close>), and \<open>cond\<close> is the completion condition of \<open>||\<close>, the type that it emits to the
  other operand when one operand ends (\<open>wait_for_one_success_ok\<close>). When a pending operation completes
  after its cancellation, and how, is an input.
\<close>

section \<open>Session tasks\<close>

text \<open>A task is a lambda that awaits the echo coroutine in a coroutine of its own. It has been
  spawned but not started, or its echo coroutine waits for a completion.\<close>

datatype task_state = NotStarted | InSession echo_state

datatype task_event = TaskStarts | TaskResumed stream_event

definition throws_ok :: "cancel_enum \<Rightarrow> (cancellation_type \<Rightarrow> bool) \<Rightarrow> bool" where
  "throws_ok E thr \<longleftrightarrow> (\<forall>c. thr c \<longleftrightarrow> c \<noteq> ct_none E)"

text \<open>A \<open>co_await\<close> that throws does not initiate its operation.\<close>

definition throw_if_cancelled :: "bool \<Rightarrow> ('s, 'e, 'a, 'r) body \<Rightarrow> ('s, 'e, 'a, 'r) body" where
  "throw_if_cancelled thrown f s e =
     (case f s e of
        (as, Suspended s') \<Rightarrow> if thrown then ([], Threw (SystemError OperationAborted)) else (as, Suspended s')
      | r \<Rightarrow> r)"

fun awaits :: "echo_state \<Rightarrow> stream_event \<Rightarrow> bool" where
  "awaits AtRead (ReadDone ec bs) = True"
| "awaits AtWrite (WriteDone ec n) = True"
| "awaits s e = False"

text \<open>How a cancellation \<open>c\<close> accepted by the task arrives at the echo coroutine: directly
  (\<open>echo_class.cpp\<close>), or through \<open>log_cancellation\<close>, which forwards it.\<close>

definition inner_cancelled :: "cancel_enum \<Rightarrow> cancellation_type \<Rightarrow> cancellation_type" where
  "inner_cancelled E c = accept_cancel E c (ct_none E)"

definition logged_cancelled :: "cancel_enum \<Rightarrow> cancellation_type \<Rightarrow> cancellation_type" where
  "logged_cancelled E c =
     foldl (\<lambda>cs ty. accept_cancel E ty cs) (ct_none E)
       (fst (log_cancellation () (WrapCancelled (inner_cancelled E c) :: unit wrap_event)))"

text \<open>The task: \<open>as_tuple\<close> turns the exception of the echo coroutine into a value, so that the task goes on
  to its last statements and returns. A task that is cancelled before it starts throws at its first
  \<open>co_await\<close> of an operation.\<close>

fun task_resume ::
  "(cancellation_type \<Rightarrow> bool) \<Rightarrow> (cancellation_type \<Rightarrow> cancellation_type) \<Rightarrow> (echo_state, stream_event, stream_op, unit) body
    \<Rightarrow> cancellation_type \<Rightarrow> (task_state, task_event, stream_op, unit) body" where
  "task_resume thr pass echo c NotStarted TaskStarts =
     (if thr c then ([], Threw (SystemError OperationAborted)) else (fst coro_start, Suspended (InSession AtRead)))"
| "task_resume thr pass echo c (InSession s) (TaskResumed e) =
     (if \<not> awaits s e then ([], Suspended (InSession s))
      else (case throw_if_cancelled (thr (pass c)) echo s e of
              (ops, Suspended s') \<Rightarrow> (ops, Suspended (InSession s'))
            | (ops, _) \<Rightarrow> (ops, Returned ())))"
| "task_resume thr pass echo c s e = ([], Suspended s)"

section \<open>Programs\<close>

record 'w promise_program =
  pp_server :: promise_server
  pp_tasks :: "size_t \<Rightarrow> task_state option"
  pp_signals :: "('w, unit) ctl"

datatype 'sock pp_event =
    PPSignal error_code
  | PPAccept error_code 'sock
  | PPTask size_t task_event

datatype 'sock pp_action =
    AcceptLoop "'sock prom_action"
  | TaskDoes size_t stream_op
  | SignalWait
  | DestroyServer
  | CancelSignalWait cancellation_type

definition task_turn ::
  "cancel_enum \<Rightarrow> (cancellation_type \<Rightarrow> bool) \<Rightarrow> (cancellation_type \<Rightarrow> cancellation_type)
    \<Rightarrow> (echo_state, stream_event, stream_op, unit) body \<Rightarrow> size_t \<Rightarrow> task_event \<Rightarrow> 'w promise_program
    \<Rightarrow> 'sock pp_action list \<times> 'w promise_program" where
  "task_turn E thr pass echo k e p =
     (case (pp_tasks p k, map_of (running (pp_server p)) k) of
        (Some s, Some c) \<Rightarrow>
          (case task_resume thr pass echo c s e of
             (ops, Suspended s') \<Rightarrow> (map (TaskDoes k) ops, p\<lparr>pp_tasks := (pp_tasks p)(k \<mapsto> s')\<rparr>)
           | (ops, _) \<Rightarrow> (map (TaskDoes k) ops,
               p\<lparr>pp_tasks := (pp_tasks p)(k := None), pp_server := task_done E k (pp_server p)\<rparr>))
      | _ \<Rightarrow> ([], p))"

fun spawn_effect :: "'sock prom_action \<Rightarrow> (size_t \<Rightarrow> task_state option) \<Rightarrow> size_t \<Rightarrow> task_state option" where
  "spawn_effect (PromSpawn k sock) ts = ts(k \<mapsto> NotStarted)"
| "spawn_effect _ ts = ts"

definition accept_result ::
  "'sock prom_action list \<times> promise_server \<Rightarrow> 'w promise_program \<Rightarrow> 'sock pp_action list \<times> 'w promise_program" where
  "accept_result r p =
     (case r of (as, srv) \<Rightarrow>
        (map AcceptLoop as, p\<lparr>pp_server := srv, pp_tasks := foldl (\<lambda>ts a. spawn_effect a ts) (pp_tasks p) as\<rparr>))"

text \<open>\<open>context.run()\<close> returns when there is no work left.\<close>

definition pp_done :: "'w promise_program \<Rightarrow> bool" where
  "pp_done p \<longleftrightarrow> \<not> accepting (pp_server p) \<and> running (pp_server p) = [] \<and> finished (pp_signals p)"

subsection \<open>echo\_coro\_signal\_cancellation.cpp\<close>

type_synonym or_condition = "exception_ptr \<Rightarrow> cancellation_type"

definition wait_for_one_success_ok :: "cancel_enum \<Rightarrow> or_condition \<Rightarrow> bool" where
  "wait_for_one_success_ok E cond \<longleftrightarrow> cond None = ct_all E \<and> (\<forall>x. cond (Some x) = ct_none E)"

text \<open>\<open>co_await (std::move(task) || wait_for_signal())\<close>: the operand that ends makes \<open>||\<close> emit a type to the
  other one. The accept loop always returns normally.\<close>

fun ended_with :: "('w, unit) ctl \<Rightarrow> exception_ptr" where
  "ended_with (Threw x) = Some x"
| "ended_with _ = None"

fun prom_program ::
  "cancel_enum \<Rightarrow> or_condition \<Rightarrow> (cancellation_type \<Rightarrow> bool) \<Rightarrow> (unit promise_program, 'sock pp_event, 'sock pp_action) stepper" where
  "prom_program E cond thr p (PPSignal ec) =
     (if finished (pp_signals p) then ([], p)
      else (case drive wait_for_signal (pp_signals p) [ec] of
              (_, c) \<Rightarrow> ([], p\<lparr>pp_signals := c,
                 pp_server := snd (prom_step E (pp_server p) (PromCancel (cond (ended_with c)) :: 'sock prom_event))\<rparr>)))"
| "prom_program E cond thr p (PPAccept ec sock) =
     (case accept_result (prom_step E (pp_server p) (PromAccepted ec sock)) p of
        (as, p') \<Rightarrow>
          (as @ (if accepting (pp_server p) \<and> \<not> accepting (pp_server p') \<and> \<not> finished (pp_signals p)
                 then [CancelSignalWait (cond None)] else []), p'))"
| "prom_program E cond thr p (PPTask k e) = task_turn E thr (logged_cancelled E) prom_session k e p"

text \<open>\<open>main\<close>: both operands have been started and wait for a connection and a signal.\<close>

definition prom_main :: "cancel_enum \<Rightarrow> unit promise_program" where
  "prom_main E = \<lparr>pp_server = prom_init E, pp_tasks = Map.empty, pp_signals = Suspended ()\<rparr>"

subsection \<open>echo\_class.cpp\<close>

text \<open>\<open>server.reset()\<close> runs the destructor of \<open>EchoServer\<close>.\<close>

fun class_effect :: "cancel_enum \<Rightarrow> class_action \<Rightarrow> class_wait promise_program \<Rightarrow> class_wait promise_program" where
  "class_effect E ResetServer p =
     p\<lparr>pp_server := snd (class_step E (pp_server p) (ClassDestroy :: unit class_event))\<rparr>"
| "class_effect E WaitAgain p = p"

fun class_act :: "class_action \<Rightarrow> 'sock pp_action" where
  "class_act ResetServer = DestroyServer"
| "class_act WaitAgain = SignalWait"

fun class_program ::
  "cancel_enum \<Rightarrow> (cancellation_type \<Rightarrow> bool) \<Rightarrow> (class_wait promise_program, 'sock pp_event, 'sock pp_action) stepper" where
  "class_program E thr p (PPSignal ec) =
     (case drive class_wait_for_signal (pp_signals p) [ec] of
        (as, c) \<Rightarrow> (map class_act as, foldl (\<lambda>p a. class_effect E a p) (p\<lparr>pp_signals := c\<rparr>) as))"
| "class_program E thr p (PPAccept ec sock) = accept_result (class_step E (pp_server p) (ClassAccepted ec sock)) p"
| "class_program E thr p (PPTask k e) = task_turn E thr (inner_cancelled E) class_echo k e p"

text \<open>\<open>main\<close>: the server object has been constructed, which starts \<open>run\<close>; \<open>wait_for_signal\<close> has been spawned.\<close>

definition class_main :: "cancel_enum \<Rightarrow> class_wait promise_program" where
  "class_main E = \<lparr>pp_server = prom_init E, pp_tasks = Map.empty, pp_signals = Suspended FirstSignal\<rparr>"


section \<open>Invariant of both programs\<close>

text \<open>The table of promises is in order, exactly the running tasks have a coroutine, and every
  \<open>cs.cancelled()\<close> went through the default filter.\<close>

definition filtered :: "cancel_enum \<Rightarrow> promise_server \<Rightarrow> bool" where
  "filtered E st \<longleftrightarrow> (\<forall>c \<in> snd ` set (running st). self_filter E c = c)"

definition pp_inv :: "cancel_enum \<Rightarrow> 'w promise_program \<Rightarrow> bool" where
  "pp_inv E p \<longleftrightarrow> prom_inv E (pp_server p) \<and> dom (pp_tasks p) = fst ` set (running (pp_server p))
     \<and> filtered E (pp_server p)"

definition all_cancelled :: "cancel_enum \<Rightarrow> promise_server \<Rightarrow> bool" where
  "all_cancelled E st \<longleftrightarrow> (\<forall>c \<in> snd ` set (running st). c \<noteq> ct_none E)"

lemma pp_inv_signals [simp]: "pp_inv E (p\<lparr>pp_signals := c\<rparr>) = pp_inv E p"
  by (simp add: pp_inv_def)

lemma self_filter_none: "cancel_enum_ok E \<Longrightarrow> self_filter E (ct_none E) = ct_none E"
  by (simp add: self_filter_def cancel_enum_ok_def)

lemma self_filter_accept:
  "cancel_enum_ok E \<Longrightarrow> self_filter E c = c \<Longrightarrow> self_filter E (accept_cancel E ty c) = accept_cancel E ty c"
  by (simp add: self_filter_def accept_cancel_filtered bit_eq_iff bit_simps) blast

lemma running_spawn:
  "fst ` set (running (spawn_task E st)) = insert (prom_next st) (fst ` set (running st))"
  by (simp add: spawn_task_def use_table_def Let_def)

lemma filtered_spawn:
  assumes "cancel_enum_ok E" and "filtered E st"
  shows "filtered E (spawn_task E st)"
  using assms self_filter_accept [OF assms(1) self_filter_none [OF assms(1)]] self_filter_none [OF assms(1)]
  by (auto simp: filtered_def spawn_task_def use_table_def Let_def)

lemma running_done: "fst ` set (running (task_done E k st)) = fst ` set (running st) - {k}"
proof (cases "map_of (running st) k")
  case None
  then have "k \<notin> fst ` set (running st)" by (simp add: map_of_eq_None_iff)
  with None show ?thesis by (simp add: task_done_def)
qed (simp add: task_done_def Let_def use_table_def)

lemma running_done_subset: "set (running (task_done E k st)) \<subseteq> set (running st)"
  by (auto simp: task_done_def use_table_def Let_def erase_def split: option.splits)

lemma running_drop: "fst ` set (running (drop_table E st)) = fst ` set (running st)"
  by (force simp: drop_table_def cancel_tasks_def image_iff)

lemma filtered_drop:
  assumes "cancel_enum_ok E" and "filtered E st"
  shows "filtered E (drop_table E st)"
  using assms(2) self_filter_accept [OF assms(1)] by (fastforce simp: filtered_def drop_table_def cancel_tasks_def)

lemma drop_all_cancelled:
  assumes "cancel_enum_ok E" and "prom_inv E st"
  shows "all_cancelled E (drop_table E st)"
  using drop_table_cancels [OF assms] by (auto simp: all_cancelled_def)

text \<open>A task that ends, and one that goes on.\<close>

lemma done_inv:
  assumes "pp_inv E p"
  shows "pp_inv E (p\<lparr>pp_tasks := (pp_tasks p)(k := None), pp_server := task_done E k (pp_server p)\<rparr>)"
  using assms task_done_inv [of E "pp_server p" k] running_done_subset [of E k "pp_server p"]
  by (auto simp: pp_inv_def filtered_def running_done)

lemma task_turn_inv:
  assumes "pp_inv E p" and "task_turn E thr pass echo k e p = (as, p')"
  shows "pp_inv E p'"
proof (cases "pp_tasks p k")
  case (Some s)
  have d: "dom ((pp_tasks p)(k \<mapsto> s')) = dom (pp_tasks p)" for s' using Some by auto
  show ?thesis
  proof (cases "map_of (running (pp_server p)) k")
    case c: (Some c)
    obtain ops ct where r: "task_resume thr pass echo c s e = (ops, ct)" by fastforce
    show ?thesis
    proof (cases ct)
      case (Suspended s')
      with r c Some assms(2) have "p' = p\<lparr>pp_tasks := (pp_tasks p)(k \<mapsto> s')\<rparr>" by (simp add: task_turn_def)
      with assms(1) d show ?thesis by (simp add: pp_inv_def)
    qed (use r c Some assms done_inv [OF assms(1), of k] in \<open>auto simp: task_turn_def\<close>)
  qed (use Some assms in \<open>simp add: task_turn_def\<close>)
qed (use assms in \<open>simp add: task_turn_def\<close>)

lemma accepted_inv:
  assumes "cancel_enum_ok E" and "pp_inv E p" and "alive (pp_server p)"
  shows "pp_inv E (p\<lparr>pp_server := spawn_task E (pp_server p),
                       pp_tasks := (pp_tasks p)(prom_next (pp_server p) \<mapsto> NotStarted)\<rparr>)"
  using assms spawn_task_inv [OF assms(1)] filtered_spawn [OF assms(1)] by (simp add: pp_inv_def running_spawn)

lemma drop_inv:
  assumes "cancel_enum_ok E" and "pp_inv E p" and "accepting (pp_server p) \<longrightarrow> self_cancelled (pp_server p) \<noteq> ct_none E"
  shows "pp_inv E (p\<lparr>pp_server := drop_table E (pp_server p)\<rparr>)"
  using assms drop_table_inv [OF assms(1)] filtered_drop by (simp add: pp_inv_def running_drop)

section \<open>Cancelled tasks\<close>

fun task_awaits :: "task_state \<Rightarrow> task_event \<Rightarrow> bool" where
  "task_awaits NotStarted TaskStarts = True"
| "task_awaits (InSession s) (TaskResumed e) = awaits s e"
| "task_awaits s e = False"

fun task_ops :: "'sock pp_action \<Rightarrow> stream_op list" where
  "task_ops (TaskDoes k op) = [op]"
| "task_ops _ = []"

definition all_ops :: "'sock pp_action list \<Rightarrow> stream_op list" where
  "all_ops as = concat (map task_ops as)"

lemma task_ops_class_act [simp]: "task_ops (class_act c) = []"
  by (cases c) auto

lemma all_ops_simps [simp]:
  "all_ops [] = []" "all_ops (a # as) = task_ops a @ all_ops as" "all_ops (as @ bs) = all_ops as @ all_ops bs"
  "all_ops (map AcceptLoop acts) = []" "all_ops (map class_act cs) = []"
  by (simp_all add: all_ops_def)

lemma coro_session_thrown:
  "awaits s e \<Longrightarrow> \<exists>x. throw_if_cancelled True coro_session s e = ([], Threw x)"
  by (cases "(s, e)" rule: awaits.cases) (simp_all add: throw_if_cancelled_def)

text \<open>The task of a cancelled session ends with the next completion, whatever that is, and without another
  operation.\<close>

lemma cancelled_task_resume:
  assumes "thr c" and "thr (pass c)"
  shows "task_awaits s e \<Longrightarrow> \<exists>x. task_resume thr pass coro_session c s e = ([], x) \<and> finished x"
    and "\<not> task_awaits s e \<Longrightarrow> task_resume thr pass coro_session c s e = ([], Suspended s)"
proof -
  assume a: "task_awaits s e"
  show "\<exists>x. task_resume thr pass coro_session c s e = ([], x) \<and> finished x"
  proof (cases "(s, e)" rule: task_awaits.cases)
    case (2 s' e')
    with a obtain x where "throw_if_cancelled True coro_session s' e' = ([], Threw x)"
      using coro_session_thrown by auto
    with 2 a assms show ?thesis by simp
  qed (use a assms in auto)
next
  assume "\<not> task_awaits s e"
  then show "task_resume thr pass coro_session c s e = ([], Suspended s)"
    by (cases "(s, e)" rule: task_awaits.cases) auto
qed

lemma inner_cancelled_accepted:
  "cancel_enum_ok E \<Longrightarrow> self_filter E c = c \<Longrightarrow> inner_cancelled E c = c"
  by (simp add: inner_cancelled_def accept_cancel_filtered) (simp add: cancel_enum_ok_def)

lemma logged_cancelled_accepted:
  "cancel_enum_ok E \<Longrightarrow> self_filter E c = c \<Longrightarrow> logged_cancelled E c = c"
  by (simp add: logged_cancelled_def inner_cancelled_accepted) (simp add: accept_cancel_filtered, simp add: cancel_enum_ok_def)

lemma cancelled_task_turn:
  assumes "throws_ok E thr" and "\<And>c. self_filter E c = c \<Longrightarrow> pass c = c"
    and "pp_inv E p" and "all_cancelled E (pp_server p)"
    and "task_turn E thr pass coro_session k e p = (as, p')"
  shows "as = [] \<and> all_cancelled E (pp_server p') \<and> pp_signals p' = pp_signals p
    \<and> accepting (pp_server p') = accepting (pp_server p) \<and> self_cancelled (pp_server p') = self_cancelled (pp_server p)
    \<and> pp_tasks p' = (\<lambda>j. case pp_tasks p j of Some s \<Rightarrow> if j = k \<and> task_awaits s e then None else Some s | None \<Rightarrow> None)"
proof (cases "pp_tasks p k")
  case None
  with assms(4,5) show ?thesis by (auto simp: task_turn_def fun_eq_iff split: option.splits)
next
  case (Some s)
  then have "k \<in> fst ` set (running (pp_server p))" using assms(3) by (auto simp: pp_inv_def)
  then obtain c where c: "map_of (running (pp_server p)) k = Some c" by (metis map_of_eq_None_iff not_Some_eq)
  then have "c \<in> snd ` set (running (pp_server p))" by (force dest: map_of_SomeD)
  with assms(3,4) have "self_filter E c = c" "c \<noteq> ct_none E" by (auto simp: pp_inv_def filtered_def all_cancelled_def)
  then have t: "thr c" "thr (pass c)" using assms(1,2) by (simp_all add: throws_ok_def)
  show ?thesis
  proof (cases "task_awaits s e")
    case True
    then obtain x where x: "task_resume thr pass coro_session c s e = ([], x)" "finished x"
      using cancelled_task_resume(1) [of thr c pass, OF t] by blast
    with c Some assms(5) have "as = []"
      "p' = p\<lparr>pp_tasks := (pp_tasks p)(k := None), pp_server := task_done E k (pp_server p)\<rparr>"
      by (cases x; simp add: task_turn_def)+
    with True Some assms(4) running_done_subset [of E k "pp_server p"] show ?thesis
      by (fastforce simp: all_cancelled_def fun_eq_iff split: option.splits)
  next
    case False
    with cancelled_task_resume(2) [of thr c pass, OF t False] c Some assms(4,5) show ?thesis
      by (auto simp: task_turn_def fun_eq_iff split: option.splits)
  qed
qed

section \<open>Interface: shutting down\<close>

text \<open>A task gets the completion it waits for somewhere in the events.\<close>

definition answered :: "'sock pp_event list \<Rightarrow> size_t \<Rightarrow> task_state \<Rightarrow> bool" where
  "answered es k s \<longleftrightarrow> (\<exists>e. PPTask k e \<in> set es \<and> task_awaits s e)"

lemma answered_Nil [simp]: "\<not> answered [] k s"
  by (simp add: answered_def)

lemma answered_Cons:
  "answered (ev # es) k s \<longleftrightarrow> (\<exists>e. ev = PPTask k e \<and> task_awaits s e) \<or> answered es k s"
  by (auto simp: answered_def)

definition remaining :: "'sock pp_event list \<Rightarrow> (size_t \<Rightarrow> task_state option) \<Rightarrow> size_t \<Rightarrow> task_state option" where
  "remaining es ts k = (case ts k of Some s \<Rightarrow> if answered es k s then None else Some s | None \<Rightarrow> None)"

text \<open>\<open>shut\<close> describes the states of a program that shuts down: its tasks have been cancelled and no
  task is started any more.\<close>

locale promise_shutdown =
  fixes step :: "('w promise_program, 'sock pp_event, 'sock pp_action) stepper"
    and shut :: "'w promise_program \<Rightarrow> bool"
  assumes task: "shut p \<Longrightarrow> step p (PPTask k e) = (as, p') \<Longrightarrow>
      shut p' \<and> all_ops as = [] \<and> pp_tasks p' = remaining [PPTask k e :: 'sock pp_event] (pp_tasks p)"
    and signal: "shut p \<Longrightarrow> step p (PPSignal ec) = (as, p') \<Longrightarrow>
      shut p' \<and> all_ops as = [] \<and> pp_tasks p' = pp_tasks p"
    and accept: "shut p \<Longrightarrow> step p (PPAccept ec sock) = (as, p') \<Longrightarrow>
      shut p' \<and> all_ops as = [] \<and> pp_tasks p' = pp_tasks p"
begin

lemma remaining_Cons: "remaining (ev # es) ts = remaining es (remaining [ev] ts)"
  by (auto simp: remaining_def fun_eq_iff answered_Cons split: option.splits)

lemma remaining_other: "(\<And>k e. ev \<noteq> PPTask k e) \<Longrightarrow> remaining [ev] ts = ts"
  by (auto simp: remaining_def fun_eq_iff answered_def split: option.splits)

lemma shutdown_step:
  assumes "shut p" and "step p ev = (as, p')"
  shows "shut p' \<and> all_ops as = [] \<and> pp_tasks p' = remaining [ev] (pp_tasks p)"
proof (cases ev)
  case (PPSignal ec)
  with signal [OF assms(1)] assms(2) show ?thesis by (simp add: remaining_other)
next
  case (PPAccept ec sock)
  with accept [OF assms(1)] assms(2) show ?thesis by (simp add: remaining_other)
next
  case (PPTask k e)
  with task [OF assms(1)] assms(2) show ?thesis by simp
qed

text \<open>Whatever the order of completions, no operation is started and a task is left only if it has
  got no completion.\<close>

lemma shutdown_run:
  "steps step p es = (as, p') \<Longrightarrow> shut p \<Longrightarrow> shut p' \<and> all_ops as = [] \<and> pp_tasks p' = remaining es (pp_tasks p)"
proof (induction es arbitrary: p as)
  case Nil
  then show ?case by (auto simp: remaining_def fun_eq_iff split: option.splits)
next
  case (Cons ev es)
  obtain as1 p1 where s: "step p ev = (as1, p1)" by fastforce
  obtain as2 where r: "steps step p1 es = (as2, p')" "as = as1 @ as2" using Cons.prems(1) s by (auto split: prod.splits)
  from shutdown_step [OF Cons.prems(2) s] Cons.IH [OF r(1)] r(2) show ?case
    by (simp add: remaining_Cons [of ev es])
qed

end

section \<open>Reachable states\<close>

definition accepted :: "cancel_enum \<Rightarrow> error_code \<Rightarrow> 'w promise_program \<Rightarrow> 'w promise_program" where
  "accepted E ec p =
     (if ec = Success
      then p\<lparr>pp_server := spawn_task E (pp_server p), pp_tasks := (pp_tasks p)(prom_next (pp_server p) \<mapsto> NotStarted)\<rparr>
      else p)"

lemma accepted_simps [simp]:
  "accepting (pp_server (accepted E ec p)) = accepting (pp_server p)"
  "alive (pp_server (accepted E ec p)) = alive (pp_server p)"
  "self_cancelled (pp_server (accepted E ec p)) = self_cancelled (pp_server p)"
  "pp_signals (accepted E ec p) = pp_signals p"
  by (simp_all add: accepted_def)

lemma accepted_inv_any:
  "cancel_enum_ok E \<Longrightarrow> pp_inv E p \<Longrightarrow> alive (pp_server p) \<Longrightarrow> pp_inv E (accepted E ec p)"
  by (simp add: accepted_def accepted_inv)

definition closed :: "cancel_enum \<Rightarrow> 'w promise_program \<Rightarrow> 'w promise_program" where
  "closed E p = p\<lparr>pp_server := drop_table E ((pp_server p)\<lparr>accepting := False\<rparr>)\<rparr>"

lemma closed_simps [simp]:
  "accepting (pp_server (closed E p)) = False" "alive (pp_server (closed E p)) = False"
  "pp_tasks (closed E p) = pp_tasks p" "pp_signals (closed E p) = pp_signals p"
  "promises (pp_server (closed E p)) = []"
  by (simp_all add: closed_def)

lemma not_accepting_inv: "prom_inv E st \<Longrightarrow> prom_inv E (st\<lparr>accepting := False\<rparr>)"
  by (simp add: prom_inv_def)

lemma closed_inv:
  assumes "cancel_enum_ok E" and "pp_inv E p"
  shows "pp_inv E (closed E p)" and "all_cancelled E (pp_server (closed E p))"
proof -
  have "pp_inv E (p\<lparr>pp_server := (pp_server p)\<lparr>accepting := False\<rparr>\<rparr>)"
    using assms(2) not_accepting_inv [of E "pp_server p"] by (simp add: pp_inv_def filtered_def)
  from drop_inv [OF assms(1) this] show "pp_inv E (closed E p)" by (simp add: closed_def)
  show "all_cancelled E (pp_server (closed E p))"
    using assms not_accepting_inv by (auto simp: closed_def pp_inv_def intro!: drop_all_cancelled)
qed

text \<open>The accept loop of \<open>echo_coro_signal_cancellation.cpp\<close> after a completion.\<close>

lemma prom_program_accept:
  "snd (prom_program E cond thr p (PPAccept ec sock)) =
     (if \<not> accepting (pp_server p) then p
      else if ec \<noteq> Success \<or> self_cancelled (pp_server p) \<noteq> ct_none E then closed E (accepted E ec p)
      else accepted E ec p)"
  by (auto simp: accept_result_def accepted_def closed_def Let_def split: prod.splits if_splits)

lemma prom_program_signal:
  assumes "pp_signals p = Suspended ()"
  shows "snd (prom_program E cond thr p (PPSignal ec)) =
     p\<lparr>pp_signals := (if ec \<noteq> Success then Threw (SystemError ec) else Returned ()),
       pp_server := (if accepting (pp_server p)
         then (pp_server p)\<lparr>self_cancelled :=
             accept_cancel E (cond (if ec \<noteq> Success then Some (SystemError ec) else None)) (self_cancelled (pp_server p))\<rparr>
         else pp_server p)\<rparr>"
  using assms by (simp add: wait_for_signal_def)

definition prom_ok :: "cancel_enum \<Rightarrow> unit promise_program \<Rightarrow> bool" where
  "prom_ok E p \<longleftrightarrow> pp_inv E p \<and> (alive (pp_server p) \<longleftrightarrow> accepting (pp_server p))"

lemma prom_ok_main: "prom_ok E (prom_main E)"
  by (simp add: prom_ok_def prom_main_def pp_inv_def filtered_def prom_init_inv) (simp add: prom_init_def)

lemma prom_ok_step:
  assumes "cancel_enum_ok E" and "prom_ok E p" and "prom_program E cond thr p ev = (as, p')"
  shows "prom_ok E p'"
proof (cases ev)
  case (PPSignal ec)
  show ?thesis
  proof (cases "pp_signals p")
    case (Suspended u)
    then have s: "pp_signals p = Suspended ()" by simp
    have "p' = snd (prom_program E cond thr p ev)" using assms(3) by simp
    then show ?thesis using assms(2) unfolding PPSignal prom_program_signal [OF s]
      by (auto simp: prom_ok_def pp_inv_def prom_inv_def filtered_def)
  qed (use PPSignal assms(2,3) in auto)
next
  case (PPAccept ec sock)
  then have p': "p' = snd (prom_program E cond thr p (PPAccept ec sock))" using assms(3) by simp
  show ?thesis
  proof (cases "accepting (pp_server p)")
    case True
    then have "pp_inv E (accepted E ec p)" using assms(1,2) accepted_inv_any by (auto simp: prom_ok_def)
    with True assms(1,2) closed_inv show ?thesis unfolding p' prom_program_accept by (auto simp: prom_ok_def)
  qed (use assms(2) in \<open>simp add: p' prom_program_accept del: prom_program.simps\<close>)
next
  case (PPTask k e)
  then have t: "task_turn E thr (logged_cancelled E) prom_session k e p = (as, p')" using assms(3) by simp
  then have "alive (pp_server p') = alive (pp_server p)" "accepting (pp_server p') = accepting (pp_server p)"
    by (auto simp: task_turn_def split: option.splits prod.splits ctl.splits)
  with task_turn_inv [OF _ t] assms(2) show ?thesis by (simp add: prom_ok_def)
qed

text \<open>\<open>echo_class.cpp\<close>.\<close>

lemma class_program_accept:
  "snd (class_program E thr p (PPAccept ec sock)) =
     (if \<not> accepting (pp_server p) then p
      else if ec \<noteq> Success \<or> self_cancelled (pp_server p) \<noteq> ct_none E
      then p\<lparr>pp_server := (pp_server p)\<lparr>accepting := False\<rparr>\<rparr>
      else accepted E ec p)"
  by (auto simp: accept_result_def accepted_def)

lemma class_program_signal:
  assumes "pp_signals p = Suspended w"
  shows "snd (class_program E thr p (PPSignal ec)) =
     p\<lparr>pp_signals := (if ec \<noteq> Success then Threw (SystemError ec)
           else if w = FirstSignal then Suspended SecondSignal else Returned ()),
       pp_server := (if ec = Success \<and> w = FirstSignal then class_destroy E (pp_server p) else pp_server p)\<rparr>"
  using assms by (cases w) simp_all

lemma class_ok_step:
  assumes "cancel_enum_ok E" and "pp_inv E p" and "class_program E thr p ev = (as, p')"
  shows "pp_inv E p'"
proof (cases ev)
  case (PPSignal ec)
  have d: "pp_inv E (p\<lparr>pp_server := class_destroy E (pp_server p)\<rparr>)"
  proof (cases "alive (pp_server p)")
    case True
    let ?p = "p\<lparr>pp_server := (pp_server p)\<lparr>self_cancelled := accept_cancel E (ct_all E) (self_cancelled (pp_server p))\<rparr>\<rparr>"
    have "pp_inv E ?p" using assms(1,2) accept_cancel_all by (auto simp: pp_inv_def prom_inv_def filtered_def)
    from drop_inv [OF assms(1) this] accept_cancel_all [OF assms(1)] True show ?thesis by (simp add: class_destroy_def)
  qed (use assms(2) in \<open>simp add: class_destroy_def\<close>)
  show ?thesis
  proof (cases "pp_signals p")
    case (Suspended w)
    have "p' = snd (class_program E thr p ev)" using assms(3) by simp
    with assms(2) d show ?thesis unfolding PPSignal class_program_signal [OF Suspended] by (simp add: pp_inv_def)
  qed (use assms(2,3) PPSignal in auto)
next
  case (PPAccept ec sock)
  then have p': "p' = snd (class_program E thr p (PPAccept ec sock))" using assms(3) by simp
  have "pp_inv E (p\<lparr>pp_server := (pp_server p)\<lparr>accepting := False\<rparr>\<rparr>)"
    using assms(2) not_accepting_inv [of E "pp_server p"] by (simp add: pp_inv_def filtered_def)
  moreover have "alive (pp_server p)" if "accepting (pp_server p)" "self_cancelled (pp_server p) = ct_none E"
    using that assms(2) by (simp add: pp_inv_def prom_inv_def)
  ultimately show ?thesis using assms(1,2) accepted_inv_any unfolding p' class_program_accept by auto
next
  case (PPTask k e)
  with assms task_turn_inv show ?thesis by auto
qed

section \<open>Both programs shut down alike\<close>

definition shut :: "cancel_enum \<Rightarrow> (cancellation_type \<Rightarrow> bool) \<Rightarrow> 'w promise_program \<Rightarrow> bool" where
  "shut E thr p \<longleftrightarrow> cancel_enum_ok E \<and> throws_ok E thr \<and> pp_inv E p \<and> all_cancelled E (pp_server p) \<and> \<not> alive (pp_server p)"

definition prom_shut :: "cancel_enum \<Rightarrow> (cancellation_type \<Rightarrow> bool) \<Rightarrow> unit promise_program \<Rightarrow> bool" where
  "prom_shut E thr p \<longleftrightarrow> shut E thr p \<and> \<not> accepting (pp_server p)"

lemma shut_signals [simp]: "shut E thr (p\<lparr>pp_signals := c\<rparr>) = shut E thr p"
  by (simp add: shut_def)

lemma prom_shut_signals [simp]: "prom_shut E thr (p\<lparr>pp_signals := c\<rparr>) = prom_shut E thr p"
  by (simp add: prom_shut_def)

lemma shut_not_accepting: "shut E thr p \<Longrightarrow> shut E thr (p\<lparr>pp_server := (pp_server p)\<lparr>accepting := False\<rparr>\<rparr>)"
  using not_accepting_inv [of E "pp_server p"] by (simp add: shut_def pp_inv_def filtered_def all_cancelled_def)

lemma shut_accepting: "shut E thr p \<Longrightarrow> accepting (pp_server p) \<Longrightarrow> self_cancelled (pp_server p) \<noteq> ct_none E"
  by (auto simp: shut_def pp_inv_def prom_inv_def)

lemma shut_task_turn:
  assumes "shut E thr p" and "cancel_enum_ok E \<Longrightarrow> \<forall>c. self_filter E c = c \<longrightarrow> pass c = c"
    and "task_turn E thr pass coro_session k e p = (as, p')"
  shows "shut E thr p' \<and> all_ops as = [] \<and> pp_tasks p' = remaining [PPTask k e :: 'sock pp_event] (pp_tasks p)
    \<and> accepting (pp_server p') = accepting (pp_server p)"
proof -
  have "alive (pp_server p') = alive (pp_server p)"
    using assms(3) by (auto simp: task_turn_def split: option.splits prod.splits ctl.splits)
  moreover note cancelled_task_turn [OF _ _ _ _ assms(3)] task_turn_inv [OF _ assms(3)]
  ultimately show ?thesis using assms(1,2)
    by (auto simp: shut_def remaining_def answered_def fun_eq_iff split: option.splits)
qed

interpretation prom_end: promise_shutdown "prom_program E cond thr" "prom_shut E thr" for E cond thr
proof unfold_locales
  fix p p' :: "unit promise_program" and ec k e and sock :: 'a and as :: "'a pp_action list"
  assume p: "prom_shut E thr p"
  show "prom_program E cond thr p (PPTask k e) = (as, p') \<Longrightarrow>
      prom_shut E thr p' \<and> all_ops as = [] \<and> pp_tasks p' = remaining [PPTask k e :: 'a pp_event] (pp_tasks p)"
    using shut_task_turn [of E thr p "logged_cancelled E" k e as p'] p logged_cancelled_accepted
    by (auto simp: prom_shut_def prom_session_def)
  have s: "prom_program E cond thr p (PPSignal ec :: 'a pp_event) = ([], snd (prom_program E cond thr p (PPSignal ec :: 'a pp_event)))"
    by (cases "pp_signals p") (simp_all add: wait_for_signal_def)
  show "prom_program E cond thr p (PPSignal ec) = (as, p') \<Longrightarrow>
      prom_shut E thr p' \<and> all_ops as = [] \<and> pp_tasks p' = pp_tasks p"
  proof (cases "pp_signals p")
    case (Suspended u)
    assume "prom_program E cond thr p (PPSignal ec) = (as, p')"
    then have "as = []" "p' = snd (prom_program E cond thr p (PPSignal ec :: 'a pp_event))" using s by (simp_all del: prom_program.simps)
    with p Suspended show ?thesis by (simp add: prom_program_signal prom_shut_def del: prom_program.simps)
  qed (use p in auto)
  show "prom_program E cond thr p (PPAccept ec sock) = (as, p') \<Longrightarrow>
      prom_shut E thr p' \<and> all_ops as = [] \<and> pp_tasks p' = pp_tasks p"
    using p by (auto simp: prom_shut_def accept_result_def)
qed

interpretation class_end: promise_shutdown "class_program E thr" "shut E thr" for E thr
proof unfold_locales
  fix p p' :: "class_wait promise_program" and ec k e and sock :: 'a and as :: "'a pp_action list"
  assume p: "shut E thr p"
  show "class_program E thr p (PPTask k e) = (as, p') \<Longrightarrow>
      shut E thr p' \<and> all_ops as = [] \<and> pp_tasks p' = remaining [PPTask k e :: 'a pp_event] (pp_tasks p)"
    using shut_task_turn [of E thr p "inner_cancelled E" k e as p'] p inner_cancelled_accepted
    by (auto simp: class_echo_def)
  have d: "class_destroy E (pp_server p) = pp_server p" using p by (simp add: shut_def class_destroy_def)
  show "class_program E thr p (PPSignal ec) = (as, p') \<Longrightarrow>
      shut E thr p' \<and> all_ops as = [] \<and> pp_tasks p' = pp_tasks p"
  proof (cases "pp_signals p")
    case (Suspended w)
    assume "class_program E thr p (PPSignal ec) = (as, p')"
    with d p Suspended show ?thesis by (cases w; cases "ec = Success") auto
  qed (use p in auto)
  show "class_program E thr p (PPAccept ec sock) = (as, p') \<Longrightarrow>
      shut E thr p' \<and> all_ops as = [] \<and> pp_tasks p' = pp_tasks p"
    using p shut_not_accepting [OF p] shut_accepting [OF p] by (auto simp: accept_result_def split: if_splits)
qed

lemma task_turn_server:
  assumes "task_turn E thr pass echo k e p = (as, p')"
  shows "pp_signals p' = pp_signals p \<and> accepting (pp_server p') = accepting (pp_server p)
    \<and> self_cancelled (pp_server p') = self_cancelled (pp_server p) \<and> alive (pp_server p') = alive (pp_server p)"
  using assms by (auto simp: task_turn_def split: option.splits prod.splits ctl.splits)

lemma prom_signals_stay:
  assumes "prom_program E cond thr p ev = (as, p')" and "finished (pp_signals p)"
  shows "finished (pp_signals p')"
proof (cases ev)
  case (PPTask k e)
  with assms task_turn_server [of E thr "logged_cancelled E" prom_session k e p as p'] show ?thesis by simp
qed (use assms in \<open>auto simp: accept_result_def split: prod.splits if_splits\<close>)

lemma remaining_empty: "dom (remaining es ts) = {} \<longleftrightarrow> (\<forall>k s. ts k = Some s \<longrightarrow> answered es k s)"
  by (auto simp: remaining_def dom_def split: option.splits if_splits)

lemma running_empty: "pp_inv E p \<Longrightarrow> running (pp_server p) = [] \<longleftrightarrow> dom (pp_tasks p) = {}"
  by (auto simp: pp_inv_def)

section \<open>Properties\<close>


definition throws_default :: "cancellation_type \<Rightarrow> bool" where
  "throws_default c \<longleftrightarrow> c \<noteq> 0"

definition one_success :: "or_condition" where
  "one_success r = (case r of None \<Rightarrow> ct_all asio_enum | Some x \<Rightarrow> 0)"

lemma throws_default_ok: "throws_ok asio_enum throws_default"
  by (simp add: throws_ok_def throws_default_def asio_enum_def)

lemma one_success_ok: "wait_for_one_success_ok asio_enum one_success"
  by (simp add: wait_for_one_success_ok_def one_success_def asio_enum_def)

lemmas pp_eval = task_turn_def throw_if_cancelled_def accept_result_def prom_main_def class_main_def prom_init_def
  spawn_task_def use_table_def drop_table_def cancel_tasks_def self_filter_def task_done_def
  class_destroy_def wait_for_signal_def throws_default_def one_success_def asio_enum_def emplace_def erase_def coro_start_def
  logged_cancelled_def inner_cancelled_def prom_session_def class_echo_def


lemma class_signals_second:
  assumes "class_program E thr p ev = (as, p')" and "pp_signals p = Suspended SecondSignal"
  shows "(\<exists>ec. ev = PPSignal ec) \<longleftrightarrow> finished (pp_signals p')"
    and "\<not> finished (pp_signals p') \<Longrightarrow> pp_signals p' = Suspended SecondSignal"
proof -
  have "(if \<exists>ec. ev = PPSignal ec then finished (pp_signals p') else pp_signals p' = Suspended SecondSignal)"
  proof (cases ev)
    case (PPTask k e)
    with assms task_turn_server [of E thr "inner_cancelled E" class_echo k e p as p'] show ?thesis by simp
  qed (use assms in \<open>auto simp: accept_result_def split: if_splits prod.splits\<close>)
  then show "(\<exists>ec. ev = PPSignal ec) \<longleftrightarrow> finished (pp_signals p')"
    and "\<not> finished (pp_signals p') \<Longrightarrow> pp_signals p' = Suspended SecondSignal"
    by (auto split: if_splits)
qed

lemma class_signals_stay:
  assumes "class_program E thr p ev = (as, p')" and "finished (pp_signals p)"
  shows "finished (pp_signals p')"
proof (cases ev)
  case (PPTask k e)
  with assms task_turn_server [of E thr "inner_cancelled E" class_echo k e p as p'] show ?thesis by simp
next
  case (PPSignal ec)
  with assms show ?thesis by (cases "pp_signals p") auto
qed (use assms in \<open>auto simp: accept_result_def split: prod.splits if_splits\<close>)

text \<open>The second wait ends with the next signal and not before.\<close>

lemma class_second_run:
  assumes "steps (class_program E thr) p es = (as, p')" and "pp_signals p = Suspended SecondSignal"
  shows "finished (pp_signals p') \<longleftrightarrow> (\<exists>ec. PPSignal ec \<in> set es)"
  using assms
proof (induction es arbitrary: p as)
  case (Cons ev es)
  obtain as1 p1 where s: "class_program E thr p ev = (as1, p1)" by fastforce
  then obtain as2 where r: "steps (class_program E thr) p1 es = (as2, p')"
    using Cons.prems(1) by (auto simp del: class_program.simps split: prod.splits)
  note c = class_signals_second [OF s Cons.prems(2)]
  show ?case
  proof (cases "finished (pp_signals p1)")
    case True
    have "finished (pp_signals p')"
      by (rule steps_invariant [OF r, where I = "\<lambda>q. finished (pp_signals q)"]) (rule True, rule class_signals_stay)
    with True c show ?thesis by auto
  next
    case False
    with Cons.IH [OF r] c show ?thesis by auto
  qed
qed simp

text \<open>After the destruction, the pending accept is the last one.\<close>

lemma class_accept_last:
  assumes "class_program E thr p ev = (as, p')" and "shut E thr p"
  shows "accepting (pp_server p') \<longleftrightarrow> accepting (pp_server p) \<and> (\<forall>ec sock. ev \<noteq> PPAccept ec sock)"
proof (cases ev)
  case (PPSignal ec)
  have "class_destroy E (pp_server p) = pp_server p" using assms(2) by (simp add: shut_def class_destroy_def)
  with PPSignal assms show ?thesis
    by (cases "pp_signals p") (auto elim!: class_wait_for_signal.elims split: if_splits prod.splits)
next
  case (PPAccept ec sock)
  with assms shut_accepting [OF assms(2)] show ?thesis by (auto simp: accept_result_def split: if_splits)
next
  case (PPTask k e)
  with assms task_turn_server [of E thr "inner_cancelled E" class_echo k e p as p'] show ?thesis by simp
qed

lemma class_accept_run:
  assumes "steps (class_program E thr) p es = (as, p')" and "shut E thr p"
  shows "accepting (pp_server p') \<longleftrightarrow> accepting (pp_server p) \<and> (\<forall>ec sock. PPAccept ec sock \<notin> set es)"
  using assms
proof (induction es arbitrary: p as)
  case (Cons ev es)
  obtain as1 p1 where s: "class_program E thr p ev = (as1, p1)" by fastforce
  then obtain as2 where r: "steps (class_program E thr) p1 es = (as2, p')"
    using Cons.prems(1) by (auto simp del: class_program.simps split: prod.splits)
  have "shut E thr p1" using class_end.shutdown_step [OF Cons.prems(2) s] by simp
  from Cons.IH [OF r this] class_accept_last [OF s Cons.prems(2)] show ?case by auto
qed simp

text \<open>C17: The program \<open>echo_class.cpp\<close> from any reachable state with its server alive: the first SIGINT destroys the server
  object. From then on no session starts a read or a write and no new one is started; each ends with the next
  completion it gets, in any order, and nothing uses the destroyed table. The program
  ends exactly when all sessions and the pending accept have completed and a second signal has arrived.\<close>

theorem class_program_shutdown:
  assumes "cancel_enum_ok E" and "throws_ok E thr"
    and "steps (class_program E thr) (class_main E) (es :: 'sock pp_event list) = (as, p)"
    and "pp_signals p = Suspended FirstSignal" and "alive (pp_server p)"
    and "class_program E thr p (PPSignal Success :: 'sock pp_event) = (as1, p1)"
    and "steps (class_program E thr) p1 (es2 :: 'sock pp_event list) = (as2, p2)"
  shows "as1 = [DestroyServer, SignalWait] \<and> \<not> alive (pp_server p1) \<and> promises (pp_server p1) = [] \<and> pp_tasks p1 = pp_tasks p
    \<and> all_ops as2 = [] \<and> pp_tasks p2 = remaining es2 (pp_tasks p1) \<and> \<not> fault (pp_server p2)
    \<and> (pp_done p2 \<longleftrightarrow> (\<forall>k s. pp_tasks p1 k = Some s \<longrightarrow> answered es2 k s)
         \<and> (accepting (pp_server p) \<longrightarrow> (\<exists>ec sock. PPAccept ec sock \<in> set es2)) \<and> (\<exists>ec. PPSignal ec \<in> set es2))"
proof -
  have "pp_inv E (class_main E)"
    by (simp add: class_main_def pp_inv_def filtered_def prom_init_inv) (simp add: prom_init_def)
  then have p: "pp_inv E p" by (rule steps_invariant [OF assms(3)]) (rule class_ok_step [OF assms(1)])
  have i: "pp_inv E p1" by (rule class_ok_step [OF assms(1) p assms(6)])
  have as1: "as1 = [DestroyServer, SignalWait]" using assms(4,6) by auto
  have p1: "p1 = p\<lparr>pp_signals := Suspended SecondSignal, pp_server := class_destroy E (pp_server p)\<rparr>"
    using assms(4,6) by auto
  have "prom_inv E ((pp_server p)\<lparr>self_cancelled := accept_cancel E (ct_all E) (self_cancelled (pp_server p))\<rparr>)"
    using p assms(5) by (auto simp: pp_inv_def prom_inv_def)
  then have "all_cancelled E (pp_server p1)" using drop_all_cancelled [OF assms(1)] assms(5) by (simp add: p1 class_destroy_def)
  then have shut: "shut E thr p1" using i assms(1,2,5) by (simp add: shut_def p1 class_destroy_def)
  note run = class_end.shutdown_run [OF assms(7) shut]
  have "finished (pp_signals p2) \<longleftrightarrow> (\<exists>ec. PPSignal ec \<in> set es2)"
    by (rule class_second_run [OF assms(7)]) (simp add: p1)
  moreover have "accepting (pp_server p2) \<longleftrightarrow> accepting (pp_server p) \<and> (\<forall>ec sock. PPAccept ec sock \<notin> set es2)"
    using class_accept_run [OF assms(7) shut] assms(5) by (simp add: p1 class_destroy_def)
  moreover have inv2: "pp_inv E p2" using run by (simp add: shut_def)
  ultimately have "pp_done p2 \<longleftrightarrow> (\<forall>k s. pp_tasks p1 k = Some s \<longrightarrow> answered es2 k s)
         \<and> (accepting (pp_server p) \<longrightarrow> (\<exists>ec sock. PPAccept ec sock \<in> set es2)) \<and> (\<exists>ec. PPSignal ec \<in> set es2)"
    using run by (auto simp: pp_done_def running_empty remaining_empty simp del: dom_eq_empty_conv)
  moreover have "\<not> fault (pp_server p2)" using inv2 by (simp add: pp_inv_def prom_inv_def)
  ultimately show ?thesis using run as1 assms(5) by (simp add: p1 class_destroy_def)
qed

theorem class_program_shutdown_witness:
  "\<exists>as2 p2. steps (class_program asio_enum throws_default) (class_main asio_enum)
      [PPAccept Success ''a'', PPTask 0 TaskStarts, PPSignal Success, PPTask 0 (TaskResumed (ReadDone Success [7])),
       PPAccept OperationAborted ''b'', PPSignal Success] = (as2, p2) \<and> pp_done p2"
proof -
  let ?step = "class_program asio_enum throws_default :: (class_wait promise_program, string pp_event, string pp_action) stepper"
  let ?es = "[PPAccept Success ''a'', PPTask 0 TaskStarts]"
  let ?es2 = "[PPTask 0 (TaskResumed (ReadDone Success [7])), PPAccept OperationAborted ''b'', PPSignal Success]"
  obtain as p where r: "steps ?step (class_main asio_enum) ?es = (as, p)" by fastforce
  then have p: "pp_signals p = Suspended FirstSignal" "alive (pp_server p)" "pp_tasks p = [0 \<mapsto> InSession AtRead]"
    by (auto simp: pp_eval)
  obtain as1 p1 where r1: "?step p (PPSignal Success) = (as1, p1)" by fastforce
  obtain as2 p2 where r2: "steps ?step p1 ?es2 = (as2, p2)" by fastforce
  have "pp_done p2"
    using class_program_shutdown [OF asio_enum_ok throws_default_ok r p(1,2) r1 r2] p(3)
    by (auto simp: answered_def split: if_splits)
  moreover have "steps ?step (class_main asio_enum) (?es @ [PPSignal Success] @ ?es2) = (as @ as1 @ as2, p2)"
    by (rule steps_appendI [OF r steps_appendI [OF steps_single [of ?step, OF r1] r2]])
  ultimately show ?thesis by auto
qed

end
