(* ===== verification/Promise_Sessions.thy ===== *)
theory Promise_Sessions
  imports Promise_Programs "HOL-Library.Sublist"
begin

text \<open>
  The bytes that the sessions of \<open>cancellation/echo_coro_signal_cancellation.cpp\<close> and \<open>cancellation/echo_class.cpp\<close> echo while
  signals, accepts and cancellations interleave with them. The interface \<open>promise_tasks\<close> says what both programs of
  \<open>Promise_Programs\<close> have in common: an event of a task resumes that task only, and no other event performs an operation
  of a task.
\<close>

section \<open>Events and operations of one task\<close>

fun task_ev :: "size_t \<Rightarrow> 'sock pp_event \<Rightarrow> task_event list" where
  "task_ev k (PPTask j e) = (if j = k then [e] else [])"
| "task_ev k _ = []"

fun task_act :: "size_t \<Rightarrow> 'sock pp_action \<Rightarrow> stream_op list" where
  "task_act k (TaskDoes j op) = (if j = k then [op] else [])"
| "task_act k _ = []"

definition task_evs :: "size_t \<Rightarrow> 'sock pp_event list \<Rightarrow> task_event list" where
  "task_evs k es = concat (map (task_ev k) es)"

definition task_acts :: "size_t \<Rightarrow> 'sock pp_action list \<Rightarrow> stream_op list" where
  "task_acts k as = concat (map (task_act k) as)"

lemma task_evs_simps [simp]:
  "task_evs k [] = []" "task_evs k (e # es) = task_ev k e @ task_evs k es"
  by (simp_all add: task_evs_def)

lemma task_acts_simps [simp]:
  "task_acts k [] = []" "task_acts k (a # as) = task_act k a @ task_acts k as"
  "task_acts k (as @ bs) = task_acts k as @ task_acts k bs"
  "task_acts k (map (TaskDoes j) ops) = (if j = k then ops else [])"
  "task_acts k (map AcceptLoop acts) = []"
  by (simp_all add: task_acts_def o_def concat_map_singleton)

lemma task_acts_class_act [simp]: "task_acts k (map class_act cs) = []"
proof (induction cs)
  case (Cons c cs)
  then show ?case by (cases c) auto
qed simp

section \<open>Interface: programs with tasks\<close>

locale promise_tasks =
  fixes step :: "('w promise_program, 'sock pp_event, 'sock pp_action) stepper"
    and inv :: "'w promise_program \<Rightarrow> bool"
    and E :: cancel_enum and thr :: "cancellation_type \<Rightarrow> bool" and pass :: "cancellation_type \<Rightarrow> cancellation_type"
  assumes task: "step p (PPTask k e) = task_turn E thr pass coro_session k e p"
    and other: "(\<And>j e. ev \<noteq> PPTask j e) \<Longrightarrow> step p ev = (as, p') \<Longrightarrow>
      task_acts k as = [] \<and> pp_tasks p' k \<in> {pp_tasks p k, Some NotStarted}"
    and keeps: "inv p \<Longrightarrow> step p ev = (as, p') \<Longrightarrow> inv p'"
    and registered: "inv p \<Longrightarrow> dom (pp_tasks p) = fst ` set (running (pp_server p))"
begin

text \<open>An event that is not for task \<open>k\<close>.\<close>

lemma step_other:
  assumes "step p ev = (as, p')" and "task_ev k ev = []"
  shows "task_acts k as = [] \<and> pp_tasks p' k \<in> {pp_tasks p k, Some NotStarted}"
proof (cases ev)
  case (PPTask j e)
  with assms have "j \<noteq> k" and t: "task_turn E thr pass coro_session j e p = (as, p')" by (auto simp: task split: if_splits)
  then show ?thesis
    by (auto simp: task_turn_def split: option.splits prod.splits ctl.splits)
qed (use assms other in blast)+

text \<open>A session that runs and gets the completion it waits for: it goes on and has sent what it received, or it ends
  and sends nothing.\<close>

lemma step_own:
  assumes "inv p" and s: "pp_tasks p k = Some (InSession s)" and a: "answers any_error (s = AtRead) (e # es)"
    and run: "step p (PPTask k (TaskResumed e)) = (as, p')"
  shows "(pp_tasks p' k = None \<and> task_acts k as = [])
    \<or> (\<exists>s'. pp_tasks p' k = Some (InSession s') \<and> sent (task_acts k as) = received_by e \<and> answers any_error (s' = AtRead) es)"
proof -
  have "k \<in> fst ` set (running (pp_server p))" using registered [OF assms(1)] s by auto
  then obtain c where c: "map_of (running (pp_server p)) k = Some c" by (metis map_of_eq_None_iff not_Some_eq)
  obtain ops ct where b: "coro_session s e = (ops, ct)" by fastforce
  have w: "awaits s e" using a by (cases s; cases e) auto
  have step: "sent ops = received_by e \<and>
      (finished ct \<and> es = [] \<or> (\<exists>s'. ct = Suspended s' \<and> (s' = AtRead \<longleftrightarrow> s \<noteq> AtRead) \<and> answers any_error (s \<noteq> AtRead) es))"
    using coro.relay_step [OF _ a b] by (cases s) auto
  have fin: "ops = []" if "finished ct" using b that w by (cases "(s, e)" rule: awaits.cases) (auto split: if_splits)
  note turn = run [unfolded task task_turn_def s c option.case prod.case task_resume.simps throw_if_cancelled_def b]
  show ?thesis
  proof (cases ct)
    case (Suspended s')
    with turn w step show ?thesis by (auto split: if_splits)
  qed (use turn w fin in auto)
qed

text \<open>A task that is not in its session does nothing until it is started.\<close>

lemma run_idle:
  assumes "steps step p es = (as, p')" and "TaskStarts \<notin> set (task_evs k es)" and "\<And>s. pp_tasks p k \<noteq> Some (InSession s)"
  shows "task_acts k as = [] \<and> (\<forall>s. pp_tasks p' k \<noteq> Some (InSession s))"
  using assms
proof (induction es arbitrary: p as)
  case (Cons ev es)
  obtain as1 p1 where s: "step p ev = (as1, p1)" by fastforce
  then obtain as2 where r: "steps step p1 es = (as2, p')" and as: "as = as1 @ as2"
    using Cons.prems(1) by (auto split: prod.splits)
  have 1: "task_acts k as1 = [] \<and> (\<forall>s. pp_tasks p1 k \<noteq> Some (InSession s))"
  proof (cases "task_ev k ev")
    case Nil
    with step_other [OF s Nil] Cons.prems(3) show ?thesis by auto
  next
    case (Cons e es')
    then have ev: "ev = PPTask k e" by (cases ev) (auto split: if_splits)
    with Cons.prems(2) have "e \<noteq> TaskStarts" by auto
    then obtain x where "e = TaskResumed x" by (cases e) auto
    with s ev Cons.prems(3) show ?thesis
      by (cases "pp_tasks p k"; cases "the (pp_tasks p k)") (auto simp: task task_turn_def split: option.splits)
  qed
  have "TaskStarts \<notin> set (task_evs k es)" using Cons.prems(2) by simp
  from Cons.IH [OF r this] 1 as show ?case by simp
qed simp

lemma run_session:
  assumes "steps step p es = (as, p')" and "inv p" and "pp_tasks p k = Some (InSession s)"
    and "task_evs k es = map TaskResumed cs" and "answers any_error (s = AtRead) cs"
  shows "prefix (sent (task_acts k as)) (received cs)
    \<and> (\<forall>s'. pp_tasks p' k = Some (InSession s') \<longrightarrow> sent (task_acts k as) = received cs)"
  using assms
proof (induction es arbitrary: p as s cs)
  case (Cons ev es)
  obtain as1 p1 where s: "step p ev = (as1, p1)" by fastforce
  then obtain as2 where r: "steps step p1 es = (as2, p')" and as: "as = as1 @ as2"
    using Cons.prems(1) by (auto split: prod.splits)
  have i: "inv p1" by (rule keeps [OF Cons.prems(2) s])
  have idle: "task_acts k as2 = [] \<and> (\<forall>s. pp_tasks p' k \<noteq> Some (InSession s))" if "\<And>s. pp_tasks p1 k \<noteq> Some (InSession s)"
  proof (rule run_idle [OF r _ that])
    have "set (task_evs k es) \<subseteq> range TaskResumed" using arg_cong [OF Cons.prems(4), of set] by auto
    then show "TaskStarts \<notin> set (task_evs k es)" by auto
  qed
  show ?case
  proof (cases "task_ev k ev")
    case Nil
    note o = step_other [OF s Nil]
    show ?thesis
    proof (cases "pp_tasks p1 k = pp_tasks p k")
      case True
      with Cons.IH [OF r i] Cons.prems(3-5) Nil o as show ?thesis by auto
    next
      case False
      with o idle as show ?thesis by auto
    qed
  next
    case (Cons e es')
    then have ev: "ev = PPTask k e" "es' = []" by (cases ev; simp split: if_splits)+
    with Cons Cons.prems(4) obtain x cs' where x: "e = TaskResumed x" "cs = x # cs'" "task_evs k es = map TaskResumed cs'"
      by (auto simp: Cons_eq_map_conv)
    from step_own [OF Cons.prems(2,3), of x cs' as1 p1] Cons.prems(5) s x(1,2) ev
    consider "pp_tasks p1 k = None" "task_acts k as1 = []"
      | s' where "pp_tasks p1 k = Some (InSession s')" "sent (task_acts k as1) = received_by x" "answers any_error (s' = AtRead) cs'"
      by auto
    then show ?thesis
    proof cases
      case 1
      with idle as show ?thesis by auto
    next
      case 2
      from Cons.IH [OF r i 2(1) x(3) 2(3)] 2(2) as x(2) show ?thesis by auto
    qed
  qed
qed simp

text \<open>The first event of a task starts it, unless it has been cancelled before.\<close>

lemma step_starts:
  assumes "step p (PPTask k TaskStarts) = (as, p')" and "\<And>s. pp_tasks p k \<noteq> Some (InSession s)"
  shows "sent (task_acts k as) = [] \<and> (pp_tasks p' k = Some (InSession AtRead)
    \<or> task_acts k as = [] \<and> (\<forall>s. pp_tasks p' k \<noteq> Some (InSession s)))"
proof (cases "pp_tasks p k")
  case (Some s)
  with assms(2) have "s = NotStarted" by (cases s) auto
  with Some assms(1) show ?thesis by (auto simp: task task_turn_def coro_start_def split: option.splits if_splits)
qed (use assms in \<open>auto simp: task task_turn_def\<close>)

lemma run_task:
  assumes "steps step p es = (as, p')" and "inv p" and "\<And>s. pp_tasks p k \<noteq> Some (InSession s)"
    and "task_evs k es = TaskStarts # map TaskResumed cs" and "answers any_error True cs"
  shows "prefix (sent (task_acts k as)) (received cs)
    \<and> (\<forall>s'. pp_tasks p' k = Some (InSession s') \<longrightarrow> sent (task_acts k as) = received cs)"
  using assms
proof (induction es arbitrary: p as)
  case (Cons ev es)
  obtain as1 p1 where s: "step p ev = (as1, p1)" by fastforce
  then obtain as2 where r: "steps step p1 es = (as2, p')" and as: "as = as1 @ as2"
    using Cons.prems(1) by (auto split: prod.splits)
  have i: "inv p1" by (rule keeps [OF Cons.prems(2) s])
  show ?case
  proof (cases "task_ev k ev")
    case Nil
    with step_other [OF s Nil] Cons.prems(3) have "task_acts k as1 = []" "\<And>s. pp_tasks p1 k \<noteq> Some (InSession s)" by auto
    with Cons.IH [OF r i this(2)] Cons.prems(4,5) Nil as show ?thesis by simp
  next
    case (Cons e es')
    then have ev: "ev = PPTask k e" "es' = []" by (cases ev; simp split: if_splits)+
    with Cons Cons.prems(4) have e: "e = TaskStarts" "task_evs k es = map TaskResumed cs" by simp_all
    have n: "TaskStarts \<notin> set (task_evs k es)" using e(2) by auto
    from step_starts [of p k as1 p1] s ev(1) e(1) Cons.prems(3)
    consider "pp_tasks p1 k = Some (InSession AtRead)" "sent (task_acts k as1) = []"
      | "task_acts k as1 = []" "\<And>s. pp_tasks p1 k \<noteq> Some (InSession s)" by auto
    then show ?thesis
    proof cases
      case 1
      with run_session [OF r i 1(1) e(2)] Cons.prems(5) as show ?thesis by simp
    next
      case 2
      with run_idle [OF r n 2(2)] as show ?thesis by simp
    qed
  qed
qed simp

end

section \<open>Both programs\<close>

lemma spawn_effects:
  "foldl (\<lambda>ts a. spawn_effect a ts) ts as k \<in> {ts k, Some NotStarted}"
proof (induction as arbitrary: ts)
  case (Cons a as)
  have "spawn_effect a ts k \<in> {ts k, Some NotStarted}" by (cases a) auto
  with Cons [of "spawn_effect a ts"] show ?case by (auto simp del: spawn_effect.simps)
qed simp

lemma accept_result_tasks:
  "accept_result r p = (as, p') \<Longrightarrow> task_acts k as = [] \<and> pp_tasks p' k \<in> {pp_tasks p k, Some NotStarted}"
  using spawn_effects [of "pp_tasks p" "fst r" k] by (cases r) (auto simp: accept_result_def)

lemma prom_program_tasks:
  assumes "cancel_enum_ok E"
  shows "promise_tasks (prom_program E cond thr) (prom_ok E) E thr (logged_cancelled E)"
proof
  fix ev :: "'sock pp_event" and p as p' k
  assume n: "\<And>j e. ev \<noteq> PPTask j e" and s: "prom_program E cond thr p ev = (as, p')"
  show "task_acts k as = [] \<and> pp_tasks p' k \<in> {pp_tasks p k, Some NotStarted}"
  proof (cases ev)
    case (PPSignal ec)
    with s show ?thesis by (auto split: if_splits prod.splits)
  next
    case (PPAccept ec sock)
    obtain bs q where q: "accept_result (prom_step E (pp_server p) (PromAccepted ec sock)) p = (bs, q)" by fastforce
    with PPAccept s accept_result_tasks [OF q, of k] show ?thesis by (auto simp del: prom_step.simps split: if_splits)
  qed (use n in blast)
next
  fix p ev as p'
  show "prom_ok E p \<Longrightarrow> prom_program E cond thr p ev = (as, p') \<Longrightarrow> prom_ok E p'" by (rule prom_ok_step [OF assms])
qed (simp_all add: prom_session_def prom_ok_def pp_inv_def)

lemma class_effects_tasks: "pp_tasks (foldl (\<lambda>p a. class_effect E a p) p as) = pp_tasks p"
proof (induction as arbitrary: p)
  case (Cons a as)
  then show ?case by (cases a) auto
qed simp

lemma class_program_tasks:
  assumes "cancel_enum_ok E"
  shows "promise_tasks (class_program E thr) (pp_inv E) E thr (inner_cancelled E)"
proof
  fix ev :: "'sock pp_event" and p as p' k
  assume n: "\<And>j e. ev \<noteq> PPTask j e" and s: "class_program E thr p ev = (as, p')"
  show "task_acts k as = [] \<and> pp_tasks p' k \<in> {pp_tasks p k, Some NotStarted}"
  proof (cases ev)
    case (PPSignal ec)
    with s show ?thesis by (auto simp: class_effects_tasks split: prod.splits)
  next
    case (PPAccept ec sock)
    with s show ?thesis by (auto dest!: accept_result_tasks [of _ _ _ _ k] simp del: class_step.simps)
  qed (use n in blast)
next
  fix p ev as p'
  show "pp_inv E p \<Longrightarrow> class_program E thr p ev = (as, p') \<Longrightarrow> pp_inv E p'" by (rule class_ok_step [OF assms])
qed (simp_all add: class_echo_def pp_inv_def)

interpretation prom_tasks: promise_tasks "prom_program asio_enum one_success throws_default" "prom_ok asio_enum" asio_enum
    throws_default "logged_cancelled asio_enum"
  by (rule prom_program_tasks [OF asio_enum_ok])

interpretation class_tasks: promise_tasks "class_program asio_enum throws_default" "pp_inv asio_enum" asio_enum
    throws_default "inner_cancelled asio_enum"
  by (rule class_program_tasks [OF asio_enum_ok])

section \<open>Properties\<close>

text \<open>C14: Sessions of \<open>echo_coro_signal_cancellation.cpp\<close> and \<open>echo_class.cpp\<close> under cancellation. In any run, with whatever
  signals, accepts and events of other sessions in between, a session whose events are its start and completions of
  its operations in turn has sent a prefix of what it has received; as long as it runs, it has sent
  exactly that. Only the block whose completion finds the session cancelled may be missing.\<close>

theorem promise_sessions_echo:
  assumes "cancel_enum_ok E" and "task_evs k es = TaskStarts # map TaskResumed cs" and "answers any_error True cs"
    and "steps (prom_program E cond thr) (prom_main E) es = (as, p)"
    and "steps (class_program E thr) (class_main E) es = (bs, q)"
  shows "prefix (sent (task_acts k as)) (received cs) \<and> prefix (sent (task_acts k bs)) (received cs)
    \<and> (\<forall>s. pp_tasks p k = Some (InSession s) \<longrightarrow> sent (task_acts k as) = received cs)
    \<and> (\<forall>s. pp_tasks q k = Some (InSession s) \<longrightarrow> sent (task_acts k bs) = received cs)"
proof -
  have "pp_tasks (prom_main E) k \<noteq> Some (InSession s)" "pp_tasks (class_main E) k \<noteq> Some (InSession s)" for s
    by (simp_all add: prom_main_def class_main_def)
  note n = this
  have "pp_inv E (class_main E)"
    by (simp add: class_main_def pp_inv_def filtered_def prom_init_inv) (simp add: prom_init_def)
  from promise_tasks.run_task [OF class_program_tasks [OF assms(1)] assms(5) this n(2) assms(2,3)]
    promise_tasks.run_task [OF prom_program_tasks [OF assms(1)] assms(4) prom_ok_main n(1) assms(2,3)]
  show ?thesis by blast
qed

theorem promise_sessions_echo_witness:
  "\<exists>as p. steps (class_program asio_enum throws_default) (class_main asio_enum)
       [PPAccept Success ''a'', PPTask 0 TaskStarts, PPTask 0 (TaskResumed (ReadDone Success [7]))] = (as, p)
     \<and> sent (task_acts 0 as) = [7]"
proof -
  let ?es = "[PPAccept Success ''a'', PPTask 0 TaskStarts, PPTask 0 (TaskResumed (ReadDone Success [7]))]"
  obtain as p where 1: "steps (prom_program asio_enum one_success throws_default) (prom_main asio_enum) ?es = (as, p)" by fastforce
  obtain bs q where 2: "steps (class_program asio_enum throws_default) (class_main asio_enum) ?es = (bs, q)" by fastforce
  have e: "task_evs 0 ?es = TaskStarts # map TaskResumed [ReadDone Success [7]]" "answers any_error True [ReadDone Success [7 :: byte]]"
    by simp_all
  have "pp_tasks q 0 = Some (InSession AtWrite)"
    using 2 by (auto simp: class_main_def prom_init_def accept_result_def spawn_task_def use_table_def task_turn_def Let_def
        throws_default_def asio_enum_def self_filter_def throw_if_cancelled_def class_echo_def inner_cancelled_def
        coro_start_def)
  with promise_sessions_echo [OF asio_enum_ok e 1 2] 2 show ?thesis by auto
qed

end
