(* ===== verification/Process_Exec.thy ===== *)
theory Process_Exec
  imports Log_Lines Signal_Servers
begin

text \<open>
  Child processes: \<open>process/ping.cpp\<close>, \<open>ping_signal.cpp\<close> and \<open>ping_signal_advanced.cpp\<close>. The coroutine
  \<open>execute\<close> starts a child, runs \<open>log\<close> (of theory \<open>Log_Lines\<close>) on its output and waits for its exit
  code. Starting a child, waiting for it and signalling it are Boost.Process operations: actions,
  with completions as inputs.
\<close>

section \<open>ping.cpp\<close>

datatype exec_state = ExLog string | ExWait

datatype exec_event = ExLogEvent log_event | ExChildDone error_code int

datatype exec_action = StartChild string "string list" | ExLogAction log_action | WaitChild

text \<open>\<open>launch\<close> is what the constructor of \<open>bp::process\<close> answers; it throws on error.\<close>

definition exec_start :: "error_code \<Rightarrow> string \<Rightarrow> string list \<Rightarrow> exec_action list \<times> (exec_state, int) ctl" where
  "exec_start launch path args =
     (if launch \<noteq> Success then ([StartChild path args], Threw (SystemError launch))
      else (StartChild path args # map ExLogAction (fst log_start),
            case snd log_start of
              Suspended buf \<Rightarrow> Suspended (ExLog buf) | Returned _ \<Rightarrow> Suspended ExWait | Threw x \<Rightarrow> Threw x))"

fun exec_body :: "cancel_enum \<Rightarrow> (exec_state, exec_event, exec_action, int) body" where
  "exec_body E (ExLog buf) (ExLogEvent e) =
     (case log_body E buf e of
        (as, Suspended buf') \<Rightarrow> (map ExLogAction as, Suspended (ExLog buf'))
      | (as, Returned _) \<Rightarrow> (map ExLogAction as @ [WaitChild], Suspended ExWait)
      | (as, Threw x) \<Rightarrow> (map ExLogAction as, Threw x))"
| "exec_body E ExWait (ExChildDone ec exit_code) =
     (if ec \<noteq> Success then ([], Threw (SystemError ec)) else ([], Returned exit_code))"
| "exec_body E s e = ([], Suspended s)"

text \<open>\<open>main\<close>.\<close>

definition ping_program :: "error_code \<Rightarrow> exec_action list \<times> (exec_state, int) ctl" where
  "ping_program launch = exec_start launch ''/usr/bin/ping'' [''::1'', ''-c'', ''5'', ''-i'', ''0.1'']"

section \<open>ping\_signal.cpp\<close>

text \<open>The handler of the one wait for SIGINT: waiting, queued with success (a signal has arrived) or
  with an error (the signal set is gone), or done. It captures the child process by reference;
  \<open>child_fault\<close> says that it has used the child after \<open>execute\<close> had ended.\<close>

datatype watcher = WPending | WQueued | WAborted | WDone

record signal_exec =
  ex_ctl :: "(exec_state, int) ctl"
  watch :: watcher
  child_fault :: bool

datatype signal_exec_event = PExec exec_event | SigArrives | SigHandlerRuns

datatype signal_exec_action = PAct exec_action | SigWait | InterruptChild

text \<open>The wait for the signal is started when the child has been, before the first read of \<open>log\<close>, which is
  the last action of \<open>exec_start\<close>.\<close>

definition signal_exec_start :: "error_code \<Rightarrow> string \<Rightarrow> string list \<Rightarrow> signal_exec_action list \<times> signal_exec" where
  "signal_exec_start launch path args =
     (case exec_start launch path args of (as, c) \<Rightarrow>
        (if finished c then map PAct as else map PAct (butlast as) @ [SigWait, PAct (last as)],
         \<lparr>ex_ctl = c, watch = (if finished c then WDone else WPending), child_fault = False\<rparr>))"

definition ping_signal_program :: "error_code \<Rightarrow> signal_exec_action list \<times> signal_exec" where
  "ping_signal_program launch = signal_exec_start launch ''/usr/bin/ping'' [''::1'', ''-c'', ''5'']"

text \<open>When \<open>execute\<close> ends, its signal set is destroyed: a wait that has not completed yet completes with
  an error, one that is already queued does not change.\<close>

definition leave_scope :: "signal_exec \<Rightarrow> signal_exec" where
  "leave_scope st =
     (if finished (ex_ctl st) \<and> watch st = WPending then st\<lparr>watch := WAborted\<rparr> else st)"

fun signal_exec_step :: "cancel_enum \<Rightarrow> (signal_exec, signal_exec_event, signal_exec_action) stepper" where
  "signal_exec_step E st (PExec e) =
     (case drive (exec_body E) (ex_ctl st) [e] of (as, c) \<Rightarrow> (map PAct as, leave_scope (st\<lparr>ex_ctl := c\<rparr>)))"
| "signal_exec_step E st SigArrives = ([], if watch st = WPending then st\<lparr>watch := WQueued\<rparr> else st)"
| "signal_exec_step E st SigHandlerRuns =
     (case watch st of
        WQueued \<Rightarrow> ([InterruptChild], st\<lparr>watch := WDone, child_fault := child_fault st \<or> finished (ex_ctl st)\<rparr>)
      | WAborted \<Rightarrow> ([], st\<lparr>watch := WDone\<rparr>)
      | _ \<Rightarrow> ([], st))"

section \<open>ping\_signal\_advanced.cpp\<close>

text \<open>\<open>argv\<close> is passed on without its first element.\<close>

definition make_args :: "string list \<Rightarrow> string list" where
  "make_args argv = map (\<lambda>i. argv ! i) [1..<length argv]"

datatype adv_exec_state = AdvChild | AdvPipes int

datatype adv_exec_event = AdvChildDone "exn + int" | AdvPipesDone "exn + unit"

datatype adv_exec_action =
    AdvResetTotal | AdvStartChild string "string list" | AdvSpawnLogs | AdvExecute
  | AdvTimer nat | AdvFilterTerminal | AdvAwaitPipesOrTimer

definition adv_exec_start :: "error_code \<Rightarrow> string \<Rightarrow> string list \<Rightarrow> adv_exec_action list \<times> (adv_exec_state, int) ctl" where
  "adv_exec_start launch path args =
     (if launch \<noteq> Success then ([AdvResetTotal, AdvStartChild path args], Threw (SystemError launch))
      else ([AdvResetTotal, AdvStartChild path args, AdvSpawnLogs, AdvExecute], Suspended AdvChild))"

fun adv_exec :: "(adv_exec_state, adv_exec_event, adv_exec_action, int) body" where
  "adv_exec AdvChild (AdvChildDone (Inl x)) = ([], Threw x)"
| "adv_exec AdvChild (AdvChildDone (Inr exit_code)) =
     ([AdvTimer 1000, AdvFilterTerminal, AdvAwaitPipesOrTimer], Suspended (AdvPipes exit_code))"
| "adv_exec (AdvPipes exit_code) (AdvPipesDone (Inl x)) = ([], Threw x)"
| "adv_exec (AdvPipes exit_code) (AdvPipesDone (Inr u)) = ([], Returned exit_code)"
| "adv_exec s e = ([], Suspended s)"

text \<open>Signals are translated as in \<open>echo_coro_signal_advanced.cpp\<close>.\<close>

definition ping_signal_handling :: "cancel_enum \<Rightarrow> (unit, error_code \<times> signum, signal_action, unit) body" where
  "ping_signal_handling = signal_handling"

text \<open>\<open>with_signal_handling\<close>: the parallel group delivers the exception and the value of the task.\<close>

definition with_signal_handling :: "exception_ptr \<Rightarrow> int \<Rightarrow> exn + int" where
  "with_signal_handling ex1 r1 = (case ex1 of Some x \<Rightarrow> Inl x | None \<Rightarrow> Inr r1)"

text \<open>\<open>main\<close>: what it executes, or the exit code for a missing argument.\<close>

definition ping_main :: "string list \<Rightarrow> int + string \<times> string list" where
  "ping_main argv = (if length argv < 2 then Inl 1 else Inr (argv ! 1, make_args (drop 1 argv)))"

section \<open>Logging inside execute\<close>

text \<open>While the child's output is logged, \<open>execute\<close> performs exactly what \<open>log\<close> performs.\<close>

lemma exec_embeds_log:
  assumes "drive (log_body E) (Suspended buf) es = (as, c)"
  shows "(\<forall>buf'. c = Suspended buf' \<longrightarrow>
      drive (exec_body E) (Suspended (ExLog buf)) (map ExLogEvent es) = (map ExLogAction as, Suspended (ExLog buf')))
    \<and> (\<forall>x. c = Threw x \<longrightarrow>
      drive (exec_body E) (Suspended (ExLog buf)) (map ExLogEvent es) = (map ExLogAction as, Threw x))
    \<and> (\<forall>u. c = Returned u \<longrightarrow>
      drive (exec_body E) (Suspended (ExLog buf)) (map ExLogEvent es) = (map ExLogAction as @ [WaitChild], Suspended ExWait))"
  using assms
proof (induction es arbitrary: buf as c)
  case Nil
  then show ?case by auto
next
  case (Cons e es)
  have wait: "drive (exec_body E) (Suspended ExWait) (map ExLogEvent fs) = ([], Suspended ExWait)" for fs
    by (induction fs) auto
  obtain bs c1 where b: "log_body E buf e = (bs, c1)" by fastforce
  show ?case
  proof (cases c1)
    case (Suspended buf1)
    obtain as' where run: "drive (log_body E) (Suspended buf1) es = (as', c)" "as = bs @ as'"
      using Cons.prems b Suspended by (auto split: prod.splits)
    from Cons.IH [OF run(1)] run(2) b Suspended show ?thesis by auto
  qed (use Cons.prems b wait in auto)
qed

section \<open>Properties\<close>

text \<open>\<open>execute\<close> of \<open>ping.cpp\<close> returns the exit code of the child only after the pipe has reached its
  end and every line of the child's output has been handled, exactly once and in order; before that
  it does not wait for the child. A read error is thrown without waiting.\<close>

lemma execute_logs_then_waits:
  assumes "read_until_ok E [] es" and "uncancelled E es"
    and "drive (log_body E) (snd log_start) es = (as, c)"
    and "exec_start Success path args = (bs, c0)"
  shows "(c = Returned () \<longrightarrow>
      drive (exec_body E) c0 (map ExLogEvent es @ [ExChildDone Success exit_code])
        = (map ExLogAction as @ [WaitChild], Returned exit_code)
      \<and> handled as = text_lines (fills es))
    \<and> (c \<noteq> Returned () \<longrightarrow> WaitChild \<notin> set (fst (drive (exec_body E) c0 (map ExLogEvent es))))
    \<and> (\<forall>x. c = Threw x \<longrightarrow> snd (drive (exec_body E) c0 (map ExLogEvent es)) = Threw x)"
proof -
  have run: "drive (log_body E) (Suspended []) es = (as, c)" using assms(3) by (simp add: log_start_def)
  have c0: "c0 = Suspended (ExLog [])" using assms(4) by (simp add: exec_start_def log_start_def)
  note emb = exec_embeds_log [OF run]
  show ?thesis
    using emb log_run [OF assms(1,2) run] c0 by (cases c) (auto simp: drive_append)
qed

text \<open>C40: SIGINT in \<open>ping_signal.cpp\<close>: a signal that arrives while the child runs interrupts it, once,
  and \<open>execute\<close> goes on; the handler of a wait that ended with \<open>execute\<close> leaves the child alone. But a
  signal whose handler is still queued when \<open>execute\<close> ends makes the handler use the destroyed child.\<close>

theorem ping_signal_interrupts:
  assumes "ex_ctl st = Suspended s" and "watch st = WPending" and "\<not> child_fault st"
  shows "steps (signal_exec_step E) st [SigArrives, SigHandlerRuns, SigArrives, SigHandlerRuns]
      = ([InterruptChild], st\<lparr>watch := WDone\<rparr>)
    \<and> (finished (ex_ctl (snd (signal_exec_step E st (PExec e)))) \<longrightarrow>
        InterruptChild \<notin> set (fst (steps (signal_exec_step E) st [PExec e, SigArrives, SigHandlerRuns]))
        \<and> \<not> child_fault (snd (steps (signal_exec_step E) st [PExec e, SigArrives, SigHandlerRuns])))
    \<and> (finished (ex_ctl (snd (signal_exec_step E st (PExec e)))) \<longrightarrow>
        child_fault (snd (steps (signal_exec_step E) st [SigArrives, PExec e, SigHandlerRuns])))"
proof -
  obtain as c where b: "drive (exec_body E) (ex_ctl st) [e] = (as, c)" by fastforce
  have "drive (exec_body E) (ex_ctl (st\<lparr>watch := WQueued\<rparr>)) [e] = (as, c)" using b by simp
  with assms b show ?thesis by (cases "finished c") (auto simp: leave_scope_def)
qed

theorem ping_signal_interrupts_witness:
  "child_fault (snd (steps (signal_exec_step asio_enum) \<lparr>ex_ctl = Suspended ExWait, watch = WPending, child_fault = False\<rparr>
     [SigArrives, PExec (ExChildDone Success 0), SigHandlerRuns]))"
proof -
  let ?st = "\<lparr>ex_ctl = Suspended ExWait, watch = WPending, child_fault = False\<rparr>"
  have "ex_ctl ?st = Suspended ExWait" "watch ?st = WPending" "\<not> child_fault ?st" by simp_all
  from ping_signal_interrupts [OF this, of asio_enum "ExChildDone Success 0"]
  show ?thesis by (simp add: leave_scope_def)
qed

end
