(* ===== verification/Socket_Program.thy ===== *)
theory Socket_Program
  imports Process_Exec
begin

text \<open>
  \<open>cancellation/echo_coro_signal.cpp\<close> as a whole: the server with its table of sockets, the sessions that use
  the sockets by reference, and the handler of the one wait for a signal, which uses the acceptor and the
  table by reference. Server and sessions are those of \<open>Signal_Servers\<close>. The handler has the life cycle of the handler
  in \<open>ping_signal.cpp\<close> (\<open>watcher\<close>): it waits, is queued when a signal arrives, or is queued with an
  error when the signal set goes with the frame of the server.
\<close>

section \<open>The program\<close>

text \<open>\<open>so_echo\<close>: what each running session waits for; \<open>so_fault\<close>: the handler has used the frame of the
  server after its end.\<close>

record 'sock sock_program =
  so_server :: "'sock sig_server"
  so_echo :: "size_t \<Rightarrow> echo_state option"
  so_watch :: watcher
  so_fault :: bool

datatype 'sock sock_event =
    SoAccept error_code 'sock
  | SoSignal
  | SoHandler int "size_t \<Rightarrow> error_code"
  | SoStream size_t stream_event
  | SoPost

datatype 'sock sock_action = ServerAct "'sock sig_action" | EchoAct size_t stream_op

definition server_over :: "'sock sock_program \<Rightarrow> bool" where
  "server_over p \<longleftrightarrow> phase (so_server p) = Finished"

definition crashed :: "'sock sock_program \<Rightarrow> bool" where
  "crashed p \<longleftrightarrow> (case phase (so_server p) of Terminated x \<Rightarrow> True | _ \<Rightarrow> False)"

text \<open>The actions of the server: a spawned session starts reading.\<close>

fun start_echo :: "'sock sig_action \<Rightarrow> (size_t \<Rightarrow> echo_state option) \<Rightarrow> size_t \<Rightarrow> echo_state option" where
  "start_echo (SpawnEcho k s) m = m(k \<mapsto> AtRead)"
| "start_echo _ m = m"

fun echo_acts :: "'sock sig_action \<Rightarrow> 'sock sock_action list" where
  "echo_acts (SpawnEcho k s) = ServerAct (SpawnEcho k s) # map (EchoAct k) (fst coro_start)"
| "echo_acts a = [ServerAct a]"

text \<open>A step of the server. When it ends, the signal set is destroyed.\<close>

definition server_does ::
  "'sock sig_event \<Rightarrow> 'sock sock_program \<Rightarrow> 'sock sock_action list \<times> 'sock sock_program" where
  "server_does ev p =
     (case sig_step (so_server p) ev of
        (as, srv) \<Rightarrow>
          (concat (map echo_acts as),
           p\<lparr>so_server := srv, so_echo := foldl (\<lambda>m a. start_echo a m) (so_echo p) as,
             so_watch := (if phase srv = Finished \<and> so_watch p = WPending then WAborted else so_watch p)\<rparr>))"

fun sock_program_step :: "('sock sock_program, 'sock sock_event, 'sock sock_action) stepper" where
  "sock_program_step p (SoAccept ec sock) = (if crashed p then ([], p) else server_does (Accepted ec sock) p)"
| "sock_program_step p SoPost = (if crashed p then ([], p) else server_does PostDone p)"
| "sock_program_step p SoSignal = ([], if so_watch p = WPending \<and> \<not> crashed p then p\<lparr>so_watch := WQueued\<rparr> else p)"
| "sock_program_step p (SoHandler signum shut) =
     (if crashed p then ([], p)
      else (case so_watch p of
              WQueued \<Rightarrow>
                if server_over p then ([], p\<lparr>so_watch := WDone, so_fault := True\<rparr>)
                else server_does (Signalled Success signum shut) (p\<lparr>so_watch := WDone\<rparr>)
            | WAborted \<Rightarrow> ([], p\<lparr>so_watch := WDone\<rparr>)
            | _ \<Rightarrow> ([], p)))"
| "sock_program_step p (SoStream k e) =
     (case so_echo p k of
        Some s \<Rightarrow>
          if crashed p then ([], p)
          else (case signal_echo s e of
                  (ops, Suspended s') \<Rightarrow> (map (EchoAct k) ops, p\<lparr>so_echo := (so_echo p)(k \<mapsto> s')\<rparr>)
                | (ops, Returned r) \<Rightarrow> server_does (SessionEnded k None) (p\<lparr>so_echo := (so_echo p)(k := None)\<rparr>)
                | (ops, Threw x) \<Rightarrow> server_does (SessionEnded k (Some x)) (p\<lparr>so_echo := (so_echo p)(k := None)\<rparr>))
      | None \<Rightarrow> ([], p))"

definition sock_main :: "'sock sock_program" where
  "sock_main = \<lparr>so_server = snd sig_start, so_echo = Map.empty, so_watch = WPending, so_fault = False\<rparr>"

section \<open>The table and the sessions\<close>

definition keys_of :: "'sock sig_server \<Rightarrow> size_t set" where
  "keys_of st = fst ` set (sockets st)"

lemma sig_step_keys:
  assumes "sig_step st ev = (as, st')"
  shows "keys_of st' = keys_of st \<union> set (ids sig_spawns as) - set (sig_ends ev)"
  using sig_step_table [OF assms] unfolding keys_of_def set_map by (elim disjE conjE) simp_all

definition sock_ok :: "'sock sock_program \<Rightarrow> bool" where
  "sock_ok p \<longleftrightarrow> keys_of (so_server p) = dom (so_echo p)
     \<and> (phase (so_server p) = Finished \<longrightarrow> sockets (so_server p) = [] \<and> so_watch p \<noteq> WPending)
     \<and> (so_fault p \<longrightarrow> phase (so_server p) = Finished)"

lemma spawn_keys:
  assumes "sig_step st ev = (as, st')"
  shows "dom (foldl (\<lambda>m a. start_echo a m) m as) = dom m \<union> set (ids sig_spawns as)"
proof (induction as arbitrary: m)
  case (Cons a as)
  then show ?case by (cases a) auto
qed simp

lemma sig_finished:
  assumes "sig_step st ev = (as, st')" and "phase st' = Finished" and "phase st = Finished \<longrightarrow> sockets st = []"
  shows "sockets st' = []"
  using assms
  by (cases ev) (auto simp: sig_accepted_def sig_drain_def sig_on_signal_def Let_def erase_def
      split: if_splits server_phase.splits option.splits prod.splits)

lemma sig_finished_stays: "sig_step st ev = (as, st') \<Longrightarrow> phase st = Finished \<Longrightarrow> phase st' = Finished"
  by (cases ev) auto

lemma server_does_ok:
  assumes "sock_ok p" and "server_does ev p = (as, p')" and "sig_ends ev = []"
  shows "sock_ok p'"
proof -
  obtain bs srv where s: "sig_step (so_server p) ev = (bs, srv)" by fastforce
  have p': "so_server p' = srv" "so_echo p' = foldl (\<lambda>m a. start_echo a m) (so_echo p) bs" "so_fault p' = so_fault p"
    "so_watch p' = (if phase srv = Finished \<and> so_watch p = WPending then WAborted else so_watch p)"
    using assms(2) s by (auto simp: server_does_def)
  have "keys_of srv = dom (so_echo p')"
    using sig_step_keys [OF s] assms(1,3) by (simp add: p'(2) spawn_keys [OF s] sock_ok_def)
  moreover have "phase srv = Finished \<Longrightarrow> sockets srv = []"
    using sig_finished [OF s] assms(1) by (simp add: sock_ok_def)
  ultimately show ?thesis using p' assms(1) sig_finished_stays [OF s] by (auto simp: sock_ok_def)
qed

lemma session_ends_ok:
  assumes "sock_ok p" and "server_does (SessionEnded k ep) (p\<lparr>so_echo := (so_echo p)(k := None)\<rparr>) = (as, p')"
  shows "sock_ok p' \<and> as = [] \<and> so_echo p' = (so_echo p)(k := None) \<and> phase (so_server p') = phase (so_server p)
    \<and> so_watch p' = so_watch p"
proof -
  obtain bs srv where s: "sig_step (so_server p) (SessionEnded k ep) = (bs, srv)" by fastforce
  have "srv = (so_server p)\<lparr>sockets := erase k (sockets (so_server p))\<rparr>" and b: "bs = []" using s by simp_all
  then have srv: "keys_of srv = keys_of (so_server p) - {k}" "bs = []" "phase srv = phase (so_server p)"
    "sockets (so_server p) = [] \<longrightarrow> sockets srv = []"
    by (simp_all add: keys_of_def erase_def [of k "[]"])
  have w: "\<not> (phase (so_server p) = Finished \<and> so_watch p = WPending)" using assms(1) by (auto simp: sock_ok_def)
  have "as = []" "p' = p\<lparr>so_echo := (so_echo p)(k := None), so_server := srv\<rparr>"
    using assms(2) s srv(2,3) w by (auto simp: server_does_def simp del: sig_step.simps)
  then show ?thesis using srv assms(1) by (simp add: sock_ok_def)
qed

lemma sock_ok_step:
  assumes "sock_ok p" and "sock_program_step p ev = (as, p')"
  shows "sock_ok p'"
proof (cases ev)
  case (SoAccept ec sock)
  with assms server_does_ok [OF assms(1)] show ?thesis by (auto split: if_splits)
next
  case SoPost
  with assms server_does_ok [OF assms(1)] show ?thesis by (auto split: if_splits)
next
  case SoSignal
  with assms show ?thesis by (auto simp: sock_ok_def split: if_splits)
next
  case (SoHandler n shut)
  have "sock_ok (p\<lparr>so_watch := WDone\<rparr>)" using assms(1) by (simp add: sock_ok_def)
  note h = server_does_ok [OF this, of "Signalled Success n shut"]
  from SoHandler assms h show ?thesis
    by (auto simp: sock_ok_def server_over_def split: if_splits watcher.splits)
next
  case (SoStream k e)
  show ?thesis
  proof (cases "so_echo p k")
    case (Some s)
    have d: "dom ((so_echo p)(k \<mapsto> s')) = dom (so_echo p)" for s' using Some by auto
    obtain ops c where e: "signal_echo s e = (ops, c)" by fastforce
    show ?thesis
    proof (cases "crashed p")
      case False
      show ?thesis
      proof (cases c)
        case (Suspended s')
        with SoStream Some assms(2) e False have "p' = p\<lparr>so_echo := (so_echo p)(k \<mapsto> s')\<rparr>" by simp
        with assms(1) d show ?thesis by (simp add: sock_ok_def)
      next
        case (Returned r)
        with SoStream Some assms(2) e False session_ends_ok [OF assms(1), of k None as p'] show ?thesis by simp
      next
        case (Threw x)
        with SoStream Some assms(2) e False session_ends_ok [OF assms(1), of k "Some x" as p'] show ?thesis by simp
      qed
    qed (use SoStream Some assms in simp)
  qed (use SoStream assms in auto)
qed

section \<open>Sessions while the server drains\<close>

fun stream_ev :: "size_t \<Rightarrow> 'sock sock_event \<Rightarrow> stream_event list" where
  "stream_ev k (SoStream j e) = (if j = k then [e] else [])"
| "stream_ev k _ = []"

definition stream_evs :: "size_t \<Rightarrow> 'sock sock_event list \<Rightarrow> stream_event list" where
  "stream_evs k es = concat (map (stream_ev k) es)"

lemma stream_evs_simps [simp]: "stream_evs k [] = []" "stream_evs k (e # es) = stream_ev k e @ stream_evs k es"
  by (simp_all add: stream_evs_def)

fun waiting :: "(echo_state, unit) ctl \<Rightarrow> echo_state option" where
  "waiting (Suspended s) = Some s"
| "waiting _ = None"

definition session_after :: "echo_state option \<Rightarrow> stream_event list \<Rightarrow> echo_state option" where
  "session_after so es = (case so of Some s \<Rightarrow> waiting (snd (drive coro_session (Suspended s) es)) | None \<Rightarrow> None)"

lemma session_after_Nil [simp]: "session_after so [] = so"
  by (cases so) (simp_all add: session_after_def)

lemma session_after_None [simp]: "session_after None es = None"
  by (simp add: session_after_def)

lemma session_after_step: "session_after (Some s) [e] = waiting (snd (signal_echo s e))"
  by (auto simp: session_after_def signal_echo_def split: prod.splits ctl.splits)

lemma session_after_append: "session_after so (es @ fs) = session_after (session_after so es) fs"
proof (cases so)
  case (Some s)
  obtain ops c where "drive coro_session (Suspended s) es = (ops, c)" by fastforce
  with Some show ?thesis by (cases c) (auto simp: session_after_def drive_append split: prod.splits)
qed (simp add: session_after_def)

definition draining :: "'sock sock_program \<Rightarrow> bool" where
  "draining p \<longleftrightarrow> sock_ok p \<and> phase (so_server p) \<in> {Draining, Finished} \<and> so_watch p = WDone \<and> \<not> so_fault p"

lemma sock_draining_step:
  assumes "draining p" and "sock_program_step p ev = (as, p')"
  shows "draining p' \<and> (\<forall>k. so_echo p' k = session_after (so_echo p k) (stream_ev k ev))"
proof -
  have ok: "sock_ok p'" using sock_ok_step [OF _ assms(2)] assms(1) by (simp add: draining_def)
  have nc: "\<not> crashed p" using assms(1) by (auto simp: draining_def crashed_def)
  show ?thesis
  proof (cases ev)
    case (SoStream k e)
    show ?thesis
    proof (cases "so_echo p k")
      case None
      with SoStream assms show ?thesis by auto
    next
      case (Some s)
      have sok: "sock_ok p" using assms(1) by (simp add: draining_def)
      obtain ops c where e: "signal_echo s e = (ops, c)" by fastforce
      show ?thesis
      proof (cases c)
        case (Suspended s')
        with SoStream Some assms(2) e nc have "p' = p\<lparr>so_echo := (so_echo p)(k \<mapsto> s')\<rparr>" by simp
        with ok assms(1) Some SoStream e Suspended show ?thesis by (auto simp: draining_def session_after_step)
      next
        case (Returned r)
        with SoStream Some assms e nc session_ends_ok [OF sok, of k None as p'] ok show ?thesis
          by (auto simp: draining_def session_after_step server_does_def split: prod.splits)
      next
        case (Threw x)
        with SoStream Some assms e nc session_ends_ok [OF sok, of k "Some x" as p'] ok show ?thesis
          by (auto simp: draining_def session_after_step server_does_def split: prod.splits)
      qed
    qed
  next
    case SoPost
    with assms nc ok show ?thesis
      by (auto simp: draining_def server_does_def sig_drain_def split: if_splits)
  qed (use assms nc ok in \<open>auto simp: draining_def server_does_def split: if_splits\<close>)
qed

lemma sock_draining_run:
  assumes "steps sock_program_step p es = (as, p')" and "draining p"
  shows "draining p' \<and> (\<forall>k. so_echo p' k = session_after (so_echo p k) (stream_evs k es))"
  using assms
proof (induction es arbitrary: p as)
  case (Cons ev es)
  obtain as1 p1 where s: "sock_program_step p ev = (as1, p1)" by fastforce
  then obtain as2 where r: "steps sock_program_step p1 es = (as2, p')"
    using Cons.prems(1) by (auto simp del: sock_program_step.simps split: prod.splits)
  from sock_draining_step [OF Cons.prems(2) s] Cons.IH [OF r] show ?case by (simp add: session_after_append)
qed simp

text \<open>After \<open>shutdown\<close>, the operation that is outstanding may still succeed, the next one fails.\<close>

fun cut_off :: "echo_state \<Rightarrow> stream_event list \<Rightarrow> bool" where
  "cut_off AtRead (ReadDone ec bs # es) =
     (ec \<noteq> Success \<or> (case es of WriteDone ec' n # _ \<Rightarrow> ec' \<noteq> Success | _ \<Rightarrow> False))"
| "cut_off AtWrite (WriteDone ec n # es) =
     (ec \<noteq> Success \<or> (case es of ReadDone ec' bs # _ \<Rightarrow> ec' \<noteq> Success | _ \<Rightarrow> False))"
| "cut_off s es = False"

lemma cut_off_ends: "cut_off s es \<Longrightarrow> session_after (Some s) es = None"
  by (cases "(s, es)" rule: cut_off.cases)
     (auto simp: session_after_def split: list.splits stream_event.splits)

text \<open>Sessions that are cut off end, and then the server does.\<close>

lemma sock_drained:
  assumes "steps sock_program_step p es = (as, p')" and "draining p"
    and "\<forall>k s. so_echo p k = Some s \<longrightarrow> cut_off s (stream_evs k es)"
  shows "so_echo p' = Map.empty
    \<and> (phase (so_server p') = Finished \<or> phase (so_server (snd (sock_program_step p' SoPost))) = Finished)"
proof -
  note run = sock_draining_run [OF assms(1,2)]
  have "so_echo p' k = None" for k
    using run assms(3) cut_off_ends by (cases "so_echo p k") auto
  then have e: "so_echo p' = Map.empty" by auto
  with run have "sockets (so_server p') = []" by (auto simp: draining_def sock_ok_def keys_of_def)
  with run e show ?thesis by (auto simp: draining_def server_does_def sig_drain_def crashed_def)
qed

text \<open>The signal while the server accepts.\<close>

lemma sock_signal:
  fixes p :: "'sock sock_program"
  assumes "phase (so_server p) = Accepting" and "so_watch p = WPending"
    and "\<And>k. k \<in> fst ` set (sockets (so_server p)) \<Longrightarrow> shut k = Success"
  shows "steps sock_program_step p [SoSignal, SoHandler signum shut]
    = (map ServerAct (CancelAcceptor # map ShutdownSocket (map fst (sockets (so_server p)))), p\<lparr>so_watch := WDone\<rparr>)"
proof -
  let ?ks = "map fst (sockets (so_server p))"
  have "foldl (\<lambda>m a. start_echo a m) m (map ShutdownSocket ks :: 'sock sig_action list) = m" for m and ks :: "size_t list"
    by (induction ks) auto
  moreover have "concat (map echo_acts (map ShutdownSocket ks)) = map ServerAct (map ShutdownSocket ks :: 'sock sig_action list)"
    for ks :: "size_t list"
    by (induction ks) auto
  moreover have "shutdown_all shut ?ks = (map ShutdownSocket ?ks :: 'sock sig_action list, None)"
    using assms(3) by (intro shutdown_all_ok) auto
  ultimately show ?thesis using assms(1,2)
    by (simp add: server_does_def sig_on_signal_def crashed_def server_over_def del: map_map)
qed

text \<open>The accept that completes with an error, before and after the handler has run.\<close>

lemma sock_accept_error:
  assumes "phase (so_server p) = Accepting" and "ec \<noteq> Success"
    and "sock_program_step (p\<lparr>so_watch := WDone\<rparr>) (SoAccept ec sock) = (as, p')"
  shows "so_echo p' = so_echo p \<and> so_fault p' = so_fault p \<and> so_watch p' = WDone
    \<and> phase (so_server p') \<in> {Draining, Finished} \<and> (\<forall>k. ServerAct (ShutdownSocket k) \<notin> set as)"
  using assms by (auto simp: server_does_def sig_accepted_def sig_drain_def crashed_def split: if_splits)

lemma sock_signal_too_late:
  assumes "phase (so_server p) = Accepting" and "so_watch p = WPending" and "sockets (so_server p) = []" and "ec \<noteq> Success"
  shows "so_fault (snd (steps sock_program_step p [SoSignal, SoAccept ec sock, SoHandler signum shut]))"
  using assms by (simp add: server_does_def sig_accepted_def sig_drain_def crashed_def server_over_def)

section \<open>Properties\<close>



end
