(* ===== verification/Session_Spec.thy ===== *)
theory Session_Spec
  imports Signal_Servers Promise_Servers
begin

text \<open>
  What the four servers of \<open>cancellation/\<close> promise in common, as an abstract labelled transition system
  on the set of running sessions, and the proof that each of them refines it. The servers differ in
  what their tables hold (sockets, cancellation signals, promises), in how sessions are told to end
  and in how, or whether, the server waits for them. The labels of a run are read off what the server
  does: the accept operations it starts, the sessions it starts with their identifiers, the sessions
  whose completion it is told, and the changes of its phase, in the order in which they happen.
\<close>

section \<open>Specification\<close>

record session_spec =
  run_ids :: "size_t set"
  mode :: server_phase

datatype spec_label = Listen | Start size_t | Ended size_t | Stop | Finish | Abort exn

text \<open>Only while it accepts a server starts accept operations and sessions; sessions end at any time; a
  server stops accepting once and for all; it finishes when it has stopped and no session runs. The
  program may be terminated by an exception.\<close>

fun spec_next :: "session_spec \<Rightarrow> spec_label \<Rightarrow> session_spec option" where
  "spec_next s Listen = (if mode s = Accepting then Some s else None)"
| "spec_next s (Start k) = (if mode s = Accepting then Some (s\<lparr>run_ids := insert k (run_ids s)\<rparr>) else None)"
| "spec_next s (Ended k) = Some (s\<lparr>run_ids := run_ids s - {k}\<rparr>)"
| "spec_next s Stop = (if mode s = Accepting then Some (s\<lparr>mode := Draining\<rparr>) else None)"
| "spec_next s Finish =
     (if mode s = Draining \<and> run_ids s = {} then Some (s\<lparr>mode := Finished\<rparr>) else None)"
| "spec_next s (Abort x) =
     (if mode s \<in> {Accepting, Draining} then Some (s\<lparr>mode := Terminated x\<rparr>) else None)"

fun spec_run :: "session_spec \<Rightarrow> spec_label list \<Rightarrow> session_spec option" where
  "spec_run s [] = Some s"
| "spec_run s (l # ls) = (case spec_next s l of None \<Rightarrow> None | Some s' \<Rightarrow> spec_run s' ls)"

definition spec_init :: session_spec where
  "spec_init = \<lparr>run_ids = {}, mode = Accepting\<rparr>"

lemma spec_run_append:
  "spec_run s (ls @ ls') = (case spec_run s ls of None \<Rightarrow> None | Some s' \<Rightarrow> spec_run s' ls')"
  by (induction ls arbitrary: s) (auto split: option.splits)

lemma spec_run_ended: "spec_run s (map Ended ks @ ls) = spec_run (s\<lparr>run_ids := run_ids s - set ks\<rparr>) ls"
proof (induction ks arbitrary: s)
  case (Cons k ks)
  have "run_ids s - {k} - set ks = run_ids s - set (k # ks)" by auto
  with Cons show ?case by simp
qed simp

text \<open>A stopped server starts nothing.\<close>

lemma spec_run_stopped:
  assumes "spec_run s ls = Some s'" and "mode s \<noteq> Accepting"
  shows "mode s' \<noteq> Accepting \<and> Listen \<notin> set ls \<and> (\<forall>k. Start k \<notin> set ls) \<and> run_ids s' \<subseteq> run_ids s"
  using assms
proof (induction ls arbitrary: s)
  case (Cons l ls)
  then obtain s1 where s1: "spec_next s l = Some s1" "spec_run s1 ls = Some s'" by (auto split: option.splits)
  then have "mode s1 \<noteq> Accepting \<and> run_ids s1 \<subseteq> run_ids s \<and> l \<noteq> Listen \<and> (\<forall>k. l \<noteq> Start k)"
    using Cons.prems(2) by (cases l) (auto split: if_splits)
  with Cons.IH [OF s1(2)] show ?case by auto
qed simp

lemma spec_run_finished:
  assumes "spec_run s ls = Some s'" and "mode s = Finished \<longrightarrow> run_ids s = {}"
  shows "mode s' = Finished \<longrightarrow> run_ids s' = {}"
  using assms
proof (induction ls arbitrary: s)
  case (Cons l ls)
  then obtain s1 where s1: "spec_next s l = Some s1" "spec_run s1 ls = Some s'" by (auto split: option.splits)
  then have "mode s1 = Finished \<longrightarrow> run_ids s1 = {}" using Cons.prems(2) by (cases l) (auto split: if_splits)
  with Cons.IH [OF s1(2)] show ?case .
qed simp

lemma spec_after_stop:
  assumes "spec_run spec_init (ls @ Stop # ls') = Some s"
  shows "Listen \<notin> set ls' \<and> (\<forall>k. Start k \<notin> set ls') \<and> (mode s = Finished \<longrightarrow> run_ids s = {})"
proof -
  obtain s1 where "spec_run (s1\<lparr>mode := Draining\<rparr>) ls' = Some s"
    using assms by (auto simp: spec_run_append split: option.splits if_splits)
  from spec_run_stopped [OF this] spec_run_finished [OF assms] show ?thesis by (simp add: spec_init_def)
qed

section \<open>Servers that meet the specification\<close>

text \<open>The labels of a change of the phase. A change that the specification does not know has none, so
  that no run of the specification matches it.\<close>

definition phase_change :: "server_phase \<Rightarrow> server_phase \<Rightarrow> spec_label list" where
  "phase_change p q =
     (if p = q then []
      else case q of
        Accepting \<Rightarrow> []
      | Draining \<Rightarrow> [Stop]
      | Finished \<Rightarrow> (if p = Accepting then [Stop, Finish] else [Finish])
      | Terminated x \<Rightarrow> [Abort x])"

text \<open>The labels of a step, and of a run: what it is told, what it starts, how its phase changes.\<close>

definition step_labels ::
  "('st, 'ev, 'act) stepper \<Rightarrow> ('st \<Rightarrow> session_spec) \<Rightarrow> ('act \<Rightarrow> spec_label list) \<Rightarrow> ('ev \<Rightarrow> size_t list)
    \<Rightarrow> 'st \<Rightarrow> 'ev \<Rightarrow> spec_label list" where
  "step_labels f view starts ends st ev =
     (case f st ev of (as, st') \<Rightarrow>
        map Ended (ends ev) @ concat (map starts as) @ phase_change (mode (view st)) (mode (view st')))"

fun trace ::
  "('st, 'ev, 'act) stepper \<Rightarrow> ('st \<Rightarrow> session_spec) \<Rightarrow> ('act \<Rightarrow> spec_label list) \<Rightarrow> ('ev \<Rightarrow> size_t list)
    \<Rightarrow> 'st \<Rightarrow> 'ev list \<Rightarrow> spec_label list" where
  "trace f view starts ends st [] = []"
| "trace f view starts ends st (e # es) =
     step_labels f view starts ends st e @ trace f view starts ends (snd (f st e)) es"

locale session_server =
  fixes step :: "('st, 'ev, 'act) stepper"
    and view :: "'st \<Rightarrow> session_spec"
    and starts :: "'act \<Rightarrow> spec_label list"
    and ends :: "'ev \<Rightarrow> size_t list"
  assumes simulates: "spec_run (view st) (step_labels step view starts ends st ev) = Some (view (snd (step st ev)))"
begin

lemma run_simulates:
  "steps step st es = (as, st') \<Longrightarrow> spec_run (view st) (trace step view starts ends st es) = Some (view st')"
  by (induction es arbitrary: st as) (auto simp: spec_run_append simulates split: prod.splits)

lemma starts_in_trace: "steps step st es = (as, st') \<Longrightarrow> a \<in> set as \<Longrightarrow> set (starts a) \<subseteq> set (trace step view starts ends st es)"
  by (induction es arbitrary: st as) (fastforce simp: step_labels_def split: prod.splits)+

lemma nothing_after_stop:
  assumes "steps step st es = (as, st')" and "mode (view st) \<noteq> Accepting" and "a \<in> set as"
  shows "Listen \<notin> set (starts a) \<and> (\<forall>k. Start k \<notin> set (starts a))"
  using spec_run_stopped [OF run_simulates [OF assms(1)] assms(2)] starts_in_trace [OF assms(1,3)] by blast

end

definition sig_abs :: "'sock sig_server \<Rightarrow> session_spec" where
  "sig_abs st = \<lparr>run_ids = fst ` set (sockets st), mode = phase st\<rparr>"

definition adv_abs :: "'ch adv_server \<Rightarrow> session_spec" where
  "adv_abs st = \<lparr>run_ids = fst ` set (sessions st), mode = adv_phase st\<rparr>"

text \<open>The servers that own their sessions do not wait for them.\<close>

definition prom_abs :: "promise_server \<Rightarrow> session_spec" where
  "prom_abs st = \<lparr>run_ids = fst ` set (running st), mode = (if accepting st then Accepting else Draining)\<rparr>"

lemma abs_simps [simp]:
  "mode (sig_abs st1) = phase st1" "mode (adv_abs st2) = adv_phase st2"
  "mode (prom_abs st3) = (if accepting st3 then Accepting else Draining)"
  by (simp_all add: sig_abs_def adv_abs_def prom_abs_def)

lemma phase_change_same [simp]: "phase_change p p = []"
  by (simp add: phase_change_def)

fun sig_starts :: "'sock sig_action \<Rightarrow> spec_label list" where
  "sig_starts AsyncAccept = [Listen]"
| "sig_starts (SpawnEcho k s) = [Start k]"
| "sig_starts _ = []"

fun adv_starts :: "'sock adv_action \<Rightarrow> spec_label list" where
  "adv_starts AdvAsyncAccept = [Listen]"
| "adv_starts (AdvSpawn k s) = [Start k]"
| "adv_starts _ = []"

fun prom_starts :: "'sock prom_action \<Rightarrow> spec_label list" where
  "prom_starts PromAccept = [Listen]"
| "prom_starts (PromSpawn k s) = [Start k]"
| "prom_starts PromRejected = []"

fun prom_ends :: "'sock prom_event \<Rightarrow> size_t list" where
  "prom_ends (PromTaskDone k) = [k]"
| "prom_ends _ = []"

fun class_ends :: "'sock class_event \<Rightarrow> size_t list" where
  "class_ends (ClassTaskDone k) = [k]"
| "class_ends _ = []"

lemma shutdown_all_starts: "shutdown_all shut ks = (as, x) \<Longrightarrow> concat (map sig_starts as) = []"
  by (induction shut ks arbitrary: as rule: shutdown_all.induct) (auto split: if_splits prod.splits)

lemma sig_drain_simulates:
  assumes "sig_drain st = (as, st')" and "phase st \<in> {Accepting, Draining}"
  shows "spec_run (sig_abs st) (concat (map sig_starts as) @ phase_change (phase st) (phase st')) = Some (sig_abs st')"
  using assms by (auto simp: sig_drain_def sig_abs_def phase_change_def split: if_splits)

lemma sig_simulates: "spec_run (sig_abs st) (step_labels sig_step sig_abs sig_starts sig_ends st ev) = Some (sig_abs (snd (sig_step st ev)))"
proof (cases ev)
  case (Accepted ec s)
  obtain as st' where d: "sig_drain st = (as, st')" by fastforce
  from Accepted sig_drain_simulates [OF d] show ?thesis
    by (auto simp: step_labels_def sig_accepted_def Let_def d) (simp add: sig_abs_def)
next
  case (Signalled ec n shut)
  obtain as x where s: "shutdown_all shut (map fst (sockets st)) = (as :: 'a sig_action list, x)" by fastforce
  have "concat (map sig_starts (CancelAcceptor # as)) = []" using shutdown_all_starts [OF s] by simp
  with Signalled show ?thesis
    by (cases x; cases "phase st")
      (simp_all add: step_labels_def sig_on_signal_def sig_abs_def phase_change_def s del: concat_eq_Nil_conv)
next
  case (SessionEnded k ep)
  then show ?thesis by (simp add: step_labels_def sig_abs_def phase_change_def)
next
  case PostDone
  obtain as st' where d: "sig_drain st = (as, st')" by fastforce
  from PostDone sig_drain_simulates [OF d] show ?thesis
    by (auto simp: step_labels_def d)
qed

interpretation sig_spec: session_server sig_step sig_abs sig_starts sig_ends
  by unfold_locales (rule sig_simulates)

lemma adv_wait_simulates:
  fixes as :: "'sock adv_action list"
  assumes "adv_wait C st = (as, st')" and "adv_phase st \<in> {Accepting, Draining}"
  shows "spec_run (adv_abs st) (concat (map adv_starts as) @ phase_change (adv_phase st) (adv_phase st')) = Some (adv_abs st')"
  using assms by (auto simp: adv_wait_def adv_abs_def phase_change_def split: if_splits)

lemma adv_starts_simps [simp]:
  "concat (map adv_starts (adv_forward ty st)) = []" "concat (map adv_starts adv_accept) = [Listen]"
  by (auto simp: adv_forward_def adv_accept_def)

lemma adv_register_simulates:
  assumes "adv_register ec sock st = (as, st')" and "adv_phase st = Accepting"
  shows "spec_run (adv_abs st) (concat (map adv_starts as)) = Some (adv_abs st') \<and> adv_phase st' = Accepting"
  using assms by (auto simp: adv_register_def adv_abs_def split: if_splits)

lemma adv_simulates: "spec_run (adv_abs st) (step_labels (adv_step E C) adv_abs adv_starts adv_ends st ev) = Some (adv_abs (snd (adv_step E C st ev)))"
proof (cases ev)
  case (AdvAccepted ec s ty)
  show ?thesis
  proof (cases "adv_phase st = Accepting")
    case True
    obtain as1 st1 where r: "adv_register ec s st = (as1, st1)" by fastforce
    obtain as2 :: "'b adv_action list" and st2 where w: "adv_wait C st1 = (as2, st2)" by fastforce
    note reg = adv_register_simulates [OF r True]
    with adv_wait_simulates [OF w] AdvAccepted True show ?thesis
      by (simp add: step_labels_def adv_accepted_def r w spec_run_append)
  qed (simp add: AdvAccepted step_labels_def)
next
  case (AdvSessionEnded k ep)
  then show ?thesis by (simp add: step_labels_def adv_abs_def phase_change_def)
next
  case (AdvReceived ty)
  let ?st = "st\<lparr>adv_channel := ch_received C (adv_channel st)\<rparr>"
  obtain as2 :: "'b adv_action list" and st2 where w: "adv_wait C ?st = (as2, st2)" by fastforce
  have "adv_abs ?st = adv_abs st" by (simp add: adv_abs_def)
  with AdvReceived adv_wait_simulates [OF w] show ?thesis by (auto simp: step_labels_def Let_def w)
qed

interpretation adv_spec: session_server "adv_step E C" adv_abs adv_starts adv_ends for E C
  by unfold_locales (rule adv_simulates)

lemma cancel_tasks_keys [simp]: "fst ` set (cancel_tasks E ks rs) = fst ` set rs"
  by (force simp: cancel_tasks_def image_iff)

lemma prom_abs_simps [simp]:
  "prom_abs (spawn_task E st) = (prom_abs st)\<lparr>run_ids := insert (prom_next st) (run_ids (prom_abs st))\<rparr>"
  "prom_abs (task_done E k st) = (prom_abs st)\<lparr>run_ids := run_ids (prom_abs st) - {k}\<rparr>"
  "prom_abs (st\<lparr>accepting := False\<rparr>) = (prom_abs st)\<lparr>mode := Draining\<rparr>"
  "prom_abs (st\<lparr>self_cancelled := ty\<rparr>) = prom_abs st"
  "prom_abs (drop_table E st) = prom_abs st"
  by (auto simp: prom_abs_def spawn_task_def task_done_def drop_table_def use_table_def Let_def
       simp del: image_Collect dest!: map_of_eq_None_iff [THEN iffD1] split: option.splits)

lemma prom_simulates: "spec_run (prom_abs st) (step_labels (prom_step E) prom_abs prom_starts prom_ends st ev) = Some (prom_abs (snd (prom_step E st ev)))"
  by (cases ev) (auto simp: step_labels_def phase_change_def Let_def)

lemma class_simulates: "spec_run (prom_abs st) (step_labels (class_step E) prom_abs prom_starts class_ends st ev) = Some (prom_abs (snd (class_step E st ev)))"
  by (cases ev) (auto simp: step_labels_def phase_change_def class_destroy_def)

interpretation prom_spec: session_server "prom_step E" prom_abs prom_starts prom_ends for E
  by unfold_locales (rule prom_simulates)

interpretation class_spec: session_server "class_step E" prom_abs prom_starts class_ends for E
  by unfold_locales (rule class_simulates)

section \<open>Tables\<close>

text \<open>The tables of all servers are maps: sorted by the key, no key twice.\<close>

lemma adv_table_step:
  fixes ev :: "'sock adv_event" and as :: "'sock adv_action list"
  assumes "table_ok (sessions st)" and "adv_step E C st ev = (as, st')"
  shows "table_ok (sessions st')"
proof (cases ev)
  case (AdvAccepted ec s ty)
  obtain as1 st1 where r: "adv_register ec s st = (as1, st1)" by fastforce
  obtain as2 :: "'sock adv_action list" and st2 where w: "adv_wait C st1 = (as2, st2)" by fastforce
  have "table_ok (sessions st1)" "sessions st2 = sessions st1"
    using r w assms(1) by (auto simp: adv_register_def adv_wait_def table_ok_emplace split: if_splits)
  with assms AdvAccepted show ?thesis by (auto simp: adv_accepted_def r w split: if_splits)
qed (use assms in \<open>auto simp: table_ok_erase adv_wait_def Let_def split: if_splits\<close>)

lemma running_simps [simp]:
  "fst ` set (running (spawn_task E st)) = insert (prom_next st) (fst ` set (running st))"
  "fst ` set (running (task_done E k st)) = fst ` set (running st) - {k}"
  "fst ` set (running (drop_table E st)) = fst ` set (running st)"
  by (metis (no_types, lifting) prom_abs_simps(1) prom_abs_def session_spec.select_convs(1) session_spec.update_convs(1))
    (metis (no_types, lifting) prom_abs_simps(2) prom_abs_def session_spec.select_convs(1) session_spec.update_convs(1),
     simp add: drop_table_def)

text \<open>One step, seen from the running tasks, whatever has become of the table.\<close>

lemma prom_step_running:
  assumes "prom_step E st ev = (as, st')"
  shows "ids prom_spawns as = [] \<and> prom_next st' = prom_next st \<and>
      set (map fst (running st')) = set (map fst (running st)) - set (prom_ends ev)
    \<or> ids prom_spawns as = [prom_next st] \<and> prom_next st' = prom_next st + 1 \<and> prom_ends ev = [] \<and>
      set (map fst (running st')) = insert (prom_next st) (set (map fst (running st)))"
proof (cases ev)
  case (PromAccepted ec s)
  with assms show ?thesis
    by (cases "accepting st"; cases "ec = Success"; cases "self_cancelled st = ct_none E")
      (simp_all add: Let_def, (elim conjE, hypsubst, simp)+)
next
  case (PromCancel ty)
  with assms show ?thesis by (simp split: if_splits) (elim conjE, hypsubst, simp)+
next
  case (PromTaskDone k)
  with assms have "st' = task_done E k st" "as = []" by simp_all
  with PromTaskDone show ?thesis by simp
qed

lemma class_step_running:
  assumes "class_step E st ev = (as, st')"
  shows "ids prom_spawns as = [] \<and> prom_next st' = prom_next st \<and>
      set (map fst (running st')) = set (map fst (running st)) - set (class_ends ev)
    \<or> ids prom_spawns as = [prom_next st] \<and> prom_next st' = prom_next st + 1 \<and> class_ends ev = [] \<and>
      set (map fst (running st')) = insert (prom_next st) (set (map fst (running st)))"
proof (cases ev)
  case (ClassAccepted ec s)
  with assms show ?thesis
    by (cases "accepting st"; cases "ec = Success"; cases "self_cancelled st = ct_none E")
      (simp_all, (elim conjE, hypsubst, simp)+)
next
  case ClassDestroy
  with assms have "st' = class_destroy E st" "as = []" by simp_all
  with ClassDestroy show ?thesis by (cases "alive st") (simp_all add: class_destroy_def)
next
  case (ClassTaskDone k)
  with assms have "st' = task_done E k st" "as = []" by simp_all
  with ClassTaskDone show ?thesis by simp
qed

interpretation prom_tasks: session_registry "prom_step E" "\<lambda>st. map fst (running st)" prom_next prom_spawns prom_ends for E
proof unfold_locales
  fix st :: promise_server and ev :: "'a prom_event" and as st'
  assume "prom_step E st ev = (as, st')"
  note t = prom_step_running [OF this]
  show "ids prom_spawns as = [] \<and> prom_next st' = prom_next st
      \<or> ids prom_spawns as = [prom_next st] \<and> prom_next st' = prom_next st + 1"
    using t by blast
  show "set (map fst (running st')) \<subseteq> set (map fst (running st)) \<union> set (ids prom_spawns as) - set (prom_ends ev)"
    "set (map fst (running st')) = set (map fst (running st)) \<union> set (ids prom_spawns as) - set (prom_ends ev)"
    using t by (elim disjE conjE; simp)+
qed

interpretation class_tasks: session_registry "class_step E" "\<lambda>st. map fst (running st)" prom_next prom_spawns class_ends for E
proof unfold_locales
  fix st :: promise_server and ev :: "'a class_event" and as st'
  assume "class_step E st ev = (as, st')"
  note t = class_step_running [OF this]
  show "ids prom_spawns as = [] \<and> prom_next st' = prom_next st
      \<or> ids prom_spawns as = [prom_next st] \<and> prom_next st' = prom_next st + 1"
    using t by blast
  show "set (map fst (running st')) \<subseteq> set (map fst (running st)) \<union> set (ids prom_spawns as) - set (class_ends ev)"
    "set (map fst (running st')) = set (map fst (running st)) \<union> set (ids prom_spawns as) - set (class_ends ev)"
    using t by (elim disjE conjE; simp)+
qed

text \<open>While the table exists it holds exactly the running tasks, none of which is cancelled.\<close>

definition owns_running :: "cancel_enum \<Rightarrow> promise_server \<Rightarrow> bool" where
  "owns_running E st \<longleftrightarrow> table_ok (promises st) \<and> (\<not> alive st \<longrightarrow> promises st = [])
     \<and> (alive st \<longrightarrow> fst ` set (promises st) = fst ` set (running st) \<and> (\<forall>(k, c) \<in> set (running st). c = ct_none E))"

lemma spawn_owns:
  "owns_running E st \<Longrightarrow> alive st \<Longrightarrow> prom_next st \<notin> fst ` set (running st) \<Longrightarrow> owns_running E (spawn_task E st)"
  by (auto simp: owns_running_def spawn_task_def use_table_def Let_def table_ok_emplace simp del: image_Collect)

lemma done_owns: "owns_running E st \<Longrightarrow> owns_running E (task_done E k st)"
proof -
  assume o: "owns_running E st"
  show ?thesis
  proof (cases "map_of (running st) k")
    case (Some c)
    then have "(k, c) \<in> set (running st)" by (rule map_of_SomeD)
    moreover have "set (erase k (running st)) \<subseteq> set (running st)" by (auto simp: erase_def)
    moreover have "c = ct_none E" if "alive st" using o that \<open>(k, c) \<in> set (running st)\<close> by (auto simp: owns_running_def)
    moreover have "erase k [] = []" by (simp add: erase_def)
    ultimately show ?thesis using o Some
      by (cases "alive st"; cases "c = ct_none E")
        (auto simp: owns_running_def task_done_def use_table_def table_ok_erase simp del: image_Collect)
  qed (use o in \<open>simp add: task_done_def\<close>)
qed

lemma owns_simps [simp]:
  "owns_running E (drop_table E st)" "owns_running E (st\<lparr>self_cancelled := ty\<rparr>) = owns_running E st"
  "owns_running E (st\<lparr>accepting := False\<rparr>) = owns_running E st"
  by (auto simp: owns_running_def)

lemma prom_step_owns:
  assumes "owns_running E st \<and> (prom_inv E st \<and> (alive st \<longleftrightarrow> accepting st))" and "cancel_enum_ok E"
    and "prom_step E st ev = (as, st')" and "ids prom_spawns as = [] \<or> prom_next st \<notin> set (map fst (running st))"
  shows "owns_running E st' \<and> (prom_inv E st' \<and> (alive st' \<longleftrightarrow> accepting st'))"
proof
  show "prom_inv E st' \<and> (alive st' \<longleftrightarrow> accepting st')" using prom_step_inv [OF assms(2) _ assms(3)] assms(1) by simp
  show "owns_running E st'"
    using assms(1,3,4) spawn_owns [of E st] done_owns [of E st]
    by (cases ev) (auto simp: Let_def split: if_splits)
qed

lemma class_step_owns:
  assumes "owns_running E st \<and> prom_inv E st" and "cancel_enum_ok E"
    and "class_step E st ev = (as, st')" and "ids prom_spawns as = [] \<or> prom_next st \<notin> set (map fst (running st))"
  shows "owns_running E st' \<and> prom_inv E st'"
proof
  show "prom_inv E st'" using class_step_inv [OF assms(2) _ assms(3)] assms(1) by simp
  show "owns_running E st'"
    using assms(1,3,4) spawn_owns [of E st] done_owns [of E st]
    by (cases ev) (auto simp: class_destroy_def prom_inv_def split: if_splits)
qed

lemma owns_table:
  assumes "owns_running E st"
  shows "sorted (map fst (promises st)) \<and> distinct (map fst (promises st))
    \<and> (alive st \<longrightarrow> set (map fst (promises st)) = set (map fst (running st))) \<and> (\<not> alive st \<longrightarrow> promises st = [])"
  using assms by (auto simp: owns_running_def table_ok_def)

lemma sig_tables:
  assumes "steps sig_step (snd sig_start) es = (as, st)"
    and "completes_once sig_step sig_spawns sig_ends {} (snd sig_start) es" and "length (ids sig_spawns as) \<le> 2 ^ 64"
  shows "table_exact (map fst (sockets st)) (next_id st) (ids sig_spawns as) (ids sig_ends es)"
proof -
  have init: "map fst (sockets (snd sig_start)) = []" "next_id (snd sig_start) = 0" by (simp_all add: sig_start_def)
  have "table_ok (sockets st) \<and> (phase st = Finished \<longrightarrow> sockets st = [])"
    by (rule steps_invariant [OF assms(1)]) (simp add: sig_start_def, rule sig_step_inv)
  with sig.exact_table [OF assms(1) init assms(2,3)] show ?thesis by (simp add: table_ok_def)
qed

lemma adv_tables:
  assumes "steps (adv_step E C) (adv_init ch) es = (as, st)"
    and "completes_once (adv_step E C) adv_spawns adv_ends {} (adv_init ch) es" and "length (ids adv_spawns as) \<le> 2 ^ 64"
  shows "table_exact (map fst (sessions st)) (adv_next st) (ids adv_spawns as) (ids adv_ends es)"
proof -
  have init: "map fst (sessions (adv_init ch)) = []" "adv_next (adv_init ch) = 0" by (simp_all add: adv_init_def)
  have "table_ok (sessions st)"
    by (rule steps_invariant [OF assms(1), where I = "\<lambda>st. table_ok (sessions st)"]) (simp add: adv_init_def, rule adv_table_step)
  with adv.exact_table [OF assms(1) init assms(2,3)] show ?thesis by (simp add: table_ok_def)
qed

lemma prom_tables:
  assumes "cancel_enum_ok E" and "steps (prom_step E) (prom_init E) es = (as, st)"
    and "completes_once (prom_step E) prom_spawns prom_ends {} (prom_init E) es" and "length (ids prom_spawns as) \<le> 2 ^ 64"
  shows "if accepting st then table_exact (map fst (promises st)) (prom_next st) (ids prom_spawns as) (ids prom_ends es)
         else promises st = []"
proof -
  have init: "map fst (running (prom_init E)) = []" "prom_next (prom_init E) = 0" by (simp_all add: prom_init_def)
  have "timely (prom_step E) (\<lambda>st. map fst (running st)) prom_ends (prom_init E) es"
    using prom_tasks.once_timely [of E "prom_init E"] assms(3) init(1) by simp
  then have "owns_running E st \<and> (prom_inv E st \<and> (alive st \<longleftrightarrow> accepting st))"
  proof (rule prom_tasks.fresh_invariant [OF assms(2) init(1) _ assms(4), where I = "\<lambda>st. owns_running E st \<and> (prom_inv E st \<and> (alive st \<longleftrightarrow> accepting st))"])
    show "owns_running E (prom_init E) \<and> (prom_inv E (prom_init E) \<and> (alive (prom_init E) \<longleftrightarrow> accepting (prom_init E)))" using prom_init_inv [of E] by (simp add: owns_running_def prom_init_def)
  qed (rule prom_step_owns [OF _ assms(1)])
  with owns_table [of E st] prom_tasks.exact_table [OF assms(2) init assms(3,4)] show ?thesis by simp
qed

lemma class_tables:
  assumes "cancel_enum_ok E" and "steps (class_step E) (prom_init E) es = (as, st)"
    and "completes_once (class_step E) prom_spawns class_ends {} (prom_init E) es" and "length (ids prom_spawns as) \<le> 2 ^ 64"
  shows "if alive st then table_exact (map fst (promises st)) (prom_next st) (ids prom_spawns as) (ids class_ends es)
         else promises st = []"
proof -
  have init: "map fst (running (prom_init E)) = []" "prom_next (prom_init E) = 0" by (simp_all add: prom_init_def)
  have "timely (class_step E) (\<lambda>st. map fst (running st)) class_ends (prom_init E) es"
    using class_tasks.once_timely [of E "prom_init E"] assms(3) init(1) by simp
  then have "owns_running E st \<and> prom_inv E st"
  proof (rule class_tasks.fresh_invariant [OF assms(2) init(1) _ assms(4), where I = "\<lambda>st. owns_running E st \<and> prom_inv E st"])
    show "owns_running E (prom_init E) \<and> prom_inv E (prom_init E)" using prom_init_inv [of E] by (simp add: owns_running_def prom_init_def)
  qed (rule class_step_owns [OF _ assms(1)])
  with owns_table [of E st] class_tasks.exact_table [OF assms(2) init assms(3,4)] show ?thesis by simp
qed

section \<open>Properties\<close>

text \<open>C10: All four servers of \<open>cancellation/\<close> refine one specification. The trace of every run of each of
  them (the accept operations and sessions it starts, the sessions whose completion it is told and
  the changes of its phase, in order) is a trace of the abstract server, which ends in the state that
  the running sessions and the phase of the server give. So no server starts a session or another
  accept operation after it has stopped accepting, each session it starts is recorded as running
  until its completion, and a server that waits for its sessions ends only when none runs. The last
  part says what the specification excludes: after \<open>Stop\<close> nothing is started.\<close>

theorem servers_refine_spec:
  fixes ch :: 'ch
  shows "spec_run spec_init (trace sig_step sig_abs sig_starts sig_ends (snd sig_start) es1)
      = Some (sig_abs (snd (steps sig_step (snd sig_start) es1)))
    \<and> spec_run spec_init (trace (adv_step E C) adv_abs adv_starts adv_ends (adv_init ch) es2)
      = Some (adv_abs (snd (steps (adv_step E C) (adv_init ch) es2)))
    \<and> spec_run spec_init (trace (prom_step E) prom_abs prom_starts prom_ends (prom_init E) es3)
      = Some (prom_abs (snd (steps (prom_step E) (prom_init E) es3)))
    \<and> spec_run spec_init (trace (class_step E) prom_abs prom_starts class_ends (prom_init E) es4)
      = Some (prom_abs (snd (steps (class_step E) (prom_init E) es4)))
    \<and> (spec_run spec_init (ls @ Stop # ls') = Some s \<longrightarrow>
         Listen \<notin> set ls' \<and> (\<forall>k. Start k \<notin> set ls') \<and> (mode s = Finished \<longrightarrow> run_ids s = {}))"
proof -
  have "spec_init = sig_abs (snd sig_start)" "spec_init = adv_abs (adv_init ch)" "spec_init = prom_abs (prom_init E)"
    by (simp_all add: spec_init_def sig_abs_def sig_start_def adv_abs_def adv_init_def prom_abs_def prom_init_def)
  then show ?thesis
    using sig_spec.run_simulates [of "snd sig_start" es1] adv_spec.run_simulates [of E C "adv_init ch" es2]
      prom_spec.run_simulates [of E "prom_init E" es3] class_spec.run_simulates [of E "prom_init E" es4]
      spec_after_stop [of ls ls' s]
    by (metis prod.collapse)
qed

theorem servers_refine_spec_witness:
  "trace sig_step sig_abs sig_starts sig_ends (snd sig_start)
     [Accepted Success ''a'', Accepted OperationAborted ''b'', SessionEnded 0 None, PostDone]
   = [Start 0, Listen, Stop, Ended 0, Finish]
   \<and> run_ids (sig_abs (snd (steps sig_step (snd sig_start)
        [Accepted Success ''a'', Accepted OperationAborted ''b'', SessionEnded 0 None, PostDone]))) = {}"
proof -
  let ?es = "[Accepted Success ''a'', Accepted OperationAborted ''b'', SessionEnded 0 None, PostDone]"
  let ?s = "sig_abs (snd (steps sig_step (snd sig_start) ?es))"
  have t: "trace sig_step sig_abs sig_starts sig_ends (snd sig_start) ?es = [Start 0, Listen] @ Stop # [Ended 0, Finish]"
    by (simp add: step_labels_def sig_start_def sig_accepted_def sig_drain_def emplace_def erase_def phase_change_def)
  have "spec_run spec_init ([Start 0, Listen] @ Stop # [Ended 0, Finish]) = Some ?s"
    using servers_refine_spec [of ?es undefined undefined undefined "[]" "[]" "[]" "[]" "[]"] t by metis
  moreover have "mode ?s = Finished"
    by (simp add: sig_start_def sig_accepted_def sig_drain_def emplace_def erase_def)
  ultimately have "run_ids ?s = {}"
    using servers_refine_spec [of "[]" undefined undefined undefined "[]" "[]" "[]" "[Start 0, Listen]" "[Ended 0, Finish]" ?s]
    by blast
  with t show ?thesis by simp
qed

text \<open>Once a server has stopped accepting, whatever arrives, it starts no session and no further accept
  operation. This holds for all four servers.\<close>

lemma stopped_servers_start_nothing:
  assumes "steps sig_step st1 es1 = (as1, st1')" and "phase st1 \<noteq> Accepting" and "a1 \<in> set as1"
    and "steps (adv_step E C) st2 es2 = (as2, st2')" and "adv_phase st2 \<noteq> Accepting" and "a2 \<in> set as2"
    and "steps (prom_step E) st3 es3 = (as3, st3')" and "\<not> accepting st3" and "a3 \<in> set as3"
    and "steps (class_step E) st4 es4 = (as4, st4')" and "\<not> accepting st4" and "a4 \<in> set as4"
  shows "a1 \<noteq> AsyncAccept \<and> (\<forall>k s. a1 \<noteq> SpawnEcho k s) \<and> a2 \<noteq> AdvAsyncAccept \<and> (\<forall>k s. a2 \<noteq> AdvSpawn k s)
    \<and> a3 \<noteq> PromAccept \<and> (\<forall>k s. a3 \<noteq> PromSpawn k s) \<and> a4 \<noteq> PromAccept \<and> (\<forall>k s. a4 \<noteq> PromSpawn k s)"
  using sig_spec.nothing_after_stop [OF assms(1) _ assms(3)] adv_spec.nothing_after_stop [OF assms(4) _ assms(6)]
    prom_spec.nothing_after_stop [OF assms(7) _ assms(9)] class_spec.nothing_after_stop [OF assms(10) _ assms(12)]
    assms(2,5,8,11)
  by fastforce

text \<open>C34: The tables of the four servers are exact. As long as fewer than \<open>2 ^ 64 + 1\<close> connections have
  been accepted and every spawned session completes at most once, the identifiers given out are
  0, 1, 2, ... in this order, the counter is their number, and the table holds, in ascending order,
  exactly the identifiers of the sessions that were started and have not ended; the tables of the
  promise servers are empty from the end of the accept loop (or the destruction of the server) on.\<close>

theorem session_tables_exact:
  fixes ch :: 'ch
  assumes "cancel_enum_ok E"
  shows "(steps sig_step (snd sig_start) es1 = (as1, st1) \<and> length (ids sig_spawns as1) \<le> 2 ^ 64
        \<and> completes_once sig_step sig_spawns sig_ends {} (snd sig_start) es1 \<longrightarrow>
      table_exact (map fst (sockets st1)) (next_id st1) (ids sig_spawns as1) (ids sig_ends es1))
    \<and> (steps (adv_step E C) (adv_init ch) es2 = (as2, st2) \<and> length (ids adv_spawns as2) \<le> 2 ^ 64
        \<and> completes_once (adv_step E C) adv_spawns adv_ends {} (adv_init ch) es2 \<longrightarrow>
      table_exact (map fst (sessions st2)) (adv_next st2) (ids adv_spawns as2) (ids adv_ends es2))
    \<and> (steps (prom_step E) (prom_init E) es3 = (as3, st3) \<and> length (ids prom_spawns as3) \<le> 2 ^ 64
        \<and> completes_once (prom_step E) prom_spawns prom_ends {} (prom_init E) es3 \<longrightarrow>
      (if accepting st3 then table_exact (map fst (promises st3)) (prom_next st3) (ids prom_spawns as3) (ids prom_ends es3)
       else promises st3 = []))
    \<and> (steps (class_step E) (prom_init E) es4 = (as4, st4) \<and> length (ids prom_spawns as4) \<le> 2 ^ 64
        \<and> completes_once (class_step E) prom_spawns class_ends {} (prom_init E) es4 \<longrightarrow>
      (if alive st4 then table_exact (map fst (promises st4)) (prom_next st4) (ids prom_spawns as4) (ids class_ends es4)
       else promises st4 = []))"
  using sig_tables [of es1 as1 st1] adv_tables [of E C ch es2 as2 st2] prom_tables [OF assms, of es3 as3 st3]
    class_tables [OF assms, of es4 as4 st4]
  by blast

theorem session_tables_exact_witness:
  "table_exact (map fst (promises (snd (steps (prom_step asio_enum) (prom_init asio_enum)
       [PromAccepted Success ''a'', PromAccepted Success ''b'', PromTaskDone 0])))) 2 [0, 1] [0]"
proof -
  let ?es = "[PromAccepted Success ''a'', PromAccepted Success ''b'', PromTaskDone 0]"
  have r: "steps (prom_step asio_enum) (prom_init asio_enum) ?es
      = ([PromSpawn 0 ''a'', PromAccept, PromSpawn 1 ''b'', PromAccept],
         \<lparr>promises = [(1, ())], alive = True, prom_next = 2, accepting = True, self_cancelled = 0,
           running = [(1, 0)], fault = False\<rparr>)"
    by (simp add: prom_init_def spawn_task_def task_done_def use_table_def emplace_def erase_def asio_enum_def)
  have o: "completes_once (prom_step asio_enum) prom_spawns prom_ends {} (prom_init asio_enum) ?es"
    by (simp add: prom_init_def spawn_task_def use_table_def emplace_def asio_enum_def)
  note tab = session_tables_exact [OF asio_enum_ok, THEN conjunct2, THEN conjunct2, THEN conjunct1, rule_format,
      OF conjI [OF r conjI [OF _ o]]]
  have "ids prom_ends ?es = [0]" by simp
  with tab show ?thesis unfolding r snd_conv by simp
qed

end
