(* ===== verification/Command_Line_Tools.thy ===== *)
theory Command_Line_Tools
  imports Formatters Echo_Client
begin

text \<open>
  The small programs of \<open>bin/\<close>: \<open>handle_signal.cpp\<close> (durations with units, a program that ends at a
  configured number of signals or after a time), \<open>wait_for_port.cpp\<close> (repeated attempts to connect)
  and \<open>file_io.cpp\<close> (reading a file until it ends or the time is up).
\<close>

section \<open>handle\_signal.cpp: durations\<close>

definition is_space :: "char \<Rightarrow> bool" where
  "is_space c \<longleftrightarrow> c \<in> set [CHR '' '', CHR 0x09, CHR 0x0A, CHR 0x0B, CHR 0x0C, CHR 0x0D]"

definition is_digit :: "char \<Rightarrow> bool" where
  "is_digit c \<longleftrightarrow> c \<in> set ''0123456789''"

text \<open>\<open>std::stoll(s, &num_end)\<close>: leading white space, an optional sign, digits. \<open>None\<close> is an exception
  (no digits, or a value outside 64 bits).\<close>

definition stoll_sign :: "string \<Rightarrow> int \<times> nat \<times> string" where
  "stoll_sign r =
     (case r of c # t \<Rightarrow> if c = CHR ''-'' then (- 1, 1, t) else if c = CHR ''+'' then (1, 1, t) else (1, 0, r)
      | [] \<Rightarrow> (1, 0, []))"

definition stoll :: "string \<Rightarrow> (int \<times> nat) option" where
  "stoll s =
     (let ws = takeWhile is_space s;
          (sign, k, r) = stoll_sign (dropWhile is_space s);
          ds = takeWhile is_digit r;
          v = sign * int (from_base 10 ds)
      in if ds = [] \<or> v < - (2 ^ 63) \<or> v > 2 ^ 63 - 1 then None
         else Some (v, length ws + k + length ds))"

text \<open>The result of \<open>parse_duration\<close>: nothing, a duration in nanoseconds, or a value whose conversion
  to 64-bit nanoseconds overflows (which C++ leaves undefined).\<close>

datatype parsed = NoDuration | Nanoseconds int | Overflow

definition to_nanoseconds :: "int \<Rightarrow> int \<Rightarrow> parsed" where
  "to_nanoseconds factor v =
     (let d = v * factor in if - (2 ^ 63) \<le> d \<and> d \<le> 2 ^ 63 - 1 then Nanoseconds d else Overflow)"

definition parse_duration :: "string \<Rightarrow> parsed" where
  "parse_duration s =
     (case stoll s of
        None \<Rightarrow> NoDuration
      | Some (v, num_end) \<Rightarrow>
          let unit = drop num_end s in
          if unit = ''h'' then to_nanoseconds 3600000000000 v
          else if unit = ''m'' then to_nanoseconds 60000000000 v
          else if unit = ''s'' then to_nanoseconds 1000000000 v
          else if unit = ''ms'' then to_nanoseconds 1000000 v
          else NoDuration)"

text \<open>\<open>validate\<close>: the option is rejected when the text is not a duration.\<close>

definition validate :: "string \<Rightarrow> string + parsed" where
  "validate s = (if parse_duration s = NoDuration then Inl s else Inr (parse_duration s))"

section \<open>handle\_signal.cpp: the program\<close>

text \<open>The coroutine \<open>handle\<close>: \<open>i\<close>, an \<open>int\<close>, counts the signals received; it is incremented, which is
  undefined at the largest value, and then compared with a \<open>size_t\<close>, to which it is converted.\<close>

datatype handle_end = LoopDone | SignedOverflow

definition handle_body :: "size_t \<Rightarrow> (32 word, error_code, unit, handle_end) body" where
  "handle_body to_ignore i ec =
     (if ec \<noteq> Success then ([], Threw (SystemError ec))
      else if sint i = 2 ^ 31 - 1 then ([], Returned SignedOverflow)
      else if scast (i + 1) \<le> to_ignore then ([()], Suspended (i + 1))
      else ([], Returned LoopDone))"

record handle_options =
  timeout :: "int option"
  ignore_sigint :: "size_t option"
  ignore_sigterm :: "size_t option"

definition default_options :: handle_options where
  "default_options = \<lparr>timeout = Some 10000000000, ignore_sigint = None, ignore_sigterm = None\<rparr>"

text \<open>\<open>sleep\<close> of this program prints when the time is up.\<close>

definition timeout_start :: "int \<Rightarrow> timer_op list \<times> (unit, unit) ctl" where
  "timeout_start t = ([ExpiresAfter t, AsyncWait], Suspended ())"

definition timeout_body :: "(unit, error_code, string, unit) body" where
  "timeout_body s ec = (if ec \<noteq> Success then ([], Threw (SystemError ec)) else ([''TIMEOUT''], Returned ()))"

text \<open>The width of the help text, for the answers of \<open>isatty\<close> and \<open>ioctl\<close>.\<close>

definition term_width :: "bool \<Rightarrow> int \<times> 16 word \<Rightarrow> 32 word" where
  "term_width isatty ioctl =
     (case ioctl of (rc, ws_col) \<Rightarrow> if isatty \<and> rc = 0 \<and> ws_col > 0 then ucast ws_col else 80)"

text \<open>The command line, as the library has parsed it (with \<open>validate\<close> for durations): an error, or the
  options that were given.\<close>

record given_options =
  given_help :: bool
  given_sigint :: "size_t option"
  given_sigterm :: "size_t option"
  given_timeout :: "int option"

definition parse_options :: "string + given_options \<Rightarrow> int + handle_options" where
  "parse_options vm =
     (case vm of
        Inl w \<Rightarrow> Inl 1
      | Inr g \<Rightarrow>
          if given_help g then Inl 0
          else
            (let o1 = (if given_sigint g \<noteq> None then default_options\<lparr>ignore_sigint := given_sigint g\<rparr> else default_options);
                 o2 = (if given_sigterm g \<noteq> None then o1\<lparr>ignore_sigterm := given_sigterm g\<rparr> else o1)
             in Inr (if given_timeout g \<noteq> None then o2\<lparr>timeout := given_timeout g\<rparr> else o2)))"

text \<open>Whatever is given, the program has a time limit.\<close>

lemma parse_options_timeout: "parse_options vm = Inr opts \<Longrightarrow> timeout opts \<noteq> None"
  by (auto simp: parse_options_def default_options_def Let_def split: sum.splits if_splits)

text \<open>The running program: the coroutines in the parallel group. It ends when one of them ends
  (\<open>wait_for_one\<close>); a signal without a handler kills it.\<close>

record handle_program =
  on_sigint :: "(32 word, handle_end) ctl option"
  on_sigterm :: "(32 word, handle_end) ctl option"
  on_timer :: bool

datatype program_state = Running handle_program | Ended | Killed signum | Undefined

datatype program_event = Signal signum | TimeUp

definition handle_main :: "handle_options \<Rightarrow> program_state" where
  "handle_main opts = Running
     \<lparr>on_sigint = map_option (\<lambda>_. Suspended 0) (ignore_sigint opts),
      on_sigterm = map_option (\<lambda>_. Suspended 0) (ignore_sigterm opts),
      on_timer = (timeout opts \<noteq> None)\<rparr>"

definition signal_one ::
  "signum \<Rightarrow> size_t option \<Rightarrow> (32 word, handle_end) ctl option \<Rightarrow> ((32 word, handle_end) ctl option \<Rightarrow> handle_program) \<Rightarrow> program_state" where
  "signal_one sg ign h upd =
     (case (ign, h) of
        (Some n, Some c) \<Rightarrow>
          (case snd (drive (handle_body n) c [Success]) of
             Suspended i \<Rightarrow> Running (upd (Some (Suspended i)))
           | Returned SignedOverflow \<Rightarrow> Undefined
           | _ \<Rightarrow> Ended)
      | _ \<Rightarrow> Killed sg)"

fun program_step :: "handle_options \<Rightarrow> program_state \<Rightarrow> program_event \<Rightarrow> program_state" where
  "program_step opts (Running p) (Signal SIGINT) =
     signal_one SIGINT (ignore_sigint opts) (on_sigint p) (\<lambda>h. p\<lparr>on_sigint := h\<rparr>)"
| "program_step opts (Running p) (Signal SIGTERM) =
     signal_one SIGTERM (ignore_sigterm opts) (on_sigterm p) (\<lambda>h. p\<lparr>on_sigterm := h\<rparr>)"
| "program_step opts (Running p) (Signal sg) = Killed sg"
| "program_step opts (Running p) TimeUp = (if on_timer p then Ended else Running p)"
| "program_step opts st e = st"

definition program_run :: "handle_options \<Rightarrow> program_event list \<Rightarrow> program_state" where
  "program_run opts es = foldl (program_step opts) (handle_main opts) es"

section \<open>wait\_for\_port.cpp\<close>

text \<open>The coroutine, once it has its endpoints: it tries to connect, and pauses for 10 ms after every
  failure. \<open>cancelled\<close>: the time is up, so that the next \<open>co_await\<close> throws.\<close>

datatype port_state = AtConnect | AtPause

datatype port_event = ConnectDone error_code bool | PortPauseDone error_code

datatype port_op = AsyncConnect | PauseMs nat

fun port_body :: "(port_state, port_event, port_op, unit) body" where
  "port_body AtConnect (ConnectDone ec cancelled) =
     (if ec = Success then ([], Returned ())
      else if cancelled then ([], Threw (SystemError OperationAborted))
      else ([PauseMs 10], Suspended AtPause))"
| "port_body AtPause (PortPauseDone ec) =
     (if ec \<noteq> Success then ([], Threw (SystemError ec)) else ([AsyncConnect], Suspended AtConnect))"
| "port_body s e = ([], Suspended s)"

text \<open>The exit code of the program: of the checks of the command line, and of the completion handler.\<close>

definition port_exit :: "(port_state, unit) ctl \<Rightarrow> nat option" where
  "port_exit c = (case c of Suspended _ \<Rightarrow> None | Returned _ \<Rightarrow> Some 0 | Threw _ \<Rightarrow> Some 1)"

datatype port_cmdline = PortCmdError | PortHelp | PortOptions rat

definition port_main :: "port_cmdline \<Rightarrow> nat + int" where
  "port_main cl =
     (case cl of
        PortCmdError \<Rightarrow> Inl 1
      | PortHelp \<Rightarrow> Inl 1
      | PortOptions secs \<Rightarrow> if secs < 0 then Inl 1 else Inr \<lfloor>secs * 1000000000\<rfloor>)"

section \<open>file\_io.cpp\<close>

text \<open>Each completion carries the error code, the number of bytes and whether the coroutine has been
  cancelled. The bytes of the last operation count as well.\<close>

definition read_file :: "cancel_enum \<Rightarrow> (size_t, error_code \<times> size_t \<times> cancellation_type, size_t, size_t) body" where
  "read_file E tot e =
     (case e of (ec, n, cancelled) \<Rightarrow>
        let tot = tot + n in
        if ec = Eof \<or> cancelled \<noteq> ct_none E then ([], Returned tot)
        else if ec \<noteq> Success then ([], Threw (SystemError ec))
        else ([lit_m 1], Suspended tot))"

text \<open>\<open>main\<close>: the coroutine is cancelled after one second.\<close>

definition file_io_main :: "nat \<times> size_t list \<times> (size_t, size_t) ctl" where
  "file_io_main = (1000, [lit_m 1], Suspended 0)"

section \<open>Parsing of numbers\<close>

lemma digit_char_digit: "d < 10 \<Longrightarrow> is_digit (digit_char d)"
proof -
  assume "d < 10"
  then have "d \<in> set [0, 1, 2, 3, 4, 5, 6, 7, 8, 9]" by auto
  moreover have "\<forall>d \<in> set [0, 1, 2, 3, 4, 5, 6, 7, 8, 9]. is_digit (digit_char d)"
    by (simp add: is_digit_def digit_char_table digit_char_Suc_0)
  ultimately show ?thesis by blast
qed

lemma dec_digits: "\<forall>c \<in> set (dec n). is_digit c" and dec_not_Nil: "dec n \<noteq> []"
proof -
  have "(\<forall>c \<in> set (to_base b n). is_digit c) \<and> to_base b n \<noteq> []" if "b = 10" for b
    using that
  proof (induction b n rule: to_base.induct)
    case (1 b n)
    then show ?case by (cases "n < b") (auto simp: to_base.simps [of 10 n] digit_char_digit)
  qed
  then show "\<forall>c \<in> set (dec n). is_digit c" "dec n \<noteq> []" by (simp_all add: dec_def)
qed

lemma is_digit_not_space: "is_digit c \<Longrightarrow> \<not> is_space c \<and> c \<noteq> CHR ''-'' \<and> c \<noteq> CHR ''+''"
  by (auto simp: is_digit_def is_space_def)

lemma takeWhile_dec: "\<not> is_digit (hd rest) \<or> rest = [] \<Longrightarrow> takeWhile is_digit (dec n @ rest) = dec n"
  using dec_digits [of n] by (cases rest) (auto simp: takeWhile_append)

lemma dec_head: "\<exists>c cs. dec n = c # cs \<and> is_digit c"
  using dec_digits [of n] dec_not_Nil [of n] by (cases "dec n") auto

text \<open>A decimal number with an optional minus sign is read back.\<close>

lemma stoll_dec:
  assumes "\<not> is_digit (hd rest) \<or> rest = []" and "n < 2 ^ 63"
  shows "stoll (dec n @ rest) = Some (int n, length (dec n))"
    and "stoll (CHR ''-'' # dec n @ rest) = Some (- int n, Suc (length (dec n)))"
proof -
  obtain c cs where d: "dec n = c # cs" "is_digit c" using dec_head by blast
  note c = is_digit_not_space [OF d(2)]
  have v: "from_base 10 (dec n) = n" by (simp add: dec_def from_to_base)
  have m: "\<not> is_space CHR ''-''" by (simp add: is_space_def)
  have b: "int n < 2 ^ 63" using assms(2) by (metis of_nat_less_iff of_nat_numeral of_nat_power)
  have "takeWhile is_space (dec n @ rest) = []" "dropWhile is_space (dec n @ rest) = dec n @ rest"
    "stoll_sign (dec n @ rest) = (1, 0, dec n @ rest)"
    using d c by (simp_all add: stoll_sign_def)
  then show "stoll (dec n @ rest) = Some (int n, length (dec n))"
    using takeWhile_dec [OF assms(1), of n] v b by (simp add: stoll_def dec_not_Nil)
  have "takeWhile is_space (CHR ''-'' # dec n @ rest) = []"
    "dropWhile is_space (CHR ''-'' # dec n @ rest) = CHR ''-'' # dec n @ rest"
    "stoll_sign (CHR ''-'' # dec n @ rest) = (- 1, 1, dec n @ rest)"
    using m by (simp_all add: stoll_sign_def)
  then show "stoll (CHR ''-'' # dec n @ rest) = Some (- int n, Suc (length (dec n)))"
    using takeWhile_dec [OF assms(1), of n] v b by (simp add: stoll_def dec_not_Nil)
qed

definition duration_units :: "(string \<times> int) list" where
  "duration_units = [(''h'', 3600000000000), (''m'', 60000000000), (''s'', 1000000000), (''ms'', 1000000)]"

lemma units_no_digit: "map_of duration_units u = Some f \<Longrightarrow> u \<noteq> [] \<and> \<not> is_digit (hd u)"
  by (auto simp: duration_units_def is_digit_def split: if_splits)

lemma parse_duration_unit:
  assumes "stoll (s @ u) = Some (v, length s)"
  shows "parse_duration (s @ u) = (case map_of duration_units u of Some f \<Rightarrow> to_nanoseconds f v | None \<Rightarrow> NoDuration)"
  using assms by (simp add: parse_duration_def duration_units_def)

section \<open>The signal counters\<close>

definition count_signal :: "signum \<Rightarrow> program_event list \<Rightarrow> nat" where
  "count_signal sg es = length (filter (\<lambda>e. e = Signal sg) es)"

lemma count_signal_snoc [simp]:
  "count_signal sg [] = 0"
  "count_signal sg (es @ [e]) = count_signal sg es + (if e = Signal sg then 1 else 0)"
  by (simp_all add: count_signal_def)

lemma program_run_snoc: "program_run opts (es @ [e]) = program_step opts (program_run opts es) e"
  by (simp add: program_run_def)

lemma program_step_Ended [simp]: "program_step opts Ended e = Ended"
  by (cases e) auto

lemma sint_count: "c < 2 ^ 31 \<Longrightarrow> sint (of_nat c :: 32 word) = int c"
  by (simp add: signed_of_nat signed_take_bit_int_eq_self)

lemma scast_count:
  assumes "c < 2 ^ 31"
  shows "unat (scast (of_nat c :: 32 word) :: size_t) = c"
proof -
  have "(word_of_int (sint (of_nat c :: 32 word)) :: size_t) = of_nat c" by (simp only: sint_count [OF assms] of_int_of_nat_eq)
  then have "scast (of_nat c :: 32 word) = (of_nat c :: size_t)" by simp
  then show ?thesis using assms unat_of_nat_size_t [of c] by simp
qed

text \<open>One signal after \<open>i\<close> earlier ones.\<close>

lemma signal_one_counts:
  assumes "Suc i < 2 ^ 31"
  shows "signal_one sg (Some n) (Some (Suspended (of_nat i))) upd
     = (if Suc i \<le> unat n then Running (upd (Some (Suspended (of_nat i + 1)))) else Ended)"
proof -
  have "unat (scast (of_nat i + 1 :: 32 word) :: size_t) = Suc i"
    using scast_count [OF assms] by (simp add: add.commute)
  moreover have "sint (of_nat i :: 32 word) \<noteq> 2 ^ 31 - 1" using assms sint_count [of i] by simp
  ultimately show ?thesis by (simp add: signal_one_def handle_body_def word_le_nat_alt)
qed

text \<open>With both handlers and the timer installed, the state after any sequence of handled events that
  does not make a counter overflow.\<close>

definition counts_within :: "size_t \<Rightarrow> nat \<Rightarrow> bool" where
  "counts_within n count \<longleftrightarrow> unat n < 2 ^ 31 - 1 \<or> count < 2 ^ 31"

lemma counts_within_Suc: "counts_within n (Suc c) \<Longrightarrow> counts_within n c \<and> (c \<le> unat n \<longrightarrow> Suc c < 2 ^ 31)"
  by (auto simp: counts_within_def)

lemma program_run_state:
  assumes "ignore_sigint opts = Some n" and "ignore_sigterm opts = Some m" and "timeout opts \<noteq> None"
    and "\<forall>e \<in> set es. e \<in> {Signal SIGINT, Signal SIGTERM, TimeUp}"
    and "counts_within n (count_signal SIGINT es)" and "counts_within m (count_signal SIGTERM es)"
  shows "program_run opts es =
    (if TimeUp \<notin> set es \<and> count_signal SIGINT es \<le> unat n \<and> count_signal SIGTERM es \<le> unat m
     then Running \<lparr>on_sigint = Some (Suspended (of_nat (count_signal SIGINT es))),
                   on_sigterm = Some (Suspended (of_nat (count_signal SIGTERM es))), on_timer = True\<rparr>
     else Ended)"
  using assms(4,5,6)
proof (induction es rule: rev_induct)
  case Nil
  then show ?case using assms by (simp add: program_run_def handle_main_def)
next
  case (snoc e es)
  then show ?case using assms(1,2) counts_within_Suc [of n "count_signal SIGINT es"] counts_within_Suc [of m "count_signal SIGTERM es"]
    by (auto simp: program_run_snoc signal_one_counts add.commute)
qed

section \<open>Repeated attempts\<close>

definition failed_rounds :: "error_code list \<Rightarrow> port_event list" where
  "failed_rounds ecs = concat (map (\<lambda>ec. [ConnectDone ec False, PortPauseDone Success]) ecs)"

lemma failed_rounds_run:
  "\<forall>ec \<in> set ecs. ec \<noteq> Success \<Longrightarrow>
     drive port_body (Suspended AtConnect) (failed_rounds ecs @ es) =
       (case drive port_body (Suspended AtConnect) es of
          (ops, c) \<Rightarrow> (concat (replicate (length ecs) [PauseMs 10, AsyncConnect]) @ ops, c))"
  by (induction ecs) (auto simp: failed_rounds_def split: prod.splits)

lemma read_file_total:
  "drive (read_file E) (Suspended tot) (map (\<lambda>n. (Success, n, ct_none E)) ns)
     = (replicate (length ns) (lit_m 1), Suspended (tot + sum_list ns))"
  by (induction ns arbitrary: tot) (auto simp: read_file_def add.assoc)

section \<open>Properties\<close>

text \<open>C35: \<open>parse_duration\<close> reads a decimal number, positive or negative, with one of its four units as
  that many nanoseconds, and rejects any other unit. Where the duration does not fit into 64 bits
  the conversion overflows instead of being rejected.\<close>

theorem parse_duration_units:
  assumes "n < 2 ^ 63" and "\<not> is_digit (hd u) \<or> u = []"
  shows "parse_duration (dec n @ u) =
      (case map_of duration_units u of Some f \<Rightarrow> to_nanoseconds f (int n) | None \<Rightarrow> NoDuration)
    \<and> parse_duration (CHR ''-'' # dec n @ u) =
      (case map_of duration_units u of Some f \<Rightarrow> to_nanoseconds f (- int n) | None \<Rightarrow> NoDuration)
    \<and> (map_of duration_units u = Some f \<longrightarrow>
         (validate (dec n @ u) = Inr (Nanoseconds (int n * f)) \<longleftrightarrow> int n * f < 2 ^ 63)
         \<and> (validate (dec n @ u) = Inr Overflow \<longleftrightarrow> int n * f \<ge> 2 ^ 63))"
proof -
  have pos: "parse_duration (dec n @ u) =
      (case map_of duration_units u of Some f \<Rightarrow> to_nanoseconds f (int n) | None \<Rightarrow> NoDuration)"
    by (rule parse_duration_unit) (rule stoll_dec(1) [OF assms(2,1)])
  have neg: "parse_duration ((CHR ''-'' # dec n) @ u) =
      (case map_of duration_units u of Some f \<Rightarrow> to_nanoseconds f (- int n) | None \<Rightarrow> NoDuration)"
    by (rule parse_duration_unit) (use stoll_dec(2) [OF assms(2,1)] in simp)
  have "0 \<le> f" if "map_of duration_units u = Some f"
    using that by (auto simp: duration_units_def split: if_splits)
  then have "map_of duration_units u = Some f \<Longrightarrow> - (2 ^ 63) \<le> int n * f"
    by (meson le_minus_iff mult_nonneg_nonneg of_nat_0_le_iff order_trans zero_le_numeral zero_le_power neg_le_0_iff_le)
  with pos neg show ?thesis by (auto simp: validate_def to_nanoseconds_def Let_def)
qed

theorem parse_duration_units_witness:
  "parse_duration ''5s'' = Nanoseconds 5000000000 \<and> parse_duration ''9000000000s'' = Nanoseconds 9000000000000000000
   \<and> parse_duration ''3000000h'' = Overflow"
proof -
  have d: "dec 5 = ''5''" "dec 9000000000 = ''9000000000''" "dec 3000000 = ''3000000''"
    by (simp_all add: show_nat_simps)
  have n: "(5 :: nat) < 2 ^ 63" "(9000000000 :: nat) < 2 ^ 63" "(3000000 :: nat) < 2 ^ 63" by simp_all
  have u: "\<not> is_digit (hd ''s'') \<or> ''s'' = []" "\<not> is_digit (hd ''h'') \<or> ''h'' = []" by (simp_all add: is_digit_def)
  show ?thesis
    using parse_duration_units [OF n(1) u(1), THEN conjunct1] parse_duration_units [OF n(2) u(1), THEN conjunct1]
      parse_duration_units [OF n(3) u(2), THEN conjunct1]
    by (simp add: d duration_units_def to_nanoseconds_def)
qed



text \<open>\<open>wait_for_port\<close> tries again, after a pause of 10 ms, until an attempt succeeds; then it exits
  with 0. When its time is up, during an attempt or during a pause, it exits with 1.\<close>

lemma wait_for_port_exits:
  assumes "\<forall>ec \<in> set ecs. ec \<noteq> Success" and "ec \<noteq> Success"
  shows "drive port_body (Suspended AtConnect) (failed_rounds ecs @ [ConnectDone Success cancelled])
      = (concat (replicate (length ecs) [PauseMs 10, AsyncConnect]), Returned ())
    \<and> port_exit (snd (drive port_body (Suspended AtConnect) (failed_rounds ecs @ [ConnectDone Success cancelled]))) = Some 0
    \<and> port_exit (snd (drive port_body (Suspended AtConnect) (failed_rounds ecs @ [ConnectDone ec True]))) = Some 1
    \<and> port_exit (snd (drive port_body (Suspended AtConnect)
        (failed_rounds ecs @ [ConnectDone ec False, PortPauseDone OperationAborted]))) = Some 1
    \<and> port_exit (snd (drive port_body (Suspended AtConnect) (failed_rounds ecs))) = None"
  using assms failed_rounds_run [OF assms(1), of "[]"]
  by (simp add: failed_rounds_run [OF assms(1)] port_exit_def)

end
