(* ===== verification/Execution.thy ===== *)
theory Execution
  imports Formatters "HOL-Library.Monad_Syntax"
begin

text \<open>
  Running work: \<open>lib/run.cpp\<close> and \<open>include/run_sync.hpp\<close> (running an \<open>io_context\<close> to its end),
  \<open>lib/program_options.cpp\<close> (the command line of the servers), \<open>include/async_invoke.hpp\<close> (a call on
  another executor), and \<open>threading/\<close> (coroutines that move between a context and a thread pool).

  The \<open>io_context\<close> is a parameter: \<open>run_one\<close> maps a context to the context after its next handler,
  with the milliseconds that took, or to \<open>None\<close> when it has nothing left to do.
\<close>

section \<open>run.cpp\<close>

type_synonym 'ctx run_one = "'ctx \<Rightarrow> ('ctx \<times> nat) option"

datatype run_line = Rule | Step size_t | SlowStep size_t nat

definition step_line :: "size_t \<Rightarrow> nat \<Rightarrow> run_line" where
  "step_line i dt = (if dt < 100 then Step i else SlowStep i dt)"

text \<open>The loop of \<open>runDebug\<close>, which need not end: \<open>None\<close> if it does not. The result is the final
  context, the number of handlers and the lines printed.\<close>

partial_function (option) debug_loop ::
  "'ctx run_one \<Rightarrow> 'ctx \<Rightarrow> size_t \<Rightarrow> ('ctx \<times> size_t \<times> run_line list) option" where
  "debug_loop run_one ctx i =
     (case run_one ctx of
        None \<Rightarrow> Some (ctx, i, [])
      | Some (ctx', dt) \<Rightarrow>
          do { (c, n, ls) \<leftarrow> debug_loop run_one ctx' (i + 1); Some (c, n, step_line i dt # ls) })"

definition runDebug :: "'ctx run_one \<Rightarrow> 'ctx \<Rightarrow> ('ctx \<times> size_t \<times> run_line list) option" where
  "runDebug run_one ctx = do { (c, n, ls) \<leftarrow> debug_loop run_one ctx 0; Some (c, n, Rule # ls) }"

text \<open>\<open>run\<close>: \<open>io_context::run\<close> is a parameter as well.\<close>

definition run :: "bool \<Rightarrow> ('ctx \<Rightarrow> ('ctx \<times> size_t) option) \<Rightarrow> 'ctx run_one \<Rightarrow> 'ctx \<Rightarrow> ('ctx \<times> size_t) option" where
  "run ndebug context_run run_one ctx =
     (if ndebug then context_run ctx else map_option (\<lambda>(c, n, ls). (c, n)) (runDebug run_one ctx))"

section \<open>run\_sync.hpp\<close>

text \<open>The wrapper coroutine stores the value or the exception of the awaitable. The awaitable has
  returned, has thrown, or is still suspended when the context runs out of work.\<close>

definition sync_store :: "('s, 'r) ctl \<Rightarrow> 'r option \<times> exception_ptr" where
  "sync_store c = (case c of Returned r \<Rightarrow> (Some r, None) | Threw x \<Rightarrow> (None, Some x) | Suspended _ \<Rightarrow> (None, None))"

datatype 'r sync_result = Value 'r | NoValue | Rethrown exn | AssertionFailed | BadOptionalAccess

text \<open>\<open>is_void\<close>: the awaitable has no value (its \<open>result\<close> is then a \<open>monostate\<close>).\<close>

definition run_sync :: "bool \<Rightarrow> bool \<Rightarrow> ('s, 'r) ctl \<Rightarrow> 'r sync_result" where
  "run_sync ndebug is_void c =
     (case sync_store c of (result, ep) \<Rightarrow>
        if \<not> ndebug \<and> \<not> ((ep \<noteq> None) \<noteq> (result \<noteq> None)) then AssertionFailed
        else (case ep of
                Some x \<Rightarrow> Rethrown x
              | None \<Rightarrow> if is_void then NoValue
                        else (case result of Some r \<Rightarrow> Value r | None \<Rightarrow> BadOptionalAccess)))"

text \<open>The overload for callables: the awaitable is what the call returns; an exception of the call itself
  leaves \<open>run_sync\<close> before anything runs.\<close>

definition run_sync_callable :: "bool \<Rightarrow> bool \<Rightarrow> (unit \<Rightarrow> exn + ('s, 'r) ctl) \<Rightarrow> 'r sync_result" where
  "run_sync_callable ndebug is_void callable =
     (case callable () of Inl x \<Rightarrow> Rethrown x | Inr c \<Rightarrow> run_sync ndebug is_void c)"

section \<open>program\_options.cpp\<close>

datatype run_cmdline = RunCmdError | RunHelp | RunOptions bool nat

datatype run_mode = ExitCode int | DebugRun | WorkerThreads nat

text \<open>\<open>run(context, argc, argv)\<close>: \<open>WorkerThreads n\<close> runs the context on \<open>n\<close> threads, the calling one
  included.\<close>

definition run_program :: "run_cmdline \<Rightarrow> run_mode" where
  "run_program cl =
     (case cl of
        RunCmdError \<Rightarrow> ExitCode 1
      | RunHelp \<Rightarrow> ExitCode 0
      | RunOptions debug threads \<Rightarrow>
          if debug \<and> threads > 0 then ExitCode 1
          else if debug then DebugRun
          else WorkerThreads (threads + 1))"

definition get_terminal_width :: "(int \<times> 16 word) \<Rightarrow> size_t \<Rightarrow> size_t" where
  "get_terminal_width ioctl fallback =
     (case ioctl of (rc, ws_col) \<Rightarrow> if rc = 0 \<and> ws_col > 0 then ucast ws_col else fallback)"

section \<open>async\_invoke.hpp\<close>

text \<open>Where code runs: on the pool, on the associated executor of the handler, or on the system
  executor, which is the default associated executor.\<close>

datatype 'ex executor = Pool | System | Associated 'ex

datatype ('ex, 'r) invoke_action =
    WorkStarted "'ex executor"
  | PostedToPool
  | CalledOn "'ex executor"
  | HandlerOn "'ex executor" 'r
  | EscapedOn "'ex executor" exn
  | WorkFinished "'ex executor"

text \<open>The initiating function: the work guard uses the pool as fallback.\<close>

definition invoke_start :: "'ex option \<Rightarrow> ('ex, 'r) invoke_action list" where
  "invoke_start assoc = [WorkStarted (case assoc of Some ex \<Rightarrow> Associated ex | None \<Rightarrow> Pool), PostedToPool]"

text \<open>The function posted to the pool, for callables with a result: the handler is dispatched to its
  associated executor, here without the fallback.\<close>

definition invoke_on_pool :: "'ex option \<Rightarrow> ('arg \<Rightarrow> exn + 'r) \<Rightarrow> 'arg \<Rightarrow> ('ex, 'r) invoke_action list" where
  "invoke_on_pool assoc f args =
     CalledOn Pool #
     (case f args of
        Inl x \<Rightarrow> [EscapedOn Pool x]
      | Inr r \<Rightarrow> [HandlerOn (case assoc of Some ex \<Rightarrow> Associated ex | None \<Rightarrow> System) r])
     @ [WorkFinished (case assoc of Some ex \<Rightarrow> Associated ex | None \<Rightarrow> Pool)]"

definition async_invoke :: "'ex option \<Rightarrow> ('arg \<Rightarrow> exn + 'r) \<Rightarrow> 'arg \<Rightarrow> ('ex, 'r) invoke_action list" where
  "async_invoke assoc f args = invoke_start assoc @ invoke_on_pool assoc f args"

text \<open>The overload without a token uses the default token of the executor, given here by its associated
  executor.\<close>

definition async_invoke_default :: "'ex option \<Rightarrow> ('arg \<Rightarrow> exn + 'r) \<Rightarrow> 'arg \<Rightarrow> ('ex, 'r) invoke_action list" where
  "async_invoke_default default_token f args = async_invoke default_token f args"

text \<open>The templates. The default of \<open>CompletionSignature\<close> is \<open>void(R)\<close> for the result type \<open>R\<close> of the call; substituting
  \<open>void\<close> for a dependent parameter type is a failure of deduction, so that there is no signature for a callable
  without a result. The parameter cannot be given explicitly either, because it follows a pack. \<open>invoke_result\<close> is the
  language's overload resolution and \<open>token_for\<close> the concept \<open>completion_token_for\<close> of the library.\<close>

definition is_void_v :: "cpp_type \<Rightarrow> bool" where
  "is_void_v t \<longleftrightarrow> remove_cv t = VoidType"

definition completion_signature :: "cpp_type \<Rightarrow> cpp_type option" where
  "completion_signature r = (if is_void_v r then None else Some r)"

definition async_invoke_viable ::
  "(cpp_type \<Rightarrow> cpp_type option) \<Rightarrow> (cpp_type \<Rightarrow> cpp_type \<Rightarrow> bool) \<Rightarrow> cpp_type \<Rightarrow> cpp_type \<Rightarrow> bool" where
  "async_invoke_viable invoke_result token_for token f =
     (case invoke_result f of
        None \<Rightarrow> False
      | Some r \<Rightarrow> (case completion_signature r of None \<Rightarrow> False | Some sig \<Rightarrow> token_for token sig))"

datatype invoke_branch = CompleteWithoutResult | CompleteWithResult

definition constexpr_branch :: "cpp_type \<Rightarrow> invoke_branch" where
  "constexpr_branch r = (if is_void_v r then CompleteWithoutResult else CompleteWithResult)"

text \<open>So the branch for callables without a result is never instantiated.\<close>

lemma void_branch_unreachable:
  "async_invoke_viable invoke_result token_for token f \<Longrightarrow>
   \<exists>r. invoke_result f = Some r \<and> constexpr_branch r = CompleteWithResult"
  by (auto simp: async_invoke_viable_def completion_signature_def constexpr_branch_def split: option.splits if_splits)

definition bind_all :: "('arg \<Rightarrow> 'r) \<Rightarrow> 'arg \<Rightarrow> unit \<Rightarrow> 'r" where
  "bind_all f args = (\<lambda>_. f args)"

section \<open>thread\_pool.cpp\<close>

text \<open>The life of each of the coroutines: spawned on the context, posted to the pool, posted back.\<close>

datatype pool_phase = OnContext | OnPool | BackOnContext | PoolDone

datatype runner = ContextThread | PoolThread

record pool_state =
  coros :: "pool_phase list"
  counter :: size_t

definition pool_init :: "nat \<Rightarrow> pool_state" where
  "pool_init n = \<lparr>coros = replicate n OnContext, counter = 0\<rparr>"

text \<open>One handler: which thread runs it, and whether it increments the counter.\<close>

inductive pool_step :: "pool_state \<Rightarrow> runner \<times> bool \<Rightarrow> pool_state \<Rightarrow> bool" where
  post_to_pool: "i < length (coros st) \<Longrightarrow> coros st ! i = OnContext \<Longrightarrow>
     pool_step st (ContextThread, False) (st\<lparr>coros := (coros st)[i := OnPool]\<rparr>)"
| work_on_pool: "i < length (coros st) \<Longrightarrow> coros st ! i = OnPool \<Longrightarrow>
     pool_step st (PoolThread, False) (st\<lparr>coros := (coros st)[i := BackOnContext]\<rparr>)"
| increment: "i < length (coros st) \<Longrightarrow> coros st ! i = BackOnContext \<Longrightarrow>
     pool_step st (ContextThread, True) (st\<lparr>coros := (coros st)[i := PoolDone], counter := counter st + 1\<rparr>)"

inductive_cases pool_stepE: "pool_step st l st'"

inductive pool_run :: "pool_state \<Rightarrow> (runner \<times> bool) list \<Rightarrow> pool_state \<Rightarrow> bool" where
  pool_stop: "pool_run st [] st"
| pool_more: "pool_run st ls st' \<Longrightarrow> pool_step st' l st'' \<Longrightarrow> pool_run st (ls @ [l]) st''"

text \<open>\<open>thread_pool_slides.cpp\<close>: the same without the pool, executed in order by the one thread of the
  context.\<close>

definition slides_main :: "nat \<Rightarrow> size_t" where
  "slides_main n = foldl (\<lambda>c _. c + 1) 0 [0..<n]"

section \<open>The debug loop\<close>

text \<open>Documented behaviour of \<open>io_context::run\<close>: it runs handlers like repeated \<open>run_one\<close> and returns
  their number. \<open>after n ctx c\<close>: the context \<open>c\<close> is reached after \<open>n\<close> handlers and has no work left.\<close>

fun after :: "'ctx run_one \<Rightarrow> nat \<Rightarrow> 'ctx \<Rightarrow> 'ctx \<Rightarrow> bool" where
  "after run_one 0 ctx c = (run_one ctx = None \<and> c = ctx)"
| "after run_one (Suc n) ctx c = (case run_one ctx of Some (ctx', dt) \<Rightarrow> after run_one n ctx' c | None \<Rightarrow> False)"

definition context_run_ok :: "('ctx \<Rightarrow> ('ctx \<times> size_t) option) \<Rightarrow> 'ctx run_one \<Rightarrow> bool" where
  "context_run_ok context_run run_one \<longleftrightarrow>
     (\<forall>ctx n c. after run_one n ctx c \<longrightarrow> context_run ctx = Some (c, of_nat n))"

lemma debug_loop_after:
  assumes "after run_one n ctx c"
  shows "\<exists>ls. debug_loop run_one ctx i = Some (c, i + of_nat n, ls) \<and> length ls = n"
  using assms
proof (induction n arbitrary: ctx i)
  case 0
  then show ?case by (subst debug_loop.simps) simp
next
  case (Suc n)
  then obtain ctx' dt where r: "run_one ctx = Some (ctx', dt)" and a: "after run_one n ctx' c"
    by (auto split: option.splits)
  from Suc.IH [OF a, of "i + 1"] obtain ls where
    "debug_loop run_one ctx' (i + 1) = Some (c, i + 1 + of_nat n, ls)" "length ls = n" by auto
  with r show ?case by (subst debug_loop.simps) (simp add: algebra_simps)
qed

text \<open>Conversely, a loop that returns has run out of work.\<close>

lemma debug_loop_returns:
  assumes "debug_loop run_one ctx i = Some (c, m, ls)"
  shows "after run_one (length ls) ctx c \<and> m = i + of_nat (length ls)"
proof -
  let ?P = "\<lambda>run_one ctx i r. case r of (c, m, ls) \<Rightarrow>
    after run_one (length ls) ctx c \<and> m = i + of_nat (length ls)"
  have "?P run_one ctx i (c, m, ls)"
  proof (rule debug_loop.raw_induct [where P = ?P, OF _ assms])
    fix f run_one ctx i r
    assume IH: "\<And>run_one ctx i r. f run_one ctx i = Some r \<Longrightarrow> ?P run_one ctx i r"
      and r: "(case run_one ctx of None \<Rightarrow> Some (ctx, i, [])
        | Some (ctx', dt) \<Rightarrow> do { (c, n, ls) \<leftarrow> f run_one ctx' (i + 1); Some (c, n, step_line i dt # ls) }) = Some r"
    show "?P run_one ctx i r"
    proof (cases "run_one ctx")
      case None
      with r show ?thesis by auto
    next
      case (Some p)
      then obtain ctx' dt c n ls where
        p: "run_one ctx = Some (ctx', dt)" "f run_one ctx' (i + 1) = Some (c, n, ls)" "r = (c, n, step_line i dt # ls)"
        using r by (cases p) (auto simp: bind_eq_Some_conv)
      from IH [OF p(2)] p(1,3) show ?thesis by (simp add: algebra_simps)
    qed
  qed
  then show ?thesis by simp
qed

section \<open>The thread pool\<close>

lemma count_list_update:
  assumes "i < length xs" and "x \<noteq> xs ! i"
  shows "count_list (xs[i := x]) x = count_list xs x + 1"
  using assms
proof (induction xs arbitrary: i)
  case (Cons y ys)
  then show ?case by (cases i) auto
qed simp

lemma count_list_update_other:
  "i < length xs \<Longrightarrow> y \<noteq> x \<Longrightarrow> y \<noteq> xs ! i \<Longrightarrow> count_list (xs[i := x]) y = count_list xs y"
proof (induction xs arbitrary: i)
  case (Cons z zs)
  then show ?case by (cases i) auto
qed simp

text \<open>How many handlers a coroutine still needs.\<close>

fun phase_left :: "pool_phase \<Rightarrow> nat" where
  "phase_left OnContext = 3"
| "phase_left OnPool = 2"
| "phase_left BackOnContext = 1"
| "phase_left PoolDone = 0"

text \<open>The phases are ordered by what is done; no handler takes a coroutine back.\<close>

instantiation pool_phase :: linorder
begin

definition less_eq_pool_phase :: "pool_phase \<Rightarrow> pool_phase \<Rightarrow> bool" where
  "less_eq_pool_phase a b \<longleftrightarrow> phase_left b \<le> phase_left a"

definition less_pool_phase :: "pool_phase \<Rightarrow> pool_phase \<Rightarrow> bool" where
  "less_pool_phase a b \<longleftrightarrow> phase_left b < phase_left a"

instance
proof
  show "a = b" if "a \<le> b" "b \<le> a" for a b :: pool_phase
    using that by (cases a; cases b) (simp_all add: less_eq_pool_phase_def)
qed (auto simp: less_eq_pool_phase_def less_pool_phase_def)

end

lemma list_all2_le_update:
  fixes xs :: "'a :: order list"
  assumes "i < length xs" and "xs ! i \<le> x"
  shows "list_all2 (\<le>) xs (xs[i := x])"
  using assms by (auto simp: list_all2_conv_all_nth nth_list_update)

lemma pool_run_advances: "pool_run st ls st' \<Longrightarrow> list_all2 (\<le>) (coros st) (coros st')"
proof (induction rule: pool_run.induct)
  case (pool_stop st)
  show ?case by (simp add: list_all2_refl)
next
  case (pool_more st ls st' l st'')
  have "list_all2 (\<le>) (coros st') (coros st'')"
    using pool_more.hyps(2) by (auto elim!: pool_stepE intro!: list_all2_le_update simp: less_eq_pool_phase_def)
  with pool_more.IH show ?case by (fastforce simp: list_all2_conv_all_nth intro: order_trans)
qed

lemma sum_list_map_update:
  fixes f :: "'a \<Rightarrow> nat"
  assumes "i < length xs" and "f (xs ! i) = f x + 1"
  shows "sum_list (map f xs) = sum_list (map f (xs[i := x])) + 1"
  using assms
proof (induction xs arbitrary: i)
  case (Cons y ys)
  then show ?case by (cases i) auto
qed simp

text \<open>Each handler brings the pool one step nearer to its end, keeps the number of coroutines, and
  keeps the counter equal to the number of coroutines that are done.\<close>

definition pool_inv :: "nat \<Rightarrow> (runner \<times> bool) list \<Rightarrow> pool_state \<Rightarrow> bool" where
  "pool_inv n ls st \<longleftrightarrow> length (coros st) = n
     \<and> counter st = of_nat (count_list (coros st) PoolDone)
     \<and> length ls + sum_list (map phase_left (coros st)) = 3 * n
     \<and> (\<forall>l \<in> set ls. snd l \<longrightarrow> fst l = ContextThread)"

lemma pool_step_inv: "pool_inv n ls st \<Longrightarrow> pool_step st l st' \<Longrightarrow> pool_inv n (ls @ [l]) st'"
proof (elim pool_stepE)
  fix i
  assume inv: "pool_inv n ls st"
  note [simp] = pool_inv_def
  show "pool_inv n (ls @ [l]) st'"
    if "l = (ContextThread, False)" "st' = st\<lparr>coros := (coros st)[i := OnPool]\<rparr>" "i < length (coros st)" "coros st ! i = OnContext"
    using inv that sum_list_map_update [of i "coros st" phase_left OnPool]
    by (simp add: count_list_update_other)
  show "pool_inv n (ls @ [l]) st'"
    if "l = (PoolThread, False)" "st' = st\<lparr>coros := (coros st)[i := BackOnContext]\<rparr>" "i < length (coros st)" "coros st ! i = OnPool"
    using inv that sum_list_map_update [of i "coros st" phase_left BackOnContext]
    by (simp add: count_list_update_other)
  show "pool_inv n (ls @ [l]) st'"
    if "l = (ContextThread, True)" "st' = st\<lparr>coros := (coros st)[i := PoolDone], counter := counter st + 1\<rparr>"
      "i < length (coros st)" "coros st ! i = BackOnContext"
    using inv that sum_list_map_update [of i "coros st" phase_left PoolDone]
    by (simp add: count_list_update)
qed

lemma pool_run_inv: "pool_run (pool_init n) ls st \<Longrightarrow> pool_inv n ls st"
proof (induction "pool_init n" ls st rule: pool_run.induct)
  case pool_stop
  have "count_list (replicate n OnContext) PoolDone = 0" by (simp add: count_list_0_iff)
  then show ?case by (simp add: pool_inv_def pool_init_def sum_list_replicate)
qed (rule pool_step_inv)

lemma pool_progress: "x \<in> set (coros st) \<Longrightarrow> x \<noteq> PoolDone \<Longrightarrow> \<exists>l st'. pool_step st l st'"
  by (cases x) (auto simp: in_set_conv_nth intro: pool_step.intros)

lemma pool_step_active: "pool_step st l st' \<Longrightarrow> \<exists>x \<in> set (coros st). x \<noteq> PoolDone"
  by (induction rule: pool_step.induct) (auto intro!: bexI [OF _ nth_mem])

lemma all_done_count: "\<forall>x \<in> set xs. x = PoolDone \<Longrightarrow> count_list xs PoolDone = length xs"
  by (induction xs) auto

lemma slides_count: "slides_main n = of_nat n"
  by (induction n) (auto simp: slides_main_def)

section \<open>Order of events in async\_invoke\<close>

text \<open>\<open>async_invoke\<close> calls the function once, on the pool. If it returns, the handler is called
  once, with the result, after the function, on its associated executor or, lacking one, on the
  system executor, while the executor is kept busy until the end; if it throws, the handler is never
  called and the exception escapes on the pool.\<close>

lemma async_invoke_completes:
  "filter (\<lambda>a. \<exists>e. a = CalledOn e) (async_invoke assoc f args) = [CalledOn Pool]
   \<and> (\<forall>r. f args = Inr r \<longrightarrow>
        (\<exists>e w. filter (\<lambda>a. \<exists>e r. a = HandlerOn e r) (async_invoke assoc f args) = [HandlerOn e r]
           \<and> e = (case assoc of Some ex \<Rightarrow> Associated ex | None \<Rightarrow> System)
           \<and> async_invoke assoc f args = [WorkStarted w, PostedToPool, CalledOn Pool, HandlerOn e r, WorkFinished w]))
   \<and> (\<forall>x. f args = Inl x \<longrightarrow>
        EscapedOn Pool x \<in> set (async_invoke assoc f args)
        \<and> (\<forall>e r. HandlerOn e r \<notin> set (async_invoke assoc f args)))
   \<and> bind_all f args () = f args"
  by (auto simp: async_invoke_def invoke_start_def invoke_on_pool_def bind_all_def split: sum.splits option.splits)

section \<open>Outcomes of run\_sync\<close>

text \<open>\<open>run_sync\<close> returns the value of an awaitable that returns and rethrows the exception of one that
  throws, in both build modes. An awaitable that is still suspended when the context runs out of
  work fails the assertion in a debug build; in a release build a missing value raises
  \<open>bad_optional_access\<close>, but an awaitable without value appears to have succeeded.\<close>

lemma run_sync_outcomes:
  "run_sync ndebug False (Returned r :: ('s, 'r) ctl) = Value r
   \<and> run_sync ndebug True (Returned r :: ('s, 'r) ctl) = NoValue
   \<and> run_sync ndebug is_void (Threw x :: ('s, 'r) ctl) = Rethrown x
   \<and> run_sync False is_void (Suspended s :: ('s, 'r) ctl) = AssertionFailed
   \<and> run_sync True False (Suspended s :: ('s, 'r) ctl) = BadOptionalAccess
   \<and> run_sync True True (Suspended s :: ('s, 'r) ctl) = NoValue"
  by (simp add: run_sync_def sync_store_def)

section \<open>Properties\<close>

text \<open>C31: \<open>runDebug\<close> runs a context exactly like \<open>io_context::run\<close>: if the context runs out of work after
  \<open>n\<close> handlers, both return \<open>n\<close> and leave the same context, so \<open>run\<close> does not depend on \<open>NDEBUG\<close>, and
  \<open>runDebug\<close> has printed one line per handler after its rule. It returns only when the context has
  run out of work.\<close>

theorem runDebug_equals_run:
  assumes "context_run_ok context_run run_one" and "after run_one n ctx c"
  shows "run False context_run run_one ctx = Some (c, of_nat n)
    \<and> run False context_run run_one ctx = run True context_run run_one ctx
    \<and> (\<exists>ls. runDebug run_one ctx = Some (c, of_nat n, Rule # ls) \<and> length ls = n)
    \<and> (runDebug run_one ctx2 = Some (c2, m, ls2) \<longrightarrow>
         after run_one (length ls2 - 1) ctx2 c2 \<and> m = of_nat (length ls2 - 1))"
proof -
  obtain ls where ls: "debug_loop run_one ctx 0 = Some (c, of_nat n, ls)" "length ls = n"
    using debug_loop_after [OF assms(2), of 0] by auto
  have "context_run ctx = Some (c, of_nat n)" using assms by (auto simp: context_run_ok_def)
  moreover have "after run_one (length ls2 - 1) ctx2 c2 \<and> m = of_nat (length ls2 - 1)"
    if "runDebug run_one ctx2 = Some (c2, m, ls2)"
    using that debug_loop_returns [of run_one ctx2 0] by (auto simp: runDebug_def bind_eq_Some_conv)
  ultimately show ?thesis using ls by (auto simp: run_def runDebug_def)
qed

text \<open>A context with \<open>k\<close> handlers.\<close>

definition countdown :: "nat run_one" where
  "countdown k = (case k of 0 \<Rightarrow> None | Suc m \<Rightarrow> Some (m, 1))"

lemma after_countdown: "after countdown n k c \<longleftrightarrow> n = k \<and> c = 0"
proof (induction n arbitrary: k)
  case 0
  then show ?case by (cases k) (auto simp: countdown_def)
next
  case (Suc n)
  show ?case
  proof (cases k)
    case (Suc m)
    then have "after countdown (Suc n) k c \<longleftrightarrow> after countdown n m c" by (simp add: countdown_def)
    also have "\<dots> \<longleftrightarrow> n = m \<and> c = 0" by (rule Suc.IH)
    finally show ?thesis using Suc by simp
  qed (simp add: countdown_def)
qed

theorem runDebug_equals_run_witness:
  "run False (\<lambda>k. Some (0, of_nat k)) countdown 3 = Some (0, 3)"
proof -
  have ok: "context_run_ok (\<lambda>k. Some (0, of_nat k)) countdown" by (simp add: context_run_ok_def after_countdown)
  have "after countdown 3 3 0" by (simp only: after_countdown)
  from runDebug_equals_run [OF ok this, of 0 0 0 "[]", THEN conjunct1] show ?thesis by simp
qed

text \<open>C22: However the handlers of \<open>thread_pool.cpp\<close> are interleaved, the counter is only ever
  incremented by the thread of the context; every schedule ends after three handlers per coroutine
  and cannot stop earlier; and then the counter is the number of coroutines, as in the version
  without the pool.\<close>

theorem thread_pool_counts:
  assumes "pool_run (pool_init n) ls st"
  shows "(\<forall>l \<in> set ls. snd l \<longrightarrow> fst l = ContextThread) \<and> length ls \<le> 3 * n
    \<and> ((\<nexists>l st'. pool_step st l st') \<longleftrightarrow> length ls = 3 * n)
    \<and> (length ls = 3 * n \<longrightarrow> counter st = slides_main n)"
proof -
  note inv = pool_run_inv [OF assms, unfolded pool_inv_def]
  have zero: "sum_list (map phase_left (coros st)) = 0 \<longleftrightarrow> (\<forall>x \<in> set (coros st). x = PoolDone)"
  proof -
    have "phase_left x = 0 \<longleftrightarrow> x = PoolDone" for x by (cases x) auto
    then show ?thesis by (auto simp: sum_list_eq_0_iff)
  qed
  have "(\<nexists>l st'. pool_step st l st') \<longleftrightarrow> (\<forall>x \<in> set (coros st). x = PoolDone)"
  proof
    assume "\<nexists>l st'. pool_step st l st'"
    then show "\<forall>x \<in> set (coros st). x = PoolDone" using pool_progress [of _ st] by blast
  next
    assume fin: "\<forall>x \<in> set (coros st). x = PoolDone"
    show "\<nexists>l st'. pool_step st l st'"
    proof (intro notI, elim exE)
      fix l st'
      assume "pool_step st l st'"
      from pool_step_active [OF this] fin show False by simp
    qed
  qed
  moreover have "length ls = 3 * n \<longleftrightarrow> sum_list (map phase_left (coros st)) = 0" using inv by linarith
  ultimately show ?thesis
    using inv zero by (auto simp: all_done_count slides_count)
qed

theorem thread_pool_counts_witness:
  "pool_run (pool_init 1) [(ContextThread, False), (PoolThread, False), (ContextThread, True)]
     \<lparr>coros = [PoolDone], counter = 1\<rparr> \<and> counter \<lparr>coros = [PoolDone], counter = 1\<rparr> = slides_main 1"
proof -
  have 1: "pool_step (pool_init 1) (ContextThread, False) \<lparr>coros = [OnPool], counter = 0\<rparr>"
    using post_to_pool [of 0 "pool_init 1"] by (simp add: pool_init_def)
  have 2: "pool_step \<lparr>coros = [OnPool], counter = 0\<rparr> (PoolThread, False) \<lparr>coros = [BackOnContext], counter = 0\<rparr>"
    using work_on_pool [of 0 "\<lparr>coros = [OnPool], counter = 0\<rparr>"] by simp
  have 3: "pool_step \<lparr>coros = [BackOnContext], counter = 0\<rparr> (ContextThread, True) \<lparr>coros = [PoolDone], counter = 1\<rparr>"
    using increment [of 0 "\<lparr>coros = [BackOnContext], counter = 0\<rparr>"] by simp
  have r: "pool_run (pool_init 1) [(ContextThread, False), (PoolThread, False), (ContextThread, True)]
      \<lparr>coros = [PoolDone], counter = 1\<rparr>"
    using pool_more [OF pool_more [OF pool_more [OF pool_stop 1] 2] 3] by simp
  with thread_pool_counts [OF r] show ?thesis by simp
qed

end
