(* ===== verification/Ping_Program.thy ===== *)
theory Ping_Program
  imports Process_Exec Signal_Program
begin

text \<open>
  \<open>process/ping_signal_advanced.cpp\<close> as a whole: \<open>with_signal_handling(execute(...))\<close>, that is the signal handler, the
  coroutine \<open>execute\<close>, the two coroutines that log the pipes of the child, and the timer. The parts are those of
  \<open>Process_Exec\<close>, \<open>Signal_Servers\<close> and \<open>Log_Lines\<close>; here a type emitted by the signal handler passes the
  filter of \<open>execute\<close> and reaches the operation that is outstanding.

  What \<open>async_execute\<close> does with a cancellation type is a parameter (\<open>react_ok\<close> is its documentation), as
  are the library's filters. The end of the child, of reads and of waits are inputs.
\<close>

section \<open>State\<close>

datatype child_signal = Interrupt | RequestExit | Terminate

text \<open>The filter of \<open>execute\<close>: total cancellation at first, later a function that answers \<open>terminal\<close>.\<close>

datatype exec_filter = TotalFilter | AlwaysTerminal

datatype timer_state = NoTimer | TimerRuns | TimerEnded

record ping_state =
  pg_handler :: "(unit, unit) ctl"
  pg_filter :: exec_filter
  pg_exec :: "(adv_exec_state, int) ctl"
  pg_out :: "(string, unit) ctl"
  pg_err :: "(string, unit) ctl"
  pg_timer :: timer_state

datatype pipe = Out | Err

datatype ping_event =
    PgSignal error_code signum
  | PgChild "exn + int"
  | PgLog pipe log_event
  | PgTimer error_code

datatype ping_action =
    PgHandler signal_action
  | PgExec adv_exec_action
  | PgSend child_signal
  | PgLogDoes pipe log_action
  | PgCancelTimer cancellation_type

type_synonym react = "cancellation_type \<Rightarrow> child_signal option"

definition react_ok :: "cancel_enum \<Rightarrow> react \<Rightarrow> bool" where
  "react_ok E react \<longleftrightarrow> react (ct_total E) = Some Interrupt \<and> react (ct_partial E) = Some RequestExit
     \<and> react (ct_terminal E) = Some Terminate \<and> react (ct_none E) = None"

definition exec_filtered :: "cancel_enum \<Rightarrow> cancel_lib \<Rightarrow> exec_filter \<Rightarrow> cancellation_type \<Rightarrow> cancellation_type" where
  "exec_filtered E F f ty = (case f of TotalFilter \<Rightarrow> pass E F EnableTotal ty | AlwaysTerminal \<Rightarrow> ct_terminal E)"

section \<open>Logs\<close>

definition pipe_log :: "pipe \<Rightarrow> ping_state \<Rightarrow> (string, unit) ctl" where
  "pipe_log i p = (case i of Out \<Rightarrow> pg_out p | Err \<Rightarrow> pg_err p)"

definition set_log :: "pipe \<Rightarrow> (string, unit) ctl \<Rightarrow> ping_state \<Rightarrow> ping_state" where
  "set_log i c p = (case i of Out \<Rightarrow> p\<lparr>pg_out := c\<rparr> | Err \<Rightarrow> p\<lparr>pg_err := c\<rparr>)"

definition log_turn :: "cancel_enum \<Rightarrow> pipe \<Rightarrow> log_event \<Rightarrow> ping_state \<Rightarrow> ping_action list \<times> ping_state" where
  "log_turn E i e p =
     (case drive (log_body E) (pipe_log i p) [e] of (as, c) \<Rightarrow> (map (PgLogDoes i) as, set_log i c p))"

text \<open>A cancellation of the promise reaches the parallel group of both logs; each filters it.\<close>

definition cancel_log :: "cancel_enum \<Rightarrow> cancellation_type \<Rightarrow> pipe \<Rightarrow> ping_state \<Rightarrow> ping_action list \<times> ping_state" where
  "cancel_log E ty i p =
     (if log_filter E ty = ct_none E then ([], p) else log_turn E i (CancelSlot (log_filter E ty)) p)"

definition cancel_logs :: "cancel_enum \<Rightarrow> cancellation_type \<Rightarrow> ping_state \<Rightarrow> ping_action list \<times> ping_state" where
  "cancel_logs E ty p =
     (case cancel_log E ty Out p of (as, p') \<Rightarrow> (case cancel_log E ty Err p' of (bs, p'') \<Rightarrow> (as @ bs, p'')))"

definition logs_ended :: "ping_state \<Rightarrow> bool" where
  "logs_ended p \<longleftrightarrow> finished (pg_out p) \<and> finished (pg_err p)"

section \<open>execute\<close>

text \<open>When both operands of \<open>promise || timer\<close> have ended, \<open>execute\<close> goes on. The promise delivers the
  exceptions of the logs as values and so always counts as a success.\<close>

definition exec_resume :: "adv_exec_event \<Rightarrow> ping_state \<Rightarrow> ping_action list \<times> ping_state" where
  "exec_resume e p =
     (case drive adv_exec (pg_exec p) [e] of (as, c) \<Rightarrow> (map PgExec as, p\<lparr>pg_exec := c\<rparr>))"

definition in_pipes :: "ping_state \<Rightarrow> bool" where
  "in_pipes p \<longleftrightarrow> (\<exists>code. pg_exec p = Suspended (AdvPipes code))"

lemma in_pipes_code [code]: "in_pipes p = (case pg_exec p of Suspended (AdvPipes c) \<Rightarrow> True | _ \<Rightarrow> False)"
  by (auto simp: in_pipes_def split: ctl.splits adv_exec_state.splits)

definition pipes_checked :: "ping_state \<Rightarrow> ping_action list \<times> ping_state" where
  "pipes_checked p =
     (if in_pipes p \<and> logs_ended p \<and> pg_timer p = TimerEnded then exec_resume (AdvPipesDone (Inr ())) p else ([], p))"

text \<open>\<open>||\<close>: the promise has ended and cancels the timer.\<close>

definition promise_checked :: "cancel_enum \<Rightarrow> ping_state \<Rightarrow> ping_action list" where
  "promise_checked E p = (if in_pipes p \<and> logs_ended p \<and> pg_timer p = TimerRuns then [PgCancelTimer (ct_all E)] else [])"

text \<open>The end of the child: the timer is started, the filter replaced, and both waits begin; the promise may
  have ended before. If \<open>async_execute\<close> fails, \<open>execute\<close> ends and the destroyed promise cancels the logs.\<close>

definition child_turn :: "cancel_enum \<Rightarrow> exn + int \<Rightarrow> ping_state \<Rightarrow> ping_action list \<times> ping_state" where
  "child_turn E r p =
     (if pg_exec p \<noteq> Suspended AdvChild then ([], p)
      else (case exec_resume (AdvChildDone r) p of
              (as, p') \<Rightarrow>
                if isl r then (case cancel_logs E (ct_all E) p' of (bs, p'') \<Rightarrow> (as @ bs, p''))
                else (let p'' = p'\<lparr>pg_filter := AlwaysTerminal, pg_timer := TimerRuns\<rparr> in (as @ promise_checked E p'', p''))))"

text \<open>A type emitted to \<open>execute\<close>: while it waits for the child, \<open>async_execute\<close> signals the child; later both
  operands are cancelled.\<close>

definition emit_exec :: "cancel_enum \<Rightarrow> cancel_lib \<Rightarrow> react \<Rightarrow> cancellation_type \<Rightarrow> ping_state \<Rightarrow> ping_action list \<times> ping_state" where
  "emit_exec E F react ty p =
     (let a = exec_filtered E F (pg_filter p) ty
      in if a = ct_none E then ([], p)
         else if pg_exec p = Suspended AdvChild then (map PgSend (case react a of Some s \<Rightarrow> [s] | None \<Rightarrow> []), p)
         else if in_pipes p
         then (case cancel_logs E a p of
                 (as, p') \<Rightarrow> (as @ (if pg_timer p = TimerRuns then [PgCancelTimer a] else []), p'))
         else ([], p))"

section \<open>The program\<close>

fun emit_all :: "cancel_enum \<Rightarrow> cancel_lib \<Rightarrow> react \<Rightarrow> signal_action list \<Rightarrow> ping_state \<Rightarrow> ping_action list \<times> ping_state" where
  "emit_all E F react [] p = ([], p)"
| "emit_all E F react (Emit ty # as) p =
     (case emit_exec E F react ty p of (bs, p') \<Rightarrow> (case emit_all E F react as p' of (cs, p'') \<Rightarrow> (bs @ cs, p'')))"
| "emit_all E F react (a # as) p =
     (case emit_all E F react as p of (cs, p') \<Rightarrow> (PgHandler a # cs, p'))"

fun ping_step :: "cancel_enum \<Rightarrow> cancel_lib \<Rightarrow> react \<Rightarrow> (ping_state, ping_event, ping_action) stepper" where
  "ping_step E F react p (PgSignal ec sg) =
     (case drive (ping_signal_handling E) (pg_handler p) [(ec, sg)] of
        (as, c) \<Rightarrow> emit_all E F react as (p\<lparr>pg_handler := c\<rparr>))"
| "ping_step E F react p (PgChild r) = child_turn E r p"
| "ping_step E F react p (PgLog i e) =
     (case log_turn E i e p of
        (as, p') \<Rightarrow> (case pipes_checked p' of
           (bs, p'') \<Rightarrow> (as @ (if logs_ended p then [] else promise_checked E p') @ bs, p'')))"
| "ping_step E F react p (PgTimer ec) =
     (if pg_timer p \<noteq> TimerRuns then ([], p)
      else (let p = p\<lparr>pg_timer := TimerEnded\<rparr>
            in case (if ec = Success \<and> \<not> logs_ended p then cancel_logs E (ct_all E) p else ([], p)) of
                 (as, p') \<Rightarrow> (case pipes_checked p' of (bs, p'') \<Rightarrow> (as @ bs, p''))))"

text \<open>\<open>main\<close> with enough arguments, and the result of \<open>with_signal_handling\<close> once both operands have
  ended.\<close>

definition ping_start :: "error_code \<Rightarrow> string \<Rightarrow> string list \<Rightarrow> ping_action list \<times> ping_state" where
  "ping_start launch path args =
     (case adv_exec_start launch path args of
        (as, c) \<Rightarrow>
          (map PgExec as @ (if finished c then [] else map (PgLogDoes Out) (fst log_start) @ map (PgLogDoes Err) (fst log_start)),
           \<lparr>pg_handler = Suspended (), pg_filter = TotalFilter, pg_exec = c,
             pg_out = (if finished c then Returned () else snd log_start),
             pg_err = (if finished c then Returned () else snd log_start), pg_timer = NoTimer\<rparr>))"

definition ping_result :: "ping_state \<Rightarrow> (exn + int) option" where
  "ping_result p =
     (if \<not> finished (pg_handler p) then None
      else (case pg_exec p of
              Returned c \<Rightarrow> Some (with_signal_handling None c)
            | Threw x \<Rightarrow> Some (with_signal_handling (Some x) 0)
            | Suspended _ \<Rightarrow> None))"

section \<open>What happens to the logs\<close>

fun log_ev :: "pipe \<Rightarrow> ping_event \<Rightarrow> log_event list" where
  "log_ev i (PgLog j e) = (if j = i then [e] else [])"
| "log_ev i _ = []"

fun log_act :: "pipe \<Rightarrow> ping_action \<Rightarrow> log_action list" where
  "log_act i (PgLogDoes j a) = (if j = i then [a] else [])"
| "log_act i _ = []"

definition log_evs :: "pipe \<Rightarrow> ping_event list \<Rightarrow> log_event list" where
  "log_evs i es = concat (map (log_ev i) es)"

definition log_acts :: "pipe \<Rightarrow> ping_action list \<Rightarrow> log_action list" where
  "log_acts i as = concat (map (log_act i) as)"

lemma log_evs_simps [simp]:
  "log_evs i [] = []" "log_evs i (e # es) = log_ev i e @ log_evs i es" "log_evs i (es @ fs) = log_evs i es @ log_evs i fs"
  by (simp_all add: log_evs_def)

lemma log_acts_simps [simp]:
  "log_acts i [] = []" "log_acts i (a # as) = log_act i a @ log_acts i as" "log_acts i (as @ bs) = log_acts i as @ log_acts i bs"
  "log_acts i (map (PgLogDoes j) cs) = (if j = i then cs else [])" "log_acts i (map PgExec ds) = []" "log_acts i (map PgSend ss) = []"
  by (simp_all add: log_acts_def o_def concat_map_singleton)

lemma pipe_log_set [simp]: "pipe_log i (set_log j c p) = (if i = j then c else pipe_log i p)"
  by (cases i; cases j) (simp_all add: pipe_log_def set_log_def)

lemma set_log_simps [simp]:
  "pg_handler (set_log i c p) = pg_handler p" "pg_filter (set_log i c p) = pg_filter p"
  "pg_exec (set_log i c p) = pg_exec p" "pg_timer (set_log i c p) = pg_timer p"
  by (cases i; simp add: set_log_def)+

lemma pipe_log_update [simp]:
  "pipe_log i (p\<lparr>pg_exec := x\<rparr>) = pipe_log i p" "pipe_log i (p\<lparr>pg_timer := y\<rparr>) = pipe_log i p"
  "pipe_log i (p\<lparr>pg_filter := f\<rparr>) = pipe_log i p" "pipe_log i (p\<lparr>pg_handler := h\<rparr>) = pipe_log i p"
  by (cases i; simp add: pipe_log_def)+

lemma logs_ended_pipe: "logs_ended p \<longleftrightarrow> (\<forall>i. finished (pipe_log i p))"
  unfolding logs_ended_def pipe_log_def by (metis pipe.exhaust pipe.simps(3,4))

lemma exec_resume_log [simp]:
  "exec_resume e p = (as, p') \<Longrightarrow> pipe_log i p' = pipe_log i p \<and> log_acts i as = []"
  by (auto simp: exec_resume_def split: prod.splits)

lemma pipes_checked_log:
  "pipes_checked p = (as, p') \<Longrightarrow> pipe_log i p' = pipe_log i p \<and> log_acts i as = []"
  using exec_resume_log by (auto simp: pipes_checked_def split: if_splits)

lemma promise_checked_log [simp]: "log_acts i (promise_checked E p) = []"
  by (simp add: promise_checked_def)

text \<open>Every step resumes a log with its own events only, with a cancellation before them at most.\<close>

lemma log_turn_log:
  assumes "log_turn E j e p = (as, p')"
  shows "drive (log_body E) (pipe_log i p) (if i = j then [e] else []) = (log_acts i as, pipe_log i p')"
  using assms by (auto simp: log_turn_def simp del: drive.simps(2) split: prod.splits)

lemma cancel_log_log:
  assumes "cancel_log E ty j p = (as, p')"
  shows "\<exists>cs. drive (log_body E) (pipe_log i p) (map CancelSlot cs) = (log_acts i as, pipe_log i p')"
proof (cases "log_filter E ty = ct_none E")
  case True
  with assms show ?thesis by (intro exI [of _ "[]"]) (simp add: cancel_log_def)
next
  case False
  with assms have "log_turn E j (CancelSlot (log_filter E ty)) p = (as, p')" by (simp add: cancel_log_def)
  from log_turn_log [OF this, of i] show ?thesis
    by (intro exI [of _ "if i = j then [log_filter E ty] else []"]) (simp del: drive.simps(2) split: if_splits)
qed

lemma cancel_logs_log:
  assumes "cancel_logs E ty p = (as, p')"
  shows "\<exists>cs. drive (log_body E) (pipe_log i p) (map CancelSlot cs) = (log_acts i as, pipe_log i p')"
proof -
  obtain as1 p1 as2 where 1: "cancel_log E ty Out p = (as1, p1)" and 2: "cancel_log E ty Err p1 = (as2, p')" and as: "as = as1 @ as2"
    using assms by (auto simp: cancel_logs_def split: prod.splits)
  obtain cs where "drive (log_body E) (pipe_log i p) (map CancelSlot cs) = (log_acts i as1, pipe_log i p1)"
    using cancel_log_log [OF 1] by blast
  moreover obtain ds where "drive (log_body E) (pipe_log i p1) (map CancelSlot ds) = (log_acts i as2, pipe_log i p')"
    using cancel_log_log [OF 2] by blast
  ultimately have "drive (log_body E) (pipe_log i p) (map CancelSlot (cs @ ds)) = (log_acts i as, pipe_log i p')"
    by (simp add: drive_append as)
  then show ?thesis by blast
qed

lemma cancel_logs_simps:
  assumes "cancel_logs E ty p = (as, p')"
  shows "pg_handler p' = pg_handler p \<and> pg_filter p' = pg_filter p \<and> pg_exec p' = pg_exec p \<and> pg_timer p' = pg_timer p"
  using assms by (auto simp: cancel_logs_def cancel_log_def log_turn_def split: prod.splits if_splits)

lemma handler_emits:
  assumes "drive (ping_signal_handling E) c [(ec, sg)] = (ss, c')"
  shows "(ss = [] \<or> ss = [WaitSignal signal_set_advanced] \<or> (\<exists>ty. ss = [Emit ty, WaitSignal signal_set_advanced]))
    \<and> (ec \<noteq> Success \<longrightarrow> ss = [])"
  using assms by (cases c) (auto simp: ping_signal_handling_def signal_handling_def split: if_splits option.splits)

lemma emit_exec_log:
  assumes "emit_exec E F react ty p = (as, p')"
  shows "(\<exists>cs. drive (log_body E) (pipe_log i p) (map CancelSlot cs) = (log_acts i as, pipe_log i p'))
    \<and> (\<not> in_pipes p \<longrightarrow> log_acts i as = [] \<and> p' = p)"
proof (cases "in_pipes p \<and> exec_filtered E F (pg_filter p) ty \<noteq> ct_none E")
  case True
  then obtain bs where c: "cancel_logs E (exec_filtered E F (pg_filter p) ty) p = (bs, p')" "log_acts i as = log_acts i bs"
    using assms by (auto simp: emit_exec_def Let_def in_pipes_def split: prod.splits if_splits)
  with cancel_logs_log [OF c(1), of i] True show ?thesis by simp
next
  case False
  then have "log_acts i as = [] \<and> p' = p"
    using assms by (auto simp: emit_exec_def Let_def split: if_splits)
  then show ?thesis by (auto intro: exI [of _ "[]"])
qed

text \<open>Events that cancel no log.\<close>

fun quiet :: "ping_state \<Rightarrow> ping_event \<Rightarrow> bool" where
  "quiet p (PgSignal ec sg) \<longleftrightarrow> ec \<noteq> Success \<or> \<not> in_pipes p"
| "quiet p (PgChild r) \<longleftrightarrow> \<not> isl r \<or> pg_exec p \<noteq> Suspended AdvChild"
| "quiet p (PgLog i e) \<longleftrightarrow> True"
| "quiet p (PgTimer ec) \<longleftrightarrow> ec \<noteq> Success \<or> pg_timer p \<noteq> TimerRuns"

lemma in_pipes_handler [simp]: "in_pipes (p\<lparr>pg_handler := c\<rparr>) = in_pipes p"
  by (simp add: in_pipes_def)

lemma signal_step_log:
  assumes "ping_step E F react p (PgSignal ec sg) = (as, p')"
  shows "\<exists>cs. drive (log_body E) (pipe_log i p) (map CancelSlot cs) = (log_acts i as, pipe_log i p')
    \<and> (quiet p (PgSignal ec sg) \<longrightarrow> cs = [])"
proof -
  obtain ss c where d: "drive (ping_signal_handling E) (pg_handler p) [(ec, sg)] = (ss, c)" by fastforce
  let ?p = "p\<lparr>pg_handler := c\<rparr>"
  have e: "emit_all E F react ss ?p = (as, p')" using assms d by (simp del: drive.simps)
  consider "ss = [] \<or> ss = [WaitSignal signal_set_advanced]" | ty where "ss = [Emit ty, WaitSignal signal_set_advanced]"
    using handler_emits [OF d] by blast
  then show ?thesis
  proof cases
    case 1
    with e show ?thesis by (intro exI [of _ "[]"]) auto
  next
    case (2 ty)
    then obtain bs where b: "emit_exec E F react ty ?p = (bs, p')" "as = bs @ [PgHandler (WaitSignal signal_set_advanced)]"
      using e by (auto split: prod.splits)
    note el = emit_exec_log [OF b(1), of i]
    have s: "ec = Success" using handler_emits [OF d] 2 by auto
    show ?thesis
    proof (cases "in_pipes p")
      case True
      with el b(2) s show ?thesis by auto
    next
      case False
      with el b(2) show ?thesis by (intro exI [of _ "[]"]) auto
    qed
  qed
qed

lemma ping_step_log:
  assumes "ping_step E F react p ev = (as, p')"
  shows "\<exists>cs. drive (log_body E) (pipe_log i p) (map CancelSlot cs @ log_evs i [ev]) = (log_acts i as, pipe_log i p')
    \<and> (quiet p ev \<longrightarrow> cs = [])"
proof (cases ev)
  case (PgSignal ec sg)
  with signal_step_log [of E F react p ec sg as p' i] assms show ?thesis by simp
next
  case (PgChild r)
  show ?thesis
  proof (cases "pg_exec p = Suspended AdvChild")
    case True
    obtain as1 p1 where x: "exec_resume (AdvChildDone r) p = (as1, p1)" by fastforce
    show ?thesis
    proof (cases "isl r")
      case inl: True
      then obtain as2 where c: "cancel_logs E (ct_all E) p1 = (as2, p')" "as = as1 @ as2"
        using assms PgChild True x by (auto simp: child_turn_def split: prod.splits)
      from cancel_logs_log [OF c(1), of i] exec_resume_log [OF x, of i] c(2) PgChild inl True show ?thesis by auto
    next
      case False
      then show ?thesis using assms PgChild True x exec_resume_log [OF x, of i]
        by (auto simp: child_turn_def Let_def)
    qed
  qed (use assms PgChild in \<open>auto simp: child_turn_def intro: exI [of _ "[]"]\<close>)
next
  case (PgLog j e)
  obtain as1 p1 where l: "log_turn E j e p = (as1, p1)" by fastforce
  obtain as2 p2 where c: "pipes_checked p1 = (as2, p2)" by fastforce
  have "as = as1 @ (if logs_ended p then [] else promise_checked E p1) @ as2" "p' = p2" using assms PgLog l c by auto
  with log_turn_log [OF l, of i] pipes_checked_log [OF c, of i] PgLog show ?thesis
    by (intro exI [of _ "[]"]) (auto simp del: drive.simps(2))
next
  case (PgTimer ec)
  show ?thesis
  proof (cases "pg_timer p = TimerRuns")
    case True
    let ?p = "p\<lparr>pg_timer := TimerEnded\<rparr>"
    obtain as1 p1 where c: "(if ec = Success \<and> \<not> logs_ended ?p then cancel_logs E (ct_all E) ?p else ([], ?p)) = (as1, p1)" by fastforce
    obtain as2 p2 where r: "pipes_checked p1 = (as2, p2)" by fastforce
    have a: "as = as1 @ as2" "p' = p2" using assms PgTimer True c r by (auto simp: Let_def)
    note pc = pipes_checked_log [OF r, of i]
    show ?thesis
    proof (cases "ec = Success \<and> \<not> logs_ended ?p")
      case cancel: True
      with c cancel_logs_log [of E "ct_all E" ?p as1 p1 i] a pc PgTimer True show ?thesis by auto
    next
      case False
      then have "as1 = []" "p1 = ?p" using c by auto
      with a pc PgTimer show ?thesis by (intro exI [of _ "[]"]) auto
    qed
  qed (use assms PgTimer in \<open>auto intro: exI [of _ "[]"]\<close>)
qed

lemma cancel_slots_finished:
  "drive (log_body E) c (map CancelSlot cs) = (as, c') \<Longrightarrow> finished c' = finished c"
proof (induction cs arbitrary: c as)
  case (Cons ty cs)
  then show ?case by (cases c) (auto split: prod.splits)
qed simp

lemma cancel_logs_ended: "cancel_logs E ty p = (as, p') \<Longrightarrow> logs_ended p' = logs_ended p"
  using cancel_logs_log [of E ty p as p'] cancel_slots_finished by (metis logs_ended_pipe)

section \<open>Phases of execute\<close>

definition ping_ok :: "ping_state \<Rightarrow> bool" where
  "ping_ok p \<longleftrightarrow>
     (case pg_exec p of
        Suspended AdvChild \<Rightarrow> pg_filter p = TotalFilter \<and> pg_timer p = NoTimer
      | Suspended (AdvPipes c) \<Rightarrow> pg_filter p = AlwaysTerminal \<and> pg_timer p \<noteq> NoTimer \<and> \<not> (logs_ended p \<and> pg_timer p = TimerEnded)
      | Returned c \<Rightarrow> logs_ended p \<and> pg_timer p = TimerEnded
      | Threw x \<Rightarrow> True)"

text \<open>What a step does to \<open>execute\<close>.\<close>

definition exec_next :: "ping_state \<Rightarrow> ping_event \<Rightarrow> ping_state \<Rightarrow> (adv_exec_state, int) ctl" where
  "exec_next p ev p' =
     (case pg_exec p of
        Suspended AdvChild \<Rightarrow>
          (case ev of PgChild (Inr c) \<Rightarrow> Suspended (AdvPipes c) | PgChild (Inl x) \<Rightarrow> Threw x | _ \<Rightarrow> pg_exec p)
      | Suspended (AdvPipes c) \<Rightarrow>
          if logs_ended p' \<and> pg_timer p' = TimerEnded then Returned c else pg_exec p
      | _ \<Rightarrow> pg_exec p)"

lemma logs_ended_update [simp]:
  "logs_ended (p\<lparr>pg_exec := x\<rparr>) = logs_ended p" "logs_ended (p\<lparr>pg_timer := y\<rparr>) = logs_ended p"
  "logs_ended (p\<lparr>pg_filter := f\<rparr>) = logs_ended p" "logs_ended (p\<lparr>pg_handler := h\<rparr>) = logs_ended p"
  by (simp_all add: logs_ended_def)

lemma pipes_checked_exec:
  assumes "pipes_checked p = (as, p')" and "\<forall>c. pg_exec p = Suspended (AdvPipes c) \<longrightarrow> pg_filter p = AlwaysTerminal \<and> pg_timer p \<noteq> NoTimer"
    and "pg_exec p = Suspended AdvChild \<longrightarrow> pg_filter p = TotalFilter \<and> pg_timer p = NoTimer"
    and "\<forall>c. pg_exec p = Returned c \<longrightarrow> logs_ended p \<and> pg_timer p = TimerEnded"
  shows "ping_ok p' \<and> pg_exec p' = (case pg_exec p of
      Suspended (AdvPipes c) \<Rightarrow> if logs_ended p' \<and> pg_timer p' = TimerEnded then Returned c else pg_exec p | _ \<Rightarrow> pg_exec p)"
proof (cases "in_pipes p")
  case True
  then obtain c where c: "pg_exec p = Suspended (AdvPipes c)" by (auto simp: in_pipes_def)
  show ?thesis
  proof (cases "logs_ended p \<and> pg_timer p = TimerEnded")
    case ended: True
    with c assms(1) have "p' = p\<lparr>pg_exec := Returned c\<rparr>" by (auto simp: pipes_checked_def True exec_resume_def)
    with c ended show ?thesis by (simp add: ping_ok_def)
  next
    case False
    with assms(1) have "p' = p" unfolding pipes_checked_def by (auto split: if_splits)
    with c False assms(2) show ?thesis by (auto simp: ping_ok_def)
  qed
next
  case False
  then have "p' = p" using assms(1) unfolding pipes_checked_def by (auto split: if_splits)
  with False assms(3,4) show ?thesis by (auto simp: ping_ok_def in_pipes_def split: ctl.splits adv_exec_state.splits)
qed

lemma ping_okD:
  assumes "ping_ok p"
  shows "\<forall>c. pg_exec p = Suspended (AdvPipes c) \<longrightarrow> pg_filter p = AlwaysTerminal \<and> pg_timer p \<noteq> NoTimer"
    and "pg_exec p = Suspended AdvChild \<longrightarrow> pg_filter p = TotalFilter \<and> pg_timer p = NoTimer"
    and "\<forall>c. pg_exec p = Returned c \<longrightarrow> logs_ended p \<and> pg_timer p = TimerEnded"
  using assms by (auto simp: ping_ok_def)

lemma emit_all_exec:
  assumes "emit_all E F react ss p = (as, p')"
  shows "pg_exec p' = pg_exec p \<and> pg_filter p' = pg_filter p \<and> pg_timer p' = pg_timer p \<and> logs_ended p' = logs_ended p"
  using assms
proof (induction ss arbitrary: p as)
  case (Cons s ss)
  show ?case
  proof (cases s)
    case (Emit ty)
    then obtain as1 p1 as2 where e: "emit_exec E F react ty p = (as1, p1)" and r: "emit_all E F react ss p1 = (as2, p')"
      using Cons.prems by (auto split: prod.splits)
    have "pg_exec p1 = pg_exec p \<and> pg_filter p1 = pg_filter p \<and> pg_timer p1 = pg_timer p \<and> logs_ended p1 = logs_ended p"
      using e cancel_logs_simps cancel_logs_ended
      by (fastforce simp: emit_exec_def Let_def split: if_splits prod.splits)
    with Cons.IH [OF r] show ?thesis by simp
  next
    case (WaitSignal x)
    then obtain as2 where "emit_all E F react ss p = (as2, p')" using Cons.prems by (auto split: prod.splits)
    from Cons.IH [OF this] show ?thesis .
  qed
qed simp

lemma ping_step_exec:
  assumes "ping_ok p" and "ping_step E F react p ev = (as, p')"
  shows "ping_ok p' \<and> pg_exec p' = exec_next p ev p'"
proof (cases ev)
  case (PgSignal ec sg)
  obtain ss c where "drive (ping_signal_handling E) (pg_handler p) [(ec, sg)] = (ss, c)" by fastforce
  then have "emit_all E F react ss (p\<lparr>pg_handler := c\<rparr>) = (as, p')" using assms(2) PgSignal by (simp del: drive.simps)
  from emit_all_exec [OF this] assms(1) PgSignal show ?thesis
    by (auto simp: ping_ok_def exec_next_def split: ctl.splits adv_exec_state.splits)
next
  case (PgChild r)
  show ?thesis
  proof (cases "pg_exec p = Suspended AdvChild")
    case True
    show ?thesis
    proof (cases r)
      case (Inl x)
      then obtain as2 where c: "cancel_logs E (ct_all E) (p\<lparr>pg_exec := Threw x\<rparr>) = (as2, p')"
        using assms(2) PgChild True by (auto simp: child_turn_def exec_resume_def split: prod.splits)
      from cancel_logs_simps [OF c] Inl PgChild True show ?thesis by (simp add: ping_ok_def exec_next_def)
    next
      case (Inr code)
      then have "p' = p\<lparr>pg_exec := Suspended (AdvPipes code), pg_filter := AlwaysTerminal, pg_timer := TimerRuns\<rparr>"
        using assms(2) PgChild True by (auto simp: child_turn_def exec_resume_def Let_def)
      with Inr PgChild True show ?thesis by (simp add: ping_ok_def exec_next_def)
    qed
  next
    case False
    then have "p' = p" using assms(2) PgChild by (simp add: child_turn_def)
    with False assms(1) show ?thesis
      by (auto simp: ping_ok_def exec_next_def split: ctl.splits adv_exec_state.splits)
  qed
next
  case (PgLog j e)
  obtain as1 p1 where l: "log_turn E j e p = (as1, p1)" by fastforce
  have keep: "pg_exec p1 = pg_exec p" "pg_filter p1 = pg_filter p" "pg_timer p1 = pg_timer p"
    using l by (auto simp: log_turn_def split: prod.splits)
  have "finished (pipe_log i p) \<longrightarrow> finished (pipe_log i p1)" for i
    using log_turn_log [OF l, of i] by (cases "pipe_log i p") auto
  then have mono: "logs_ended p \<longrightarrow> logs_ended p1" by (auto simp: logs_ended_pipe)
  obtain as2 where c: "pipes_checked p1 = (as2, p')" using assms(2) PgLog l by (auto split: prod.splits)
  have "ping_ok p' \<and> pg_exec p' = (case pg_exec p1 of
      Suspended (AdvPipes c) \<Rightarrow> if logs_ended p' \<and> pg_timer p' = TimerEnded then Returned c else pg_exec p1 | _ \<Rightarrow> pg_exec p1)"
    by (rule pipes_checked_exec [OF c]) (use ping_okD [OF assms(1)] keep mono in auto)
  with keep PgLog show ?thesis by (auto simp: exec_next_def split: ctl.splits adv_exec_state.splits)
next
  case (PgTimer ec)
  show ?thesis
  proof (cases "pg_timer p = TimerRuns")
    case True
    let ?p = "p\<lparr>pg_timer := TimerEnded\<rparr>"
    obtain as1 p1 where c: "(if ec = Success \<and> \<not> logs_ended ?p then cancel_logs E (ct_all E) ?p else ([], ?p)) = (as1, p1)" by fastforce
    have keep: "pg_exec p1 = pg_exec p" "pg_filter p1 = pg_filter p" "pg_timer p1 = TimerEnded" "logs_ended p1 = logs_ended p"
      using c cancel_logs_simps [of E "ct_all E" ?p as1 p1] cancel_logs_ended [of E "ct_all E" ?p as1 p1] by (auto split: if_splits)
    obtain as2 where r: "pipes_checked p1 = (as2, p')" using assms(2) PgTimer True c by (auto simp: Let_def split: prod.splits)
    have "ping_ok p' \<and> pg_exec p' = (case pg_exec p1 of
        Suspended (AdvPipes c) \<Rightarrow> if logs_ended p' \<and> pg_timer p' = TimerEnded then Returned c else pg_exec p1 | _ \<Rightarrow> pg_exec p1)"
      by (rule pipes_checked_exec [OF r]) (use ping_okD [OF assms(1)] keep True in auto)
    with keep PgTimer show ?thesis by (auto simp: exec_next_def split: ctl.splits adv_exec_state.splits)
  next
    case False
    then have "p' = p" using assms(2) PgTimer by simp
    with assms(1) PgTimer show ?thesis
      by (auto simp: ping_ok_def exec_next_def split: ctl.splits adv_exec_state.splits)
  qed
qed

section \<open>Runs\<close>

lemma quiet_run_log:
  assumes "steps (ping_step E F react) p es = (as, p')"
    and "\<And>es1 ev es2 as1 p1. es = es1 @ ev # es2 \<Longrightarrow> steps (ping_step E F react) p es1 = (as1, p1) \<Longrightarrow> quiet p1 ev"
  shows "drive (log_body E) (pipe_log i p) (log_evs i es) = (log_acts i as, pipe_log i p')"
  using assms
proof (induction es arbitrary: as p' rule: rev_induct)
  case (snoc ev es)
  obtain as1 p1 where r: "steps (ping_step E F react) p es = (as1, p1)" by fastforce
  obtain as2 where s: "ping_step E F react p1 ev = (as2, p')" "as = as1 @ as2"
    using snoc.prems(1) r by (auto simp: steps_append simp del: ping_step.simps split: prod.splits)
  have "quiet p1 ev" using snoc.prems(2) [of es ev "[]"] r by simp
  then have "drive (log_body E) (pipe_log i p1) (log_evs i [ev]) = (log_acts i as2, pipe_log i p')"
    using ping_step_log [OF s(1), of i] by (auto simp del: log_evs_simps)
  moreover have "drive (log_body E) (pipe_log i p) (log_evs i es) = (log_acts i as1, pipe_log i p1)"
    by (rule snoc.IH [OF r]) (use snoc.prems(2) in force)
  ultimately show ?case using s(2) by (simp add: drive_append)
qed simp

lemma ping_start_ok: "ping_ok (snd (ping_start Success path args))"
    "pg_exec (snd (ping_start Success path args)) = Suspended AdvChild"
    "pipe_log i (snd (ping_start Success path args)) = Suspended []"
  by (cases i; simp add: ping_ok_def ping_start_def adv_exec_start_def log_start_def pipe_log_def)+

lemma before_exit:
  assumes "steps (ping_step E F react) p es = (as, p')" and "ping_ok p \<and> pg_exec p = Suspended AdvChild" and "\<forall>r. PgChild r \<notin> set es"
  shows "ping_ok p' \<and> pg_exec p' = Suspended AdvChild"
proof (rule steps_invariant_on [OF assms(1), where I = "\<lambda>q. ping_ok q \<and> pg_exec q = Suspended AdvChild"])
  show "ping_ok p \<and> pg_exec p = Suspended AdvChild" by (rule assms(2))
  fix st e as st'
  assume i: "ping_ok st \<and> pg_exec st = Suspended AdvChild" and e: "e \<in> set es" and s: "ping_step E F react st e = (as, st')"
  have "\<forall>r. e \<noteq> PgChild r" using e assms(3) by auto
  with i ping_step_exec [OF _ s] show "ping_ok st' \<and> pg_exec st' = Suspended AdvChild"
    by (auto simp: exec_next_def split: ping_event.splits)
qed

lemma after_exit:
  assumes "steps (ping_step E F react) p es = (as, p')"
    and "ping_ok p \<and> pg_exec p \<in> {Suspended (AdvPipes exit_code), Returned exit_code}"
  shows "ping_ok p' \<and> pg_exec p' \<in> {Suspended (AdvPipes exit_code), Returned exit_code}"
proof (rule steps_invariant [OF assms(1), where I = "\<lambda>q. ping_ok q \<and> pg_exec q \<in> {Suspended (AdvPipes exit_code), Returned exit_code}"])
  show "ping_ok p \<and> pg_exec p \<in> {Suspended (AdvPipes exit_code), Returned exit_code}" by (rule assms(2))
  fix st e as st'
  assume i: "ping_ok st \<and> pg_exec st \<in> {Suspended (AdvPipes exit_code), Returned exit_code}" and s: "ping_step E F react st e = (as, st')"
  with ping_step_exec [OF _ s] show "ping_ok st' \<and> pg_exec st' \<in> {Suspended (AdvPipes exit_code), Returned exit_code}"
    by (auto simp: exec_next_def)
qed

lemma exit_step:
  assumes "ping_ok p" and "pg_exec p = Suspended AdvChild" and "ping_step E F react p (PgChild (Inr exit_code)) = (as, p')"
  shows "ping_ok p' \<and> pg_exec p' = Suspended (AdvPipes exit_code)"
  using ping_step_exec [OF assms(1,3)] assms(2) by (simp add: exec_next_def)

section \<open>Properties\<close>

fun escalated :: "signum \<Rightarrow> child_signal option" where
  "escalated SIGTSTP = Some Interrupt"
| "escalated SIGINT = Some RequestExit"
| "escalated SIGTERM = Some Terminate"
| "escalated _ = None"

text \<open>While the child runs nothing disturbs the logs; afterwards only signals and the timer do.\<close>

lemma exit_quiet:
  assumes n: "\<forall>r. PgChild r \<notin> set es1"
    and q: "\<forall>sg. PgSignal Success sg \<notin> set es2" "PgTimer Success \<notin> set es2"
    and e: "es1 @ PgChild (Inr exit_code) # es2 = xs @ ev # ys"
    and s: "steps (ping_step E F react) (snd (ping_start Success path args)) xs = (bs, p)"
  shows "quiet p ev"
proof (cases "length xs \<le> length es1")
  case True
  then have "xs = take (length xs) es1" using arg_cong [OF e, of "take (length xs)"] by simp
  then have "\<forall>r. PgChild r \<notin> set xs" using n set_take_subset by (metis subsetD)
  then have p: "ping_ok p \<and> pg_exec p = Suspended AdvChild" using before_exit [OF s] by (simp add: ping_start_ok)
  then have "pg_timer p = NoTimer" "\<not> in_pipes p" using ping_okD(2) [of p] by (auto simp: in_pipes_def)
  moreover have "\<not> isl r" if "ev = PgChild r" for r
    using e that n True by (auto simp: append_eq_append_conv2 append_eq_Cons_conv)
  ultimately show ?thesis by (cases ev) auto
next
  case False
  then obtain zs where zs: "xs = es1 @ PgChild (Inr exit_code) # zs" "es2 = zs @ ev # ys"
    using e by (auto simp: append_eq_append_conv2 append_eq_Cons_conv Cons_eq_append_conv)
  obtain as1 p1 where r1: "steps (ping_step E F react) (snd (ping_start Success path args)) es1 = (as1, p1)" by fastforce
  obtain as2 p2 where r2: "ping_step E F react p1 (PgChild (Inr exit_code)) = (as2, p2)" by fastforce
  obtain cs where r3: "steps (ping_step E F react) p2 zs = (cs, p)"
    using s zs(1) r1 r2 by (auto simp: steps_append simp del: ping_step.simps split: prod.splits)
  have "ping_ok p1 \<and> pg_exec p1 = Suspended AdvChild" by (rule before_exit [OF r1 _ n]) (simp add: ping_start_ok)
  then have "ping_ok p2 \<and> pg_exec p2 = Suspended (AdvPipes exit_code)" using exit_step r2 by blast
  with after_exit [OF r3] have "pg_exec p \<noteq> Suspended AdvChild" by auto
  moreover have "ev \<in> set es2" using zs(2) by simp
  ultimately show ?thesis using q by (cases ev) auto
qed

text \<open>C7: The output of the child in \<open>ping_signal_advanced.cpp\<close>. Take any run in which the child exits with \<open>exit_code\<close>. Signals before the
  exit never disturb logging. \<open>execute\<close> returns exactly when both pipes have been logged to their end and the timer has
  ended, and then it returns \<open>exit_code\<close>, whatever signals have arrived. If after the exit no
  signal arrives and the timer does not expire, each line of both
  pipes is handled exactly once and in order.\<close>

theorem ping_program_output:
  assumes "steps (ping_step E F react) (snd (ping_start Success path args)) (es1 @ PgChild (Inr exit_code) # es2) = (as, p)"
    and "\<forall>r. PgChild r \<notin> set es1"
  shows "(finished (pg_exec p) \<longleftrightarrow> logs_ended p \<and> pg_timer p = TimerEnded)
    \<and> (finished (pg_exec p) \<longrightarrow> pg_exec p = Returned exit_code)
    \<and> ((\<forall>sg. PgSignal Success sg \<notin> set es2) \<and> PgTimer Success \<notin> set es2 \<longrightarrow>
        (\<forall>i. read_until_ok E [] (log_evs i (es1 @ es2)) \<and> uncancelled E (log_evs i (es1 @ es2)) \<and> finished (pipe_log i p)
           \<longrightarrow> handled (log_acts i as) = text_lines (fills (log_evs i (es1 @ es2)))))"
proof -
  let ?s = "snd (ping_start Success path args)" and ?step = "ping_step E F react"
  let ?es = "es1 @ PgChild (Inr exit_code) # es2"
  obtain as1 p1 where r1: "steps ?step ?s es1 = (as1, p1)" by fastforce
  obtain as2 p2 where r2: "?step p1 (PgChild (Inr exit_code)) = (as2, p2)" by fastforce
  obtain as3 where r3: "steps ?step p2 es2 = (as3, p)"
    using assms(1) r1 r2 by (auto simp: steps_append simp del: ping_step.simps split: prod.splits)
  have p1: "ping_ok p1 \<and> pg_exec p1 = Suspended AdvChild"
    by (rule before_exit [OF r1 _ assms(2)]) (simp add: ping_start_ok)
  then have p2: "ping_ok p2 \<and> pg_exec p2 = Suspended (AdvPipes exit_code)" using exit_step r2 by blast
  have p: "ping_ok p \<and> pg_exec p \<in> {Suspended (AdvPipes exit_code), Returned exit_code}"
    by (rule after_exit [OF r3]) (use p2 in simp)
  have lines: "handled (log_acts i as) = text_lines (fills (log_evs i (es1 @ es2)))"
    if q: "\<forall>sg. PgSignal Success sg \<notin> set es2" "PgTimer Success \<notin> set es2"
      and ok: "read_until_ok E [] (log_evs i (es1 @ es2))" "uncancelled E (log_evs i (es1 @ es2))" "finished (pipe_log i p)" for i
  proof -
    have "drive (log_body E) (pipe_log i ?s) (log_evs i ?es) = (log_acts i as, pipe_log i p)"
      by (rule quiet_run_log [OF assms(1)]) (rule exit_quiet [OF assms(2) q])
    then have "drive (log_body E) (Suspended []) (log_evs i (es1 @ es2)) = (log_acts i as, pipe_log i p)"
      by (simp add: ping_start_ok)
    from log_run [OF ok(1,2) this] ok(3) show ?thesis by simp
  qed
  have "finished (pg_exec p) \<longleftrightarrow> logs_ended p \<and> pg_timer p = TimerEnded" "finished (pg_exec p) \<longrightarrow> pg_exec p = Returned exit_code"
    using p by (auto simp: ping_ok_def)
  with lines show ?thesis by blast
qed

definition child_react :: react where
  "child_react ty = (if ty = ct_total asio_enum then Some Interrupt else if ty = ct_partial asio_enum then Some RequestExit
     else if ty = ct_terminal asio_enum then Some Terminate else None)"

lemma child_react_ok: "react_ok asio_enum child_react"
  by (simp add: react_ok_def child_react_def asio_enum_def)

theorem ping_program_output_witness:
  "\<exists>as p. steps (ping_step asio_enum asio_filters child_react) (snd (ping_start Success ''ping'' []))
      [PgSignal Success SIGINT, PgLog Out (Fill ''ab''), PgChild (Inr 7), PgLog Out (ReadUntilDone Eof 0 0)] = (as, p)
    \<and> handled (log_acts Out as) = [''ab''] \<and> \<not> finished (pg_exec p)"
proof -
  let ?es1 = "[PgSignal Success SIGINT, PgLog Out (Fill ''ab'')]" and ?es2 = "[PgLog Out (ReadUntilDone Eof 0 0)]"
  obtain as p where r: "steps (ping_step asio_enum asio_filters child_react) (snd (ping_start Success ''ping'' []))
      (?es1 @ PgChild (Inr 7) # ?es2) = (as, p)" by fastforce
  have n: "\<forall>r. PgChild r \<notin> set ?es1" by simp
  have "read_until_ok asio_enum [] (log_evs Out (?es1 @ ?es2))" "uncancelled asio_enum (log_evs Out (?es1 @ ?es2))"
    by (simp_all add: uncancelled_def isCancelled_def asio_enum_def)
  moreover have "finished (pipe_log Out p)" "\<not> logs_ended p"
    using r by (auto simp: ping_start_def adv_exec_start_def log_start_def ping_signal_handling_def signal_handling_def signal_type_def
        emit_exec_def exec_filtered_def asio_filters_def asio_enum_def child_react_def child_turn_def exec_resume_def
        promise_checked_def in_pipes_def logs_ended_def log_turn_def pipe_log_def set_log_def pipes_checked_def
        isCancelled_def log_after_loop_def views_split_def Let_def split: if_splits)
  ultimately show ?thesis using ping_program_output [OF r n] r by auto
qed

lemma log_filter_terminal: "cancel_enum_ok E \<Longrightarrow> log_filter E (ct_terminal E) = ct_terminal E"
  by (simp add: log_filter_def cancel_enum_ok_def bit.conj_disj_distrib)

lemma cancel_logs_terminal:
  assumes "cancel_enum_ok E" and "cancel_logs E (ct_terminal E) p = (as, p')"
  shows "log_acts i as = (case pipe_log i p of Suspended buf \<Rightarrow> log_on_cancel buf (ct_terminal E) | _ \<Rightarrow> [])"
    and "PgSend s \<notin> set as"
proof -
  have "ct_terminal E \<noteq> ct_none E" using assms(1) by (simp add: cancel_enum_ok_def)
  then show "log_acts i as = (case pipe_log i p of Suspended buf \<Rightarrow> log_on_cancel buf (ct_terminal E) | _ \<Rightarrow> [])"
    and "PgSend s \<notin> set as"
    using assms(2)
    by (cases i; auto simp: cancel_logs_def cancel_log_def log_filter_terminal [OF assms(1)] log_turn_def
        pipe_log_def set_log_def log_acts_def o_def concat_map_singleton split: ctl.splits prod.splits)+
qed

text \<open>C16: Escalation of signals, as the comment in \<open>ping_signal_advanced.cpp\<close> says: in any reachable state in which the signal handler waits,
  SIGTSTP, SIGINT and SIGTERM interrupt the running child, ask it to exit, and terminate it, and
  nothing else changes. After the child has exited each of them, also SIGTSTP, stops logging at once: both logs flush
  what they have buffered, the timer is cancelled, and no signal is sent to a child.\<close>

theorem ping_signal_escalates:
  assumes "cancel_enum_ok E" and "filter_ok E F" and "react_ok E react"
    and "steps (ping_step E F react) (snd (ping_start Success path args)) es = (as, p)"
    and "pg_handler p = Suspended ()" and "escalated sg = Some s"
    and "ping_step E F react p (PgSignal Success sg) = (as', p')"
  shows "(pg_exec p = Suspended AdvChild \<longrightarrow> as' = [PgSend s, PgHandler (WaitSignal signal_set_advanced)] \<and> p' = p)
    \<and> (in_pipes p \<longrightarrow>
        (\<forall>i. log_acts i as' = (case pipe_log i p of Suspended buf \<Rightarrow> log_on_cancel buf (ct_terminal E) | _ \<Rightarrow> []))
        \<and> (PgCancelTimer (ct_terminal E) \<in> set as' \<longleftrightarrow> pg_timer p = TimerRuns) \<and> (\<forall>s. PgSend s \<notin> set as'))"
proof -
  have ok: "ping_ok p"
    by (rule steps_invariant [OF assms(4), where I = ping_ok]) (simp add: ping_start_ok, use ping_step_exec in blast)
  obtain ty where sig: "signal_type E sg = Some ty" "react ty = Some s" "ty \<noteq> ct_none E"
    using assms(1,3,6) by (cases sg) (auto simp: signal_type_def react_ok_def cancel_enum_ok_def)
  note ty = sig(1) filter_okD(3) [OF assms(2) sig(1)] sig(2,3)
  have h: "drive (ping_signal_handling E) (pg_handler p) [(Success, sg)] = ([Emit ty, WaitSignal signal_set_advanced], Suspended ())"
    using ty(1) assms(5) by (simp add: ping_signal_handling_def signal_handling_def)
  have same: "p\<lparr>pg_handler := Suspended ()\<rparr> = p" using assms(5) by simp
  obtain bs q where e: "emit_exec E F react ty p = (bs, q)" by fastforce
  have as': "as' = bs @ [PgHandler (WaitSignal signal_set_advanced)]" "p' = q"
    using assms(7) e unfolding ping_step.simps h by (simp_all add: same)
  show ?thesis
  proof (intro conjI impI)
    assume "pg_exec p = Suspended AdvChild"
    then show "as' = [PgSend s, PgHandler (WaitSignal signal_set_advanced)]" "p' = p"
      using e as' ty ping_okD(2) [OF ok] by (simp_all add: emit_exec_def exec_filtered_def)
  next
    assume i: "in_pipes p"
    then have f: "pg_filter p = AlwaysTerminal" "pg_exec p \<noteq> Suspended AdvChild"
      using ping_okD(1) [OF ok] by (auto simp: in_pipes_def)
    have t: "ct_terminal E \<noteq> ct_none E" using assms(1) by (simp add: cancel_enum_ok_def)
    obtain cs where c: "cancel_logs E (ct_terminal E) p = (cs, q)" "bs = cs @ (if pg_timer p = TimerRuns then [PgCancelTimer (ct_terminal E)] else [])"
      using e i f t by (auto simp: emit_exec_def exec_filtered_def Let_def split: prod.splits)
    note l = cancel_logs_terminal [OF assms(1) c(1)]
    show "\<forall>i. log_acts i as' = (case pipe_log i p of Suspended buf \<Rightarrow> log_on_cancel buf (ct_terminal E) | _ \<Rightarrow> [])"
      using l(1) as' c(2) by simp
    show "\<forall>s. PgSend s \<notin> set as'" using l(2) as' c(2) by simp
    have "PgCancelTimer x \<notin> set cs" for x
      using c(1) by (auto simp: cancel_logs_def cancel_log_def log_turn_def split: if_splits prod.splits)
    then show "PgCancelTimer (ct_terminal E) \<in> set as' \<longleftrightarrow> pg_timer p = TimerRuns" using as' c(2) by auto
  qed
qed

theorem ping_signal_escalates_witness:
  "fst (ping_step asio_enum asio_filters child_react (snd (ping_start Success ''ping'' [])) (PgSignal Success SIGINT))
   = [PgSend RequestExit, PgHandler (WaitSignal signal_set_advanced)]"
proof -
  let ?p = "snd (ping_start Success ''ping'' [])"
  have r: "steps (ping_step asio_enum asio_filters child_react) ?p [] = ([], ?p)"
    and h: "pg_handler ?p = Suspended ()" "escalated SIGINT = Some RequestExit" "pg_exec ?p = Suspended AdvChild"
    by (simp_all add: ping_start_def adv_exec_start_def)
  obtain as' p' where s: "ping_step asio_enum asio_filters child_react ?p (PgSignal Success SIGINT) = (as', p')" by fastforce
  from ping_signal_escalates [OF asio_enum_ok asio_filters_ok child_react_ok r h(1,2) s] h(3) s show ?thesis by simp
qed

end
