(* ===== verification/Echo_Threads.thy ===== *)
theory Echo_Threads
  imports Echo_Sessions
begin

text \<open>
  \<open>echo/echo_async_threaded.cpp\<close>: the callback server of \<open>echo_async.cpp\<close>, whose \<open>io_context\<close> is run by
  \<open>hardware_concurrency()\<close> threads and by \<open>main\<close>, without a strand. Any idle thread may run any handler
  whose operation has completed, also while the handler that started this operation is still
  returning on another thread. The model is a step relation: a thread enters a handler, runs its
  body, and releases what the handler owns, in steps that interleave with those of all other threads.

  The ghost component \<open>trace\<close> records, for every session object, the completions its handlers were run
  with and the operations they started, in the order of the steps.
\<close>

section \<open>State\<close>

type_synonym session_id = nat

text \<open>A session object: its reference count, and the operation that is outstanding on its socket and
  buffer, with the handler that waits for it.\<close>

record shared_session =
  owners :: nat
  outstanding :: "echo_state option"

text \<open>What a thread does inside \<open>context.run()\<close>: it waits; it is about to run the accept handler; it
  is about to destroy the temporary \<open>shared_ptr\<close> of \<open>make_shared<session>(...)->start()\<close>; it is about to
  call \<open>do_accept\<close> again; it is about to run the body of a handler of a session; it is about to destroy
  the handler and with it its \<open>self\<close>.\<close>

datatype thread_state =
    Idle
  | EnterAccept error_code
  | DropTemporary session_id
  | AcceptAgain
  | EnterHandler session_id echo_state stream_event
  | LeaveHandler session_id

record threaded_server =
  pool :: "thread_state list"
  accept_pending :: bool
  heap :: "session_id \<Rightarrow> shared_session option"
  next_object :: session_id
  trace :: "session_id \<Rightarrow> stream_event list \<times> stream_op list"

section \<open>Operations\<close>

text \<open>\<open>session::do_read\<close> and \<open>session::do_write\<close>: start the operation; the handler gets a copy of
  \<open>shared_from_this()\<close>.\<close>

definition mt_do_read :: "shared_session \<Rightarrow> stream_op list \<times> shared_session" where
  "mt_do_read s = ([AsyncReadSome Peer echo_buffer], s\<lparr>owners := owners s + 1, outstanding := Some AtRead\<rparr>)"

definition mt_do_write :: "byte list \<Rightarrow> shared_session \<Rightarrow> stream_op list \<times> shared_session" where
  "mt_do_write bs s = ([AsyncWrite Peer bs], s\<lparr>owners := owners s + 1, outstanding := Some AtWrite\<rparr>)"

text \<open>The bodies of the two handlers.\<close>

fun mt_handler :: "echo_state \<Rightarrow> stream_event \<Rightarrow> shared_session \<Rightarrow> stream_op list \<times> shared_session" where
  "mt_handler AtRead (ReadDone ec bs) s = (if ec = Success then mt_do_write bs s else ([], s))"
| "mt_handler AtWrite (WriteDone ec n) s = (if ec = Success then mt_do_read s else ([], s))"
| "mt_handler h e s = ([], s)"

text \<open>The destructor of a \<open>shared_ptr<session>\<close>: the last owner destroys the object.\<close>

definition mt_release :: "shared_session \<Rightarrow> shared_session option" where
  "mt_release s = (if owners s \<le> 1 then None else Some (s\<lparr>owners := owners s - 1\<rparr>))"

text \<open>\<open>std::make_shared<session>(std::move(socket))->start()\<close>, up to the end of the full expression.\<close>

definition mt_make_session :: "stream_op list \<times> shared_session" where
  "mt_make_session = mt_do_read \<lparr>owners = 1, outstanding = None\<rparr>"

text \<open>A completion belongs to the handler of the operation it completes.\<close>

fun fits :: "echo_state \<Rightarrow> stream_event \<Rightarrow> bool" where
  "fits AtRead (ReadDone ec bs) = True"
| "fits AtWrite (WriteDone ec n) = True"
| "fits h e = False"

section \<open>Steps of the threads\<close>

text \<open>Each constructor is one atomic step of one thread \<open>t\<close>. \<open>None\<close>: the step is not possible in this state;
  for the steps inside a handler this includes the use of a destroyed object.\<close>

datatype mt_step =
    RunAccept nat error_code
  | AcceptBody nat
  | TemporaryGone nat
  | AcceptNext nat
  | RunHandler nat session_id stream_event
  | HandlerBody nat
  | HandlerGone nat

definition on_thread :: "threaded_server \<Rightarrow> nat \<Rightarrow> thread_state" where
  "on_thread st t = (if t < length (pool st) then pool st ! t else Idle)"

fun mt_exec :: "mt_step \<Rightarrow> threaded_server \<Rightarrow> threaded_server option" where
  "mt_exec (RunAccept t ec) st =
     (if t < length (pool st) \<and> on_thread st t = Idle \<and> accept_pending st
      then Some (st\<lparr>pool := (pool st)[t := EnterAccept ec], accept_pending := False\<rparr>) else None)"
| "mt_exec (AcceptBody t) st =
     (case on_thread st t of
        EnterAccept ec \<Rightarrow>
          if ec = Success
          then Some (st\<lparr>pool := (pool st)[t := DropTemporary (next_object st)],
                        heap := (heap st)(next_object st \<mapsto> snd mt_make_session),
                        next_object := next_object st + 1\<rparr>)
          else Some (st\<lparr>pool := (pool st)[t := AcceptAgain]\<rparr>)
      | _ \<Rightarrow> None)"
| "mt_exec (TemporaryGone t) st =
     (case on_thread st t of
        DropTemporary k \<Rightarrow>
          (case heap st k of
             Some s \<Rightarrow> Some (st\<lparr>pool := (pool st)[t := AcceptAgain], heap := (heap st)(k := mt_release s)\<rparr>)
           | None \<Rightarrow> None)
      | _ \<Rightarrow> None)"
| "mt_exec (AcceptNext t) st =
     (if on_thread st t = AcceptAgain
      then Some (st\<lparr>pool := (pool st)[t := Idle], accept_pending := True\<rparr>) else None)"
| "mt_exec (RunHandler t k e) st =
     (if t < length (pool st) \<and> on_thread st t = Idle
      then (case heap st k of
              Some s \<Rightarrow>
                (case outstanding s of
                   Some h \<Rightarrow>
                     if fits h e
                     then Some (st\<lparr>pool := (pool st)[t := EnterHandler k h e],
                                   heap := (heap st)(k \<mapsto> s\<lparr>outstanding := None\<rparr>)\<rparr>)
                     else None
                 | None \<Rightarrow> None)
            | None \<Rightarrow> None)
      else None)"
| "mt_exec (HandlerBody t) st =
     (case on_thread st t of
        EnterHandler k h e \<Rightarrow>
          (case heap st k of
             Some s \<Rightarrow>
               (case mt_handler h e s of
                  (ops, s') \<Rightarrow>
                    Some (st\<lparr>pool := (pool st)[t := LeaveHandler k], heap := (heap st)(k \<mapsto> s'),
                             trace := (trace st)(k := (fst (trace st k) @ [e], snd (trace st k) @ ops))\<rparr>))
           | None \<Rightarrow> None)
      | _ \<Rightarrow> None)"
| "mt_exec (HandlerGone t) st =
     (case on_thread st t of
        LeaveHandler k \<Rightarrow>
          (case heap st k of
             Some s \<Rightarrow> Some (st\<lparr>pool := (pool st)[t := Idle], heap := (heap st)(k := mt_release s)\<rparr>)
           | None \<Rightarrow> None)
      | _ \<Rightarrow> None)"

text \<open>\<open>main\<close>: the server is constructed, which starts the first accept; then \<open>hardware_concurrency()\<close>
  threads and \<open>main\<close> itself run the context.\<close>

definition mt_main :: "nat \<Rightarrow> threaded_server" where
  "mt_main hardware_concurrency =
     \<lparr>pool = replicate (hardware_concurrency + 1) Idle, accept_pending = True, heap = Map.empty,
      next_object = 0, trace = (\<lambda>_. ([], []))\<rparr>"

inductive reachable :: "nat \<Rightarrow> threaded_server \<Rightarrow> bool" for hc where
  start: "reachable hc (mt_main hc)"
| step: "reachable hc st \<Longrightarrow> mt_exec a st = Some st' \<Longrightarrow> reachable hc st'"

section \<open>Invariant\<close>

text \<open>Which threads own a reference to an object, which run the body of one of its handlers, and which
  take part in accepting.\<close>

fun uses :: "session_id \<Rightarrow> thread_state \<Rightarrow> bool" where
  "uses k (DropTemporary j) \<longleftrightarrow> j = k"
| "uses k (EnterHandler j h e) \<longleftrightarrow> j = k"
| "uses k (LeaveHandler j) \<longleftrightarrow> j = k"
| "uses k _ \<longleftrightarrow> False"

fun in_body :: "session_id \<Rightarrow> thread_state \<Rightarrow> bool" where
  "in_body k (EnterHandler j h e) \<longleftrightarrow> j = k"
| "in_body k _ \<longleftrightarrow> False"

fun accepting :: "thread_state \<Rightarrow> bool" where
  "accepting (EnterAccept ec) \<longleftrightarrow> True"
| "accepting (DropTemporary k) \<longleftrightarrow> True"
| "accepting AcceptAgain \<longleftrightarrow> True"
| "accepting _ \<longleftrightarrow> False"

definition num :: "(thread_state \<Rightarrow> bool) \<Rightarrow> thread_state list \<Rightarrow> nat" where
  "num P ts = length (filter P ts)"

definition is_out :: "shared_session \<Rightarrow> nat" where
  "is_out s = (if outstanding s = None then 0 else 1)"

text \<open>Every reference is counted, no object is without owner, and an object is in use by one handler
  body or by one operation at a time.\<close>

fun object_ok :: "thread_state list \<Rightarrow> session_id \<Rightarrow> shared_session option \<Rightarrow> bool" where
  "object_ok ts k None \<longleftrightarrow> num (uses k) ts = 0"
| "object_ok ts k (Some s) \<longleftrightarrow>
     0 < owners s \<and> owners s = num (uses k) ts + is_out s \<and> num (in_body k) ts + is_out s \<le> 1"

definition counted :: "threaded_server \<Rightarrow> bool" where
  "counted st \<longleftrightarrow>
     (\<forall>k. object_ok (pool st) k (heap st k)) \<and> (\<forall>k \<ge> next_object st. heap st k = None)
     \<and> num accepting (pool st) + of_bool (accept_pending st) = 1"

text \<open>The trace of every object is a run of the coroutine session, which waits where the object waits.\<close>

definition session_ok ::
  "thread_state list \<Rightarrow> session_id \<Rightarrow> session_id \<Rightarrow> shared_session option \<Rightarrow> stream_event list \<times> stream_op list \<Rightarrow> bool" where
  "session_ok ts n k x tr \<longleftrightarrow>
     (case drive tuple_session (Suspended AtRead) (fst tr) of
        (ops, c) \<Rightarrow> ops = snd tr \<and> (n \<le> k \<longrightarrow> tr = ([], []))
          \<and> (\<forall>s h. x = Some s \<longrightarrow> outstanding s = Some h \<longrightarrow> c = Suspended h)
          \<and> (\<forall>h e. EnterHandler k h e \<in> set ts \<longrightarrow> c = Suspended h \<and> fits h e)
          \<and> (k < n \<longrightarrow> num (in_body k) ts = 0 \<longrightarrow> (\<forall>s. x = Some s \<longrightarrow> outstanding s = None) \<longrightarrow> c = Returned ()))"

definition traced :: "threaded_server \<Rightarrow> bool" where
  "traced st \<longleftrightarrow> (\<forall>k. session_ok (pool st) (next_object st) k (heap st k) (trace st k))"

lemma on_thread_busy: "on_thread st t \<noteq> Idle \<Longrightarrow> t < length (pool st) \<and> pool st ! t = on_thread st t"
  by (auto simp: on_thread_def split: if_splits)

lemma num_update:
  assumes "t < length ts"
  shows "num P (ts[t := x]) + of_bool (P (ts ! t)) = num P ts + of_bool (P x)"
  using length_filter_update [OF assms, of P x] by (simp add: num_def)

lemma num_update_eq:
  "t < length ts \<Longrightarrow> P (ts ! t) = P x \<Longrightarrow> num P (ts[t := x]) = num P ts"
  "t < length ts \<Longrightarrow> P (ts ! t) \<Longrightarrow> \<not> P x \<Longrightarrow> num P (ts[t := x]) = num P ts - 1"
  "t < length ts \<Longrightarrow> \<not> P (ts ! t) \<Longrightarrow> P x \<Longrightarrow> num P (ts[t := x]) = Suc (num P ts)"
  using num_update [of t ts P x] by (auto simp: of_bool_def)

lemma num_pos: "t < length ts \<Longrightarrow> P (ts ! t) \<Longrightarrow> 0 < num P ts"
  by (auto simp: num_def filter_empty_conv)

lemma in_body_uses: "num (in_body k) ts \<le> num (uses k) ts"
proof -
  have "in_body k x \<Longrightarrow> uses k x" for x by (cases x) auto
  then have "filter (in_body k) ts = filter (in_body k) (filter (uses k) ts)" by (auto intro: filter_cong)
  then show ?thesis unfolding num_def by (metis length_filter_le)
qed

lemmas mt_defs = mt_do_read_def mt_do_write_def mt_make_session_def mt_release_def is_out_def

lemma counted_main: "counted (mt_main hc)"
  by (simp add: counted_def mt_main_def num_def)

lemma body_uses: "in_body j y \<Longrightarrow> uses j y"
  by (cases y) auto

lemma object_ok_other:
  assumes "object_ok ts k x" and "t < length ts" and "\<not> uses k (ts ! t)" and "\<not> uses k y"
  shows "object_ok (ts[t := y]) k x"
proof -
  have "num (uses k) (ts[t := y]) = num (uses k) ts" "num (in_body k) (ts[t := y]) = num (in_body k) ts"
    using assms(2-) body_uses [of k y] body_uses [of k "ts ! t"] by (auto intro!: num_update_eq(1))
  with assms(1) show ?thesis by (cases x) auto
qed

lemma counted_object: "counted st \<Longrightarrow> heap st k = x \<Longrightarrow> object_ok (pool st) k x"
  by (auto simp: counted_def)

lemma counted_bound: "counted st \<Longrightarrow> k < next_object st \<or> heap st k = None"
  by (cases "k < next_object st") (auto simp: counted_def)

text \<open>A step of thread \<open>t\<close> that replaces the entry of object \<open>k\<close> at most keeps the count of all objects
  if it keeps that of \<open>k\<close>, provided the thread uses no object but \<open>k\<close> before and after.\<close>

lemma counted_update:
  assumes "counted st" and "t < length (pool st)"
    and "\<And>j. j \<noteq> k \<Longrightarrow> \<not> uses j (pool st ! t) \<and> \<not> uses j x"
    and "object_ok ((pool st)[t := x]) k hk"
    and "pool st' = (pool st)[t := x]" and "heap st' = (heap st)(k := hk)"
    and "next_object st \<le> next_object st'" and "k < next_object st' \<or> hk = None"
    and "of_bool (accepting x) + of_bool (accept_pending st')
           = (of_bool (accepting (pool st ! t)) + of_bool (accept_pending st) :: nat)"
  shows "counted st'"
proof -
  have "object_ok ((pool st)[t := x]) j (heap st j)" if "j \<noteq> k" for j
    using assms(3) [OF that] by (intro object_ok_other [OF counted_object [OF assms(1) refl] assms(2)]) auto
  moreover have "num accepting ((pool st)[t := x]) + of_bool (accept_pending st') = 1"
    using assms(1) assms(9) num_update [OF assms(2), of accepting x] by (simp add: counted_def)
  ultimately show ?thesis using assms by (auto simp: counted_def)
qed

text \<open>Steps of a thread that uses no object.\<close>

lemma counted_thread:
  assumes "counted st" and "t < length (pool st)" and "\<And>j. \<not> uses j (pool st ! t) \<and> \<not> uses j x"
    and "of_bool (accepting x) + of_bool b = (of_bool (accepting (pool st ! t)) + of_bool (accept_pending st) :: nat)"
  shows "counted (st\<lparr>pool := (pool st)[t := x], accept_pending := b\<rparr>)"
  using assms(2-4) counted_bound [OF assms(1), of 0]
    object_ok_other [OF counted_object [OF assms(1) refl, of 0], of t x]
  by (intro counted_update [OF assms(1), of t 0 _ "heap st 0"]) auto

lemma counted_step:
  assumes "counted st" and "mt_exec a st = Some st'"
  shows "counted st'"
proof (cases a)
  case (RunAccept t ec)
  then show ?thesis using assms(2) counted_thread [OF assms(1), of t "EnterAccept ec" False]
    by (auto simp: on_thread_def split: if_splits)
next
  case (AcceptBody t)
  then obtain ec where t: "on_thread st t = EnterAccept ec" using assms(2) by (auto split: thread_state.splits)
  with on_thread_busy [of st t] have b: "t < length (pool st)" "pool st ! t = EnterAccept ec" by auto
  show ?thesis
  proof (cases "ec = Success")
    case True
    have fresh: "heap st (next_object st) = None" using assms(1) by (simp add: counted_def)
    note ok = counted_object [OF assms(1) this] in_body_uses [of "next_object st" "pool st"]
    from True AcceptBody t assms(2) b ok fresh show ?thesis
      by (intro counted_update [OF assms(1), of t "next_object st" _ "Some (snd mt_make_session)"])
         (auto simp: num_update_eq mt_defs)
  next
    case False
    with AcceptBody t assms(2) b show ?thesis
      using counted_thread [OF assms(1), of t AcceptAgain "accept_pending st"] by auto
  qed
next
  case (TemporaryGone t)
  then obtain k s where t: "on_thread st t = DropTemporary k" and s: "heap st k = Some s"
    "st' = st\<lparr>pool := (pool st)[t := AcceptAgain], heap := (heap st)(k := mt_release s)\<rparr>"
    using assms(2) by (auto split: thread_state.splits option.splits)
  with on_thread_busy [of st t] have b: "t < length (pool st)" "pool st ! t = DropTemporary k" by auto
  then have "0 < num (uses k) (pool st)" by (auto intro: num_pos)
  then show ?thesis using b s counted_object [OF assms(1) s(1)] counted_bound [OF assms(1), of k]
      in_body_uses [of k "pool st"]
    by (intro counted_update [OF assms(1), of t k _ "mt_release s"]) (auto simp: num_update_eq mt_defs)
next
  case (AcceptNext t)
  then have t: "on_thread st t = AcceptAgain" "st' = st\<lparr>pool := (pool st)[t := Idle], accept_pending := True\<rparr>"
    using assms(2) by (auto split: if_splits)
  with on_thread_busy [of st t] have b: "t < length (pool st)" "pool st ! t = AcceptAgain" by auto
  then have "0 < num accepting (pool st)" by (auto intro: num_pos)
  then have "\<not> accept_pending st" using assms(1) by (auto simp: counted_def)
  with counted_thread [OF assms(1), of t Idle True] b t(2) show ?thesis by auto
next
  case (RunHandler t k e)
  then obtain s h where s: "t < length (pool st)" "pool st ! t = Idle" "heap st k = Some s" "outstanding s = Some h"
    "st' = st\<lparr>pool := (pool st)[t := EnterHandler k h e], heap := (heap st)(k \<mapsto> s\<lparr>outstanding := None\<rparr>)\<rparr>"
    using assms(2) by (auto simp: on_thread_def split: if_splits option.splits)
  then show ?thesis using counted_object [OF assms(1) s(3)] counted_bound [OF assms(1), of k]
    by (intro counted_update [OF assms(1), of t k _ "Some (s\<lparr>outstanding := None\<rparr>)"])
       (auto simp: num_update_eq mt_defs)
next
  case (HandlerBody t)
  then obtain k h e s ops s' where t: "on_thread st t = EnterHandler k h e" and s: "heap st k = Some s"
    "mt_handler h e s = (ops, s')"
    "st' = st\<lparr>pool := (pool st)[t := LeaveHandler k], heap := (heap st)(k \<mapsto> s'),
              trace := (trace st)(k := (fst (trace st k) @ [e], snd (trace st k) @ ops))\<rparr>"
    using assms(2) by (auto split: thread_state.splits option.splits prod.splits)
  with on_thread_busy [of st t] have b: "t < length (pool st)" "pool st ! t = EnterHandler k h e" by auto
  then have "0 < num (in_body k) (pool st)" by (auto intro: num_pos)
  then show ?thesis using b s counted_object [OF assms(1) s(1)] counted_bound [OF assms(1), of k]
    by (intro counted_update [OF assms(1), of t k _ "Some s'"])
       (auto simp: num_update_eq mt_defs elim!: mt_handler.elims split: if_splits)
next
  case (HandlerGone t)
  then obtain k s where t: "on_thread st t = LeaveHandler k" and s: "heap st k = Some s"
    "st' = st\<lparr>pool := (pool st)[t := Idle], heap := (heap st)(k := mt_release s)\<rparr>"
    using assms(2) by (auto split: thread_state.splits option.splits)
  with on_thread_busy [of st t] have b: "t < length (pool st)" "pool st ! t = LeaveHandler k" by auto
  then have "0 < num (uses k) (pool st)" by (auto intro: num_pos)
  then show ?thesis using b s counted_object [OF assms(1) s(1)] counted_bound [OF assms(1), of k]
      in_body_uses [of k "pool st"]
    by (intro counted_update [OF assms(1), of t k _ "mt_release s"]) (auto simp: num_update_eq mt_defs)
qed

lemma traced_main: "traced (mt_main hc)"
  by (simp add: traced_def session_ok_def mt_main_def)

lemma session_ok_other:
  assumes "session_ok ts n k x tr" and "t < length ts" and "\<not> in_body k (ts ! t)" and "\<not> in_body k y"
  shows "session_ok (ts[t := y]) n k x tr"
proof -
  have "EnterHandler k h e \<in> set ts" if "EnterHandler k h e \<in> set (ts[t := y])" for h e
    using that assms(4) set_update_subset_insert [of ts t y] by fastforce
  moreover have "num (in_body k) (ts[t := y]) = num (in_body k) ts"
    using assms(2-) by (intro num_update_eq(1)) auto
  ultimately show ?thesis using assms(1) by (fastforce simp: session_ok_def)
qed

text \<open>What an object waits for is not changed by giving up one of several references.\<close>

lemma session_ok_release:
  assumes "session_ok ts n k (Some s) tr" and "owners s \<le> 1 \<Longrightarrow> outstanding s = None"
  shows "session_ok ts n k (mt_release s) tr"
  using assms by (auto simp: session_ok_def mt_release_def)

lemma traced_update:
  assumes "traced st" and "t < length (pool st)"
    and "\<And>j. j \<noteq> k \<Longrightarrow> \<not> in_body j (pool st ! t) \<and> \<not> in_body j x"
    and "session_ok ((pool st)[t := x]) (next_object st') k hk tr"
    and "pool st' = (pool st)[t := x]" and "heap st' = (heap st)(k := hk)" and "trace st' = (trace st)(k := tr)"
    and "next_object st' = next_object st \<or> next_object st' = next_object st + 1 \<and> k = next_object st"
  shows "traced st'"
proof -
  have "session_ok ((pool st)[t := x]) (next_object st) j (heap st j) (trace st j)" if "j \<noteq> k" for j
    using assms(1,2) assms(3) [OF that] by (auto simp: traced_def intro: session_ok_other)
  moreover have "session_ok ts (next_object st) j y tr' \<Longrightarrow> session_ok ts (next_object st') j y tr'"
    if "j \<noteq> k" for j ts y tr'
    using assms(8) that by (auto simp: session_ok_def split: prod.splits)
  ultimately show ?thesis using assms(4-7) by (auto simp: traced_def)
qed

lemma handler_refines:
  assumes "fits h e" and "mt_handler h e s = (ops, s')" and "outstanding s = None"
  shows "tuple_session h e = (ops, case outstanding s' of None \<Rightarrow> Returned () | Some h' \<Rightarrow> Suspended h')"
  using assms by (cases h; cases e) (auto simp: mt_defs)

lemma traced_object: "traced st \<Longrightarrow> heap st k = x \<Longrightarrow> session_ok (pool st) (next_object st) k x (trace st k)"
  by (auto simp: traced_def)

text \<open>Steps of a thread that is not in a handler body before or after and changes no object.\<close>

lemma traced_thread:
  assumes "traced st" and "t < length (pool st)" and "\<And>j. \<not> in_body j (pool st ! t) \<and> \<not> in_body j x"
  shows "traced (st\<lparr>pool := (pool st)[t := x], accept_pending := b\<rparr>)"
  using assms(2,3) session_ok_other [OF traced_object [OF assms(1) refl, of 0], of t x]
  by (intro traced_update [OF assms(1), of t 0 _ _ "heap st 0" "trace st 0"]) auto

lemma traced_release:
  assumes "traced st" and "counted st" and "t < length (pool st)" and "heap st k = Some s"
    and "uses k (pool st ! t)" and "\<And>j. \<not> in_body j (pool st ! t) \<and> \<not> in_body j x"
  shows "traced (st\<lparr>pool := (pool st)[t := x], heap := (heap st)(k := mt_release s)\<rparr>)"
proof -
  have "0 < num (uses k) (pool st)" using assms(3,5) by (rule num_pos)
  then have "owners s \<le> 1 \<Longrightarrow> outstanding s = None"
    using counted_object [OF assms(2,4)] by (auto simp: is_out_def split: if_splits)
  then have "session_ok ((pool st)[t := x]) (next_object st) k (mt_release s) (trace st k)"
    using session_ok_other [OF traced_object [OF assms(1,4)] assms(3), of x] assms(6)
    by (intro session_ok_release) auto
  then show ?thesis using assms(3,6)
    by (intro traced_update [OF assms(1), of t k _ _ "mt_release s" "trace st k"]) auto
qed

lemma traced_make:
  assumes "traced st" and "counted st" and "t < length (pool st)" and "pool st ! t = EnterAccept Success"
  shows "traced (st\<lparr>pool := (pool st)[t := DropTemporary (next_object st)],
                    heap := (heap st)(next_object st \<mapsto> snd mt_make_session), next_object := next_object st + 1\<rparr>)"
proof -
  let ?k = "next_object st"
  have fresh: "heap st ?k = None" using assms(2) by (simp add: counted_def)
  have none: "num (in_body ?k) ((pool st)[t := DropTemporary ?k]) = 0"
    using counted_object [OF assms(2) fresh] in_body_uses [of ?k "pool st"] assms(3,4)
    by (simp add: num_update_eq)
  then have "EnterHandler ?k h e \<notin> set ((pool st)[t := DropTemporary ?k])" for h e
    by (auto simp: num_def filter_empty_conv)
  moreover have "trace st ?k = ([], [])"
    using traced_object [OF assms(1) fresh] by (auto simp: session_ok_def split: prod.splits)
  ultimately have "session_ok ((pool st)[t := DropTemporary ?k]) (?k + 1) ?k (Some (snd mt_make_session)) (trace st ?k)"
    by (auto simp: session_ok_def mt_defs)
  then show ?thesis using assms(3,4)
    by (intro traced_update [OF assms(1), of t ?k _ _ "Some (snd mt_make_session)" "trace st ?k"]) auto
qed

lemma traced_enter:
  assumes "traced st" and "counted st" and "t < length (pool st)" and "pool st ! t = Idle"
    and "heap st k = Some s" and "outstanding s = Some h" and "fits h e"
  shows "traced (st\<lparr>pool := (pool st)[t := EnterHandler k h e], heap := (heap st)(k \<mapsto> s\<lparr>outstanding := None\<rparr>)\<rparr>)"
proof -
  let ?ts = "(pool st)[t := EnterHandler k h e]"
  note ok = traced_object [OF assms(1,5)]
  have out: "num (in_body k) (pool st) = 0"
    using counted_object [OF assms(2,5)] assms(6) by (simp add: is_out_def)
  then have "EnterHandler k h' e' \<notin> set (pool st)" for h' e' by (auto simp: num_def filter_empty_conv)
  then have "EnterHandler k h' e' \<in> set ?ts \<Longrightarrow> h' = h \<and> e' = e" for h' e'
    using set_update_subset_insert [of "pool st" t "EnterHandler k h e"] by blast
  moreover have "num (in_body k) ?ts \<noteq> 0" using out assms(3,4) by (simp add: num_update_eq)
  ultimately have "session_ok ?ts (next_object st) k (Some (s\<lparr>outstanding := None\<rparr>)) (trace st k)"
    using ok assms(6,7) by (simp add: session_ok_def case_prod_beta) blast
  then show ?thesis using assms(3,4)
    by (intro traced_update [OF assms(1), of t k _ _ "Some (s\<lparr>outstanding := None\<rparr>)" "trace st k"]) auto
qed

lemma traced_body:
  assumes "traced st" and "counted st" and "t < length (pool st)" and "pool st ! t = EnterHandler k h e"
    and "heap st k = Some s" and "mt_handler h e s = (ops, s')"
  shows "traced (st\<lparr>pool := (pool st)[t := LeaveHandler k], heap := (heap st)(k \<mapsto> s'),
                    trace := (trace st)(k := (fst (trace st k) @ [e], snd (trace st k) @ ops))\<rparr>)"
proof -
  let ?ts = "(pool st)[t := LeaveHandler k]"
  let ?es = "fst (trace st k)"
  have "EnterHandler k h e \<in> set (pool st)" using assms(3,4) nth_mem by metis
  with traced_object [OF assms(1,5)]
  have run: "drive tuple_session (Suspended AtRead) ?es = (snd (trace st k), Suspended h)" and fit: "fits h e"
    unfolding session_ok_def by (auto split: prod.splits)
  have new: "k < next_object st" using counted_bound [OF assms(2), of k] assms(5) by simp
  have one: "0 < num (in_body k) (pool st)" using assms(3,4) by (auto intro: num_pos)
  then have none: "outstanding s = None" "num (in_body k) ?ts = 0"
    using counted_object [OF assms(2,5)] assms(3,4) by (auto simp: is_out_def num_update_eq split: if_splits)
  then have "EnterHandler k h' e' \<notin> set ?ts" for h' e' by (auto simp: num_def filter_empty_conv)
  with drive_snoc [OF run handler_refines [OF fit assms(6) none(1)]] new none(2)
  have "session_ok ?ts (next_object st) k (Some s') (?es @ [e], snd (trace st k) @ ops)"
    by (auto simp: session_ok_def split: option.splits)
  then show ?thesis using assms(3,4)
    by (intro traced_update [OF assms(1), of t k _ _ "Some s'" "(?es @ [e], snd (trace st k) @ ops)"]) auto
qed

lemma traced_step:
  assumes "traced st" and "counted st" and "mt_exec a st = Some st'"
  shows "traced st'"
proof (cases a)
  case (RunAccept t ec)
  then show ?thesis using assms(3) traced_thread [OF assms(1), of t "EnterAccept ec" False]
    by (auto simp: on_thread_def split: if_splits)
next
  case (AcceptBody t)
  then show ?thesis using assms(3) on_thread_busy [of st t] traced_make [OF assms(1,2), of t]
      traced_thread [OF assms(1), of t AcceptAgain "accept_pending st"]
    by (auto split: thread_state.splits if_splits)
next
  case (TemporaryGone t)
  then show ?thesis using assms(3) on_thread_busy [of st t] traced_release [OF assms(1,2), of t _ _ AcceptAgain]
    by (auto split: thread_state.splits option.splits)
next
  case (AcceptNext t)
  then show ?thesis using assms(3) on_thread_busy [of st t] traced_thread [OF assms(1), of t Idle True]
    by (auto split: if_splits)
next
  case (RunHandler t k e)
  then show ?thesis using assms(3) traced_enter [OF assms(1,2), of t k]
    by (auto simp: on_thread_def split: if_splits option.splits)
next
  case (HandlerBody t)
  then show ?thesis using assms(3) on_thread_busy [of st t] traced_body [OF assms(1,2), of t]
    by (auto split: thread_state.splits option.splits prod.splits)
next
  case (HandlerGone t)
  then show ?thesis using assms(3) on_thread_busy [of st t] traced_release [OF assms(1,2), of t _ _ Idle]
    by (auto split: thread_state.splits option.splits)
qed

lemma reachable_inv: "reachable hc st \<Longrightarrow> counted st \<and> traced st"
  by (induction rule: reachable.induct)
     (auto intro: counted_main traced_main counted_step traced_step)

lemma reachable_pool: "reachable hc st \<Longrightarrow> length (pool st) = hc + 1"
proof (induction rule: reachable.induct)
  case (step st a st')
  then show ?case
    by (cases a) (auto split: if_splits thread_state.splits option.splits prod.splits)
qed (simp add: mt_main_def)

section \<open>Consequences\<close>

lemma num_two:
  assumes "i < length ts" "j < length ts" "i \<noteq> j" "P (ts ! i)" "P (ts ! j)"
  shows "2 \<le> num P ts"
proof -
  have "card {i, j} \<le> card {k. k < length ts \<and> P (ts ! k)}" using assms by (intro card_mono) auto
  then show ?thesis using assms(3) by (simp add: num_def length_filter_conv_card)
qed

lemma num_exists: "0 < num P (pool st) \<Longrightarrow> \<exists>t. P (on_thread st t)"
proof -
  assume "0 < num P (pool st)"
  then obtain x where "x \<in> set (pool st)" "P x" by (auto simp: num_def filter_empty_conv)
  then obtain t where "t < length (pool st)" "P (pool st ! t)" by (auto simp: in_set_conv_nth)
  then have "P (on_thread st t)" by (simp add: on_thread_def)
  then show ?thesis by blast
qed

lemma uses_busy: "uses k (on_thread st t) \<Longrightarrow> t < length (pool st) \<and> uses k (pool st ! t)"
  by (auto simp: on_thread_def split: if_splits)

lemma counted_alive:
  assumes "counted st" and "uses k (on_thread st t)"
  shows "\<exists>s. heap st k = Some s"
  using uses_busy [OF assms(2)] num_pos [of t "pool st" "uses k"] counted_object [OF assms(1) refl, of k]
  by (cases "heap st k") auto

lemma counted_exclusive:
  assumes "counted st" and "on_thread st t = EnterHandler k h e"
  shows "\<exists>s. heap st k = Some s \<and> outstanding s = None"
    and "on_thread st t' = EnterHandler k h' e' \<Longrightarrow> t = t'"
proof -
  obtain s where s: "heap st k = Some s" using counted_alive [OF assms(1), of k t] assms(2) by auto
  note ok = counted_object [OF assms(1) s]
  have b: "t < length (pool st)" "pool st ! t = EnterHandler k h e" using on_thread_busy [of st t] assms(2) by auto
  with num_pos [of t "pool st" "in_body k"] s ok show "\<exists>s. heap st k = Some s \<and> outstanding s = None"
    by (auto simp: is_out_def split: if_splits)
  show "t = t'" if "on_thread st t' = EnterHandler k h' e'"
    using on_thread_busy [of st t'] that b ok num_two [of t "pool st" t' "in_body k"] by fastforce
qed

lemma counted_no_leak:
  assumes "counted st" and "heap st k = Some s"
  shows "(\<exists>t. uses k (on_thread st t)) \<or> outstanding s \<noteq> None"
  using counted_object [OF assms] num_exists [of "uses k" st] by (auto simp: is_out_def split: if_splits)

text \<open>The step a busy thread takes next.\<close>

fun next_step :: "nat \<Rightarrow> thread_state \<Rightarrow> mt_step" where
  "next_step t (EnterAccept ec) = AcceptBody t"
| "next_step t (DropTemporary k) = TemporaryGone t"
| "next_step t AcceptAgain = AcceptNext t"
| "next_step t (EnterHandler k h e) = HandlerBody t"
| "next_step t (LeaveHandler k) = HandlerGone t"
| "next_step t Idle = AcceptNext t"

fun to_go :: "thread_state \<Rightarrow> nat" where
  "to_go (EnterAccept ec) = 3"
| "to_go (DropTemporary k) = 2"
| "to_go AcceptAgain = 1"
| "to_go (EnterHandler k h e) = 2"
| "to_go (LeaveHandler k) = 1"
| "to_go Idle = 0"

lemma counted_progress:
  assumes "counted st" and "on_thread st t \<noteq> Idle"
  shows "\<exists>st'. mt_exec (next_step t (on_thread st t)) st = Some st' \<and> to_go (on_thread st' t) < to_go (on_thread st t)"
proof -
  have b: "t < length (pool st)" using on_thread_busy [OF assms(2)] by simp
  then have upd: "pool st' = (pool st)[t := x] \<Longrightarrow> on_thread st' t = x" for st' x
    by (simp add: on_thread_def)
  show ?thesis
    using assms(2) upd counted_alive [OF assms(1), of _ t]
    by (cases "on_thread st t") (auto simp: case_prod_beta)
qed

section \<open>Properties\<close>

text \<open>C9: Several threads run the handlers of \<open>echo_async_threaded.cpp\<close> without a strand, yet in every
  reachable state: no two threads are in the bodies of handlers of one session, and no operation is
  outstanding on a session while such a body runs, so socket and buffer are never used concurrently;
  no thread holds a session that has been destroyed; a session exists only while a thread or an
  outstanding operation owns it; and a thread that has entered a handler can always take its next
  step, which brings it closer to the end of the handler.\<close>

theorem mt_sessions_safe:
  assumes "reachable hc st"
  shows "(\<forall>t t' k h e h' e'. on_thread st t = EnterHandler k h e \<and> on_thread st t' = EnterHandler k h' e' \<longrightarrow> t = t')
    \<and> (\<forall>t k h e. on_thread st t = EnterHandler k h e \<longrightarrow> (\<exists>s. heap st k = Some s \<and> outstanding s = None))
    \<and> (\<forall>t k. uses k (on_thread st t) \<longrightarrow> heap st k \<noteq> None)
    \<and> (\<forall>k s. heap st k = Some s \<longrightarrow> (\<exists>t. uses k (on_thread st t)) \<or> outstanding s \<noteq> None)
    \<and> (\<forall>t. on_thread st t \<noteq> Idle \<longrightarrow>
         (\<exists>st'. mt_exec (next_step t (on_thread st t)) st = Some st' \<and> to_go (on_thread st' t) < to_go (on_thread st t)))"
proof -
  have c: "counted st" using reachable_inv [OF assms] by simp
  show ?thesis
    using counted_exclusive [OF c] counted_alive [OF c] counted_no_leak [OF c] counted_progress [OF c]
    by (intro conjI allI impI) (metis option.distinct(1))+
qed

definition mt_demo :: "mt_step list" where
  "mt_demo = [RunAccept 0 Success, AcceptBody 0, RunHandler 1 0 (ReadDone Success [7]), HandlerBody 1,
     RunHandler 2 0 (WriteDone Success 1), TemporaryGone 0]"

fun mt_run :: "mt_step list \<Rightarrow> threaded_server \<Rightarrow> threaded_server option" where
  "mt_run [] st = Some st"
| "mt_run (a # as) st = (case mt_exec a st of None \<Rightarrow> None | Some st' \<Rightarrow> mt_run as st')"

lemma mt_run_reachable: "mt_run as st = Some st' \<Longrightarrow> reachable hc st \<Longrightarrow> reachable hc st'"
  by (induction as arbitrary: st) (auto split: option.splits intro: reachable.step)

lemma mt_demo_run:
  "\<exists>st. mt_run mt_demo (mt_main 2) = Some st \<and> pool st = [AcceptAgain, LeaveHandler 0, EnterHandler 0 AtWrite (WriteDone Success 1)]
     \<and> trace st 0 = ([ReadDone Success [7]], [AsyncWrite Peer [7]])"
  by (simp add: mt_demo_def mt_main_def on_thread_def mt_defs numeral_2_eq_2)

theorem mt_sessions_safe_witness:
  "\<exists>st. mt_run mt_demo (mt_main 2) = Some st \<and> on_thread st 1 = LeaveHandler 0
     \<and> on_thread st 2 = EnterHandler 0 AtWrite (WriteDone Success 1) \<and> heap st 0 \<noteq> None"
proof -
  obtain st where st: "mt_run mt_demo (mt_main 2) = Some st"
    "pool st = [AcceptAgain, LeaveHandler 0, EnterHandler 0 AtWrite (WriteDone Success 1)]"
    using mt_demo_run by blast
  then have "reachable 2 st" using mt_run_reachable reachable.start by blast
  note safe = mt_sessions_safe [OF this]
  have on: "on_thread st 1 = LeaveHandler 0" "on_thread st 2 = EnterHandler 0 AtWrite (WriteDone Success 1)"
    using st(2) by (simp_all add: on_thread_def numeral_2_eq_2)
  then have "uses 0 (on_thread st 1)" by simp
  with safe on st(1) show ?thesis by blast
qed

text \<open>C3: The multi-threaded callback server refines the coroutine session. In every reachable state, for
  every session object (also a destroyed one), the completions its handlers have run with drive the
  coroutine session to exactly the operations the handlers have started; while an operation is
  outstanding the coroutine waits for the same operation, and the object is destroyed only if the
  coroutine has ended. Hence, if the completions answer the operations, each session writes exactly
  the bytes it received, whatever the interleaving.\<close>

theorem mt_sessions_refine:
  assumes "reachable hc st" and "drive tuple_session (snd coro_start) (fst (trace st k)) = (ops, c)"
  shows "snd (trace st k) = ops
    \<and> (\<forall>s h. heap st k = Some s \<and> outstanding s = Some h \<longrightarrow> c = Suspended h)
    \<and> (k < next_object st \<and> heap st k = None \<longrightarrow> c = Returned ())
    \<and> (answers any_error True (fst (trace st k)) \<longrightarrow> sent (snd (trace st k)) = received (fst (trace st k)))"
proof -
  have c: "counted st" "traced st" using reachable_inv [OF assms(1)] by simp_all
  have run: "drive tuple_session (Suspended AtRead) (fst (trace st k)) = (ops, c)"
    using assms(2) by (simp add: coro_start_def)
  note ok = traced_object [OF c(2) refl, of k]
  have "num (in_body k) (pool st) = 0" if "heap st k = None"
    using counted_object [OF c(1) that] in_body_uses [of k "pool st"] by simp
  then show ?thesis
    using ok run tuple.relay_sent [OF _ _ run]
    by (auto simp: session_ok_def)
qed

theorem mt_sessions_refine_witness:
  "\<exists>st. mt_run mt_demo (mt_main 2) = Some st \<and> sent (snd (trace st 0)) = [7]"
proof -
  obtain st where st: "mt_run mt_demo (mt_main 2) = Some st"
    "trace st 0 = ([ReadDone Success [7]], [AsyncWrite Peer [7]])"
    using mt_demo_run by blast
  then have "reachable 2 st" using mt_run_reachable reachable.start by blast
  from mt_sessions_refine [OF this, of 0] st(2) have "sent (snd (trace st 0)) = received (fst (trace st 0))"
    by (cases "drive tuple_session (snd coro_start) (fst (trace st 0))") auto
  with st show ?thesis by auto
qed

end
