(* ===== verification/Http_Servers.thy ===== *)
theory Http_Servers
  imports Formatters Session_Registry "HOL-Library.AList"
begin

text \<open>
  The HTTP servers of \<open>http/\<close>: \<open>echo.cpp\<close> (streaming echo of request bodies), \<open>jsoncons_pretty.cpp\<close> and
  \<open>rapidjson_pretty.cpp\<close> (pretty-printing), \<open>jsoncons_validator.cpp\<close> (a schema shared by all sessions).
  Parsing and serialising of HTTP (Boost.Beast) and of JSON are library code: the completions of
  the former are inputs, the functions of the latter are parameters. \<open>checked_resource\<close> of
  \<open>jsoncons_pr_658.cpp\<close>, a memory resource that checks deallocations, is here as well.
\<close>

section \<open>echo.cpp\<close>

datatype framing = Chunked | ContentLength "nat option" | Unframed

text \<open>What the code asks of a parsed request header: \<open>chunked()\<close>, \<open>has_content_length()\<close> with
  \<open>content_length()\<close>, and \<open>is_done()\<close>.\<close>

record request_header =
  req_chunked :: bool
  req_has_length :: bool
  req_length :: "nat option"
  req_done :: bool

definition response_framing :: "request_header \<Rightarrow> framing" where
  "response_framing h =
     (if req_chunked h then Chunked
      else if req_has_length h then ContentLength (req_length h)
      else if req_done h then ContentLength (Some 0)
      else Unframed)"

datatype http_state = HSetOption | HReadHeader | HWriteHeader | HReadBody | HWriteBody | HAborted

text \<open>Completions, and the answer of the synchronous \<open>set_option\<close>. That of \<open>async_write_header\<close> carries
  what the parser then answers to \<open>is_header_done()\<close> and \<open>need_eof()\<close> and the serializer to \<open>is_done()\<close>;
  that of \<open>async_read\<close> the bytes put at the beginning of the array \<open>data\<close>, \<open>body().size\<close> (the number of
  unused bytes of the array) and \<open>parser.is_done()\<close>; that of \<open>async_write\<close> \<open>sr.is_done()\<close>.\<close>

datatype http_event =
    OptionSet error_code
  | HeaderRead error_code request_header
  | HeaderWritten error_code bool bool bool
  | BodyRead error_code "byte list" nat bool
  | BodyWritten error_code bool

datatype http_action =
    NoDelay
  | AsyncReadHeader
  | AsyncWriteHeader framing
  | AsyncReadBody nat
  | AsyncWriteBody "byte list" bool
  | AssertFailed

definition http_start :: "http_action list \<times> (http_state, unit) ctl" where
  "http_start = ([NoDelay], Suspended HSetOption)"

text \<open>\<open>std::array<char, 64_k> data\<close>.\<close>

definition data_size :: nat where
  "data_size = 64 * 1024"

text \<open>\<open>while (!sr.is_done())\<close>: the next block of the body, or the next request.\<close>

definition http_loop :: "bool \<Rightarrow> http_action list \<times> (http_state, unit) ctl" where
  "http_loop sr_done =
     (if sr_done then ([AsyncReadHeader], Suspended HReadHeader)
      else ([AsyncReadBody data_size], Suspended HReadBody))"

definition http_fatal :: "error_code \<Rightarrow> bool" where
  "http_fatal ec \<longleftrightarrow> ec \<noteq> Success \<and> ec \<noteq> NeedBuffer"

text \<open>A failed assertion ends the process: nothing is done any more.\<close>

definition http_abort :: "http_action list \<times> (http_state, unit) ctl" where
  "http_abort = ([AssertFailed], Suspended HAborted)"

fun http_session :: "(http_state, http_event, http_action, unit) body" where
  "http_session HSetOption (OptionSet ec) =
     (if ec \<noteq> Success then ([], Threw (SystemError ec)) else ([AsyncReadHeader], Suspended HReadHeader))"
| "http_session HReadHeader (HeaderRead ec h) =
     (if ec \<noteq> Success then ([], Threw (SystemError ec))
      else ([AsyncWriteHeader (response_framing h)], Suspended HWriteHeader))"
| "http_session HWriteHeader (HeaderWritten ec header_done need_eof sr_done) =
     (if ec \<noteq> Success then ([], Threw (SystemError ec))
      else if \<not> header_done \<or> need_eof then http_abort
      else http_loop sr_done)"
| "http_session HReadBody (BodyRead ec data unused parser_done) =
     (if http_fatal ec then ([], Threw (SystemError ec))
      else if data_size < unused then http_abort
      else
        (let n = data_size - unused
         in if n = 0 \<and> \<not> parser_done then http_loop False
            else ([AsyncWriteBody (take n data) (\<not> parser_done)], Suspended HWriteBody)))"
| "http_session HWriteBody (BodyWritten ec sr_done) =
     (if http_fatal ec then ([], Threw (SystemError ec)) else http_loop sr_done)"
| "http_session s e = ([], Suspended s)"

section \<open>jsoncons\_pretty.cpp, rapidjson\_pretty.cpp\<close>

datatype status = StatusOk | BadRequest

record response =
  res_status :: status
  res_type :: "string option"
  res_body :: string

text \<open>\<open>parse\<close>: \<open>json::parse\<close>, whose \<open>json_exception\<close> has a text; \<open>pretty\<close>: \<open>encode_json_pretty\<close>.\<close>

definition pretty_response :: "(string \<Rightarrow> string + 'j) \<Rightarrow> ('j \<Rightarrow> string) \<Rightarrow> string \<Rightarrow> response" where
  "pretty_response parse pretty body =
     (let r = (case parse body of
                 Inr j \<Rightarrow> \<lparr>res_status = StatusOk, res_type = Some ''application/json'', res_body = pretty j\<rparr>
               | Inl w \<Rightarrow> \<lparr>res_status = BadRequest, res_type = Some ''text/plain'', res_body = w\<rparr>)
      in r\<lparr>res_body := res_body r @ [CHR 0x0A]\<rparr>)"

text \<open>In \<open>rapidjson_pretty.cpp\<close> a parse error has an offset and a text.\<close>

definition rapid_response :: "(string \<Rightarrow> (nat \<times> string) + 'j) \<Rightarrow> ('j \<Rightarrow> string) \<Rightarrow> string \<Rightarrow> response" where
  "rapid_response parse pretty body =
     (let r = (case parse body of
                 Inr j \<Rightarrow> \<lparr>res_status = StatusOk, res_type = Some ''application/json'', res_body = pretty j\<rparr>
               | Inl (off, w) \<Rightarrow> \<lparr>res_status = BadRequest, res_type = Some ''text/plain'',
                     res_body = ''offset '' @ dec off @ '': '' @ w\<rparr>)
      in r\<lparr>res_body := res_body r @ [CHR 0x0A]\<rparr>)"

section \<open>jsoncons\_validator.cpp\<close>

text \<open>The library functions: each may raise a \<open>std::runtime_error\<close> (a text), which the code catches, or
  another exception, which it does not; \<open>validate\<close> may return a report.\<close>

datatype json_exn = RuntimeError string | OtherException exn

record ('j, 'sch) json_lib =
  json_parse :: "string \<Rightarrow> json_exn + 'j"
  make_schema :: "'j \<Rightarrow> json_exn + 'sch"
  schema_validate :: "'sch \<Rightarrow> 'j \<Rightarrow> json_exn + 'j"
  json_pretty :: "'j \<Rightarrow> json_exn + string"

definition ok_response :: "string option \<Rightarrow> string \<Rightarrow> response" where
  "ok_response ty body = \<lparr>res_status = StatusOk, res_type = ty, res_body = body\<rparr>"

text \<open>The body of the \<open>try\<close> block for one request: the new value of the static variable \<open>schema\<close>, and the
  response or the exception.\<close>

definition set_schema :: "('j, 'sch) json_lib \<Rightarrow> string \<Rightarrow> 'sch option \<Rightarrow> 'sch option \<times> (json_exn + response)" where
  "set_schema J body schema =
     (case json_parse J body of
        Inl w \<Rightarrow> (schema, Inl w)
      | Inr j \<Rightarrow>
          (case make_schema J j of
             Inl w \<Rightarrow> (schema, Inl w)
           | Inr sch \<Rightarrow> (Some sch, Inr (ok_response None ''schema set''))))"

definition validate_document :: "('j, 'sch) json_lib \<Rightarrow> string \<Rightarrow> 'sch option \<Rightarrow> json_exn + response" where
  "validate_document J body schema =
     (case json_parse J body of
        Inl w \<Rightarrow> Inl w
      | Inr j \<Rightarrow>
          (case schema of
             None \<Rightarrow> Inl (RuntimeError ''please set schema first at /schema'')
           | Some sch \<Rightarrow>
               (case schema_validate J sch j of
                  Inl w \<Rightarrow> Inl w
                | Inr rep \<Rightarrow> map_sum id (ok_response (Some ''application/json'')) (json_pretty J rep))))"

text \<open>One request: the response, or the exception that leaves the session.\<close>

definition validator_request ::
  "('j, 'sch) json_lib \<Rightarrow> 'sch option \<Rightarrow> string \<times> string \<Rightarrow> 'sch option \<times> (exn + response)" where
  "validator_request J schema req =
     (case req of (target, body) \<Rightarrow>
        let (schema', r) =
          (if target = ''/schema'' then set_schema J body schema
           else if target = ''/'' then (schema, validate_document J body schema)
           else (schema, Inl (RuntimeError (target @ '' not found''))));
            res = (case r of
                     Inr x \<Rightarrow> Inr x
                   | Inl (RuntimeError w) \<Rightarrow> Inr \<lparr>res_status = BadRequest, res_type = Some ''text/plain'', res_body = w\<rparr>
                   | Inl (OtherException x) \<Rightarrow> Inl x)
        in (schema', map_sum id (\<lambda>r. r\<lparr>res_body := res_body r @ [CHR 0x0A]\<rparr>) res))"

text \<open>The requests of all sessions, in the order in which they get the lock, with their outcomes.\<close>

fun validator_server ::
  "('j, 'sch) json_lib \<Rightarrow> 'sch option \<Rightarrow> (string \<times> string) list \<Rightarrow> (exn + response) list \<times> 'sch option" where
  "validator_server J schema [] = ([], schema)"
| "validator_server J schema (req # reqs) =
     (case validator_request J schema req of (schema', res) \<Rightarrow>
        (case validator_server J schema' reqs of (rs, s) \<Rightarrow> (res # rs, s)))"

section \<open>jsoncons\_pr\_658.cpp: checked\_resource\<close>

type_synonym blocks = "(nat \<times> nat) list"

datatype dealloc_message = NotFound | SizeMismatch nat nat | DeallocOk

text \<open>\<open>do_allocate\<close>, with the address that the upstream resource returns; \<open>None\<close> is a failed assertion.\<close>

definition do_allocate :: "nat \<Rightarrow> nat \<Rightarrow> nat \<Rightarrow> blocks \<Rightarrow> blocks option" where
  "do_allocate p bytes alignment m =
     (if p mod alignment \<noteq> 0 then None else Some (AList.update p bytes m))"

definition do_deallocate :: "nat \<Rightarrow> nat \<Rightarrow> blocks \<Rightarrow> dealloc_message \<times> blocks" where
  "do_deallocate p bytes m =
     (case map_of m p of
        None \<Rightarrow> (NotFound, m)
      | Some b \<Rightarrow> (if b \<noteq> bytes then SizeMismatch b bytes else DeallocOk, AList.delete p m))"

definition checked_destroy :: "blocks \<Rightarrow> bool" where
  "checked_destroy m \<longleftrightarrow> m = []"

text \<open>\<open>do_is_equal\<close> compares identities. \<open>decode\<close>: what the decoder asks of the resource is a sequence of
  operations; the destructor then checks that nothing is left. \<open>None\<close> is a failed assertion, the
  result are the messages of the deallocations.\<close>

definition do_is_equal :: "nat \<Rightarrow> nat \<Rightarrow> bool" where
  "do_is_equal this other \<longleftrightarrow> this = other"

datatype mem_op = Alloc nat nat nat | Dealloc nat nat

fun checked_run :: "mem_op list \<Rightarrow> blocks \<Rightarrow> (dealloc_message list \<times> blocks) option" where
  "checked_run [] m = Some ([], m)"
| "checked_run (Alloc p bytes alignment # ops) m =
     (case do_allocate p bytes alignment m of None \<Rightarrow> None | Some m' \<Rightarrow> checked_run ops m')"
| "checked_run (Dealloc p bytes # ops) m =
     (case do_deallocate p bytes m of
        (msg, m') \<Rightarrow> map_option (\<lambda>(msgs, m''). (msg # msgs, m'')) (checked_run ops m'))"

definition decode :: "mem_op list \<Rightarrow> dealloc_message list option" where
  "decode ops =
     (case checked_run ops [] of
        None \<Rightarrow> None
      | Some (msgs, m) \<Rightarrow> if checked_destroy m then Some msgs else None)"

text \<open>The assertions hold exactly if every block is aligned and has been given back.\<close>

fun aligned :: "mem_op \<Rightarrow> bool" where
  "aligned (Alloc p bytes alignment) \<longleftrightarrow> p mod alignment = 0"
| "aligned (Dealloc p bytes) \<longleftrightarrow> True"

fun still_held :: "mem_op list \<Rightarrow> nat set \<Rightarrow> nat set" where
  "still_held [] S = S"
| "still_held (Alloc p bytes alignment # ops) S = still_held ops (insert p S)"
| "still_held (Dealloc p bytes # ops) S = still_held ops (S - {p})"

lemma keys_delete_update:
  "fst ` set (AList.update p b m) = insert p (fst ` set m)" "fst ` set (AList.delete p m) = fst ` set m - {p}"
  by (simp_all only: set_map [symmetric] update_keys delete_keys) auto

lemma do_deallocate_keys: "fst ` set (snd (do_deallocate p bytes m)) = fst ` set m - {p}"
proof (cases "map_of m p")
  case None
  then have "p \<notin> fst ` set m" by (simp add: map_of_eq_None_iff)
  with None show ?thesis by (simp add: do_deallocate_def)
qed (simp add: do_deallocate_def keys_delete_update)

lemma checked_run_keys:
  "\<forall>op \<in> set ops. aligned op \<Longrightarrow>
   \<exists>msgs m'. checked_run ops m = Some (msgs, m') \<and> fst ` set m' = still_held ops (fst ` set m)"
proof (induction ops arbitrary: m)
  case (Cons op ops)
  show ?case
  proof (cases op)
    case (Alloc p bytes alignment)
    with Cons.prems have "checked_run (op # ops) m = checked_run ops (AList.update p bytes m)"
      by (simp add: do_allocate_def)
    with Alloc Cons.prems Cons.IH [of "AList.update p bytes m"] show ?thesis
      by (simp add: keys_delete_update)
  next
    case (Dealloc p bytes)
    obtain msg m1 where d: "do_deallocate p bytes m = (msg, m1)" by fastforce
    with do_deallocate_keys [of p bytes m] have "fst ` set m1 = fst ` set m - {p}" by simp
    with Dealloc d Cons.prems Cons.IH [of m1] show ?thesis by auto
  qed
qed simp

lemma checked_run_unaligned: "\<exists>op \<in> set ops. \<not> aligned op \<Longrightarrow> checked_run ops m = None"
proof (induction ops arbitrary: m)
  case (Cons op ops)
  then show ?case by (cases op) (auto simp: do_allocate_def split: prod.splits)
qed simp

lemma decode_asserts:
  "decode ops \<noteq> None \<longleftrightarrow> (\<forall>op \<in> set ops. aligned op) \<and> still_held ops {} = {}"
proof (cases "\<forall>op \<in> set ops. aligned op")
  case True
  then obtain msgs m' where "checked_run ops [] = Some (msgs, m')" "fst ` set m' = still_held ops {}"
    using checked_run_keys [of ops "[]"] by auto
  with True show ?thesis by (cases m') (auto simp: decode_def checked_destroy_def)
next
  case False
  then show ?thesis using checked_run_unaligned [of ops "[]"] by (auto simp: decode_def)
qed

text \<open>A block that is allocated and then given back with its size leaves the table as it was, and no
  message is printed; a wrong size is reported but the block is still forgotten.\<close>

lemma checked_resource_roundtrip:
  assumes "do_allocate p bytes alignment m = Some m'" and "p \<notin> fst ` set m"
  shows "do_deallocate p bytes m' = (DeallocOk, m)"
    and "bytes' \<noteq> bytes \<Longrightarrow> do_deallocate p bytes' m' = (SizeMismatch bytes bytes', m)"
proof -
  have m': "m' = AList.update p bytes m" using assms(1) by (simp add: do_allocate_def split: if_splits)
  have l: "map_of m' p = Some bytes" by (simp add: m' update_conv')
  have "AList.delete p m = m"
    by (rule delete_id [OF assms(2)])
  moreover have "AList.delete p m' = AList.delete p m" by (simp add: m' delete_update_same)
  ultimately have d: "AList.delete p m' = m" by simp
  show "do_deallocate p bytes m' = (DeallocOk, m)" by (simp add: do_deallocate_def l d)
  show "bytes' \<noteq> bytes \<Longrightarrow> do_deallocate p bytes' m' = (SizeMismatch bytes bytes', m)"
    by (simp add: do_deallocate_def l d)
qed

section \<open>The streaming echo\<close>

text \<open>The requests as they come in, each with its header and the bytes of its body so far, and the
  responses as they go out. A block that comes with a fatal error is not part of a request.\<close>

definition extend_last :: "('h \<times> byte list) list \<Rightarrow> byte list \<Rightarrow> ('h \<times> byte list) list" where
  "extend_last ms bs = (if ms = [] then [] else butlast ms @ [(fst (last ms), snd (last ms) @ bs)])"

fun add_request :: "(request_header \<times> byte list) list \<Rightarrow> http_event \<Rightarrow> (request_header \<times> byte list) list" where
  "add_request ms (HeaderRead ec h) = (if ec = Success then ms @ [(h, [])] else ms)"
| "add_request ms (BodyRead ec data unused d) = (if http_fatal ec then ms else extend_last ms data)"
| "add_request ms e = ms"

fun add_response :: "(framing \<times> byte list) list \<Rightarrow> http_action \<Rightarrow> (framing \<times> byte list) list" where
  "add_response ms (AsyncWriteHeader f) = ms @ [(f, [])]"
| "add_response ms (AsyncWriteBody bs m) = extend_last ms bs"
| "add_response ms a = ms"

definition http_requests :: "http_event list \<Rightarrow> (request_header \<times> byte list) list" where
  "http_requests es = foldl add_request [] es"

definition http_responses :: "http_action list \<Rightarrow> (framing \<times> byte list) list" where
  "http_responses as = foldl add_response [] as"

text \<open>The framing a response owes to its request: chunks for chunks, else the length of the request,
  else length 0 for a request without a body.\<close>

fun framed_like :: "request_header \<Rightarrow> framing \<Rightarrow> bool" where
  "framed_like h Chunked \<longleftrightarrow> req_chunked h"
| "framed_like h (ContentLength n) \<longleftrightarrow>
     \<not> req_chunked h \<and> (req_has_length h \<and> n = req_length h \<or> \<not> req_has_length h \<and> req_done h \<and> n = Some 0)"
| "framed_like h Unframed \<longleftrightarrow> \<not> req_chunked h \<and> \<not> req_has_length h \<and> \<not> req_done h"

definition echoes :: "request_header \<times> byte list \<Rightarrow> framing \<times> byte list \<Rightarrow> bool" where
  "echoes q r \<longleftrightarrow> framed_like (fst q) (fst r) \<and> snd r = snd q"

text \<open>The completions answer the outstanding operation, as documented: after \<open>async_read_header\<close> the
  header is complete, the end of a request body never depends on the end of the stream, and
  \<open>async_read\<close> fills the array from its beginning and leaves the rest of its size unused.\<close>

fun expects :: "http_state \<Rightarrow> http_event \<Rightarrow> bool" where
  "expects HSetOption (OptionSet ec) = True"
| "expects HReadHeader (HeaderRead ec h) = True"
| "expects HWriteHeader (HeaderWritten ec header_done need_eof d) = (header_done \<and> \<not> need_eof)"
| "expects HReadBody (BodyRead ec data unused d) = (length data + unused = data_size)"
| "expects HWriteBody (BodyWritten ec d) = True"
| "expects s e = False"

fun http_answers :: "(http_state, unit) ctl \<Rightarrow> http_event list \<Rightarrow> bool" where
  "http_answers c [] = True"
| "http_answers c (e # es) =
     (case c of Suspended s \<Rightarrow> expects s e \<and> http_answers (snd (http_session s e)) es | _ \<Rightarrow> False)"

lemma extend_last_Nil [simp]: "extend_last ms [] = ms"
  by (cases ms rule: rev_cases) (auto simp: extend_last_def)

lemma echoes_extend: "list_all2 echoes qs rs \<Longrightarrow> list_all2 echoes (extend_last qs bs) (extend_last rs bs)"
proof -
  assume qr: "list_all2 echoes qs rs"
  show ?thesis
  proof (cases qs rule: rev_cases)
    case (snoc qs' q)
    with qr obtain rs' r where r: "rs = rs' @ [r]" "list_all2 echoes qs' rs'" "echoes q r"
      by (auto simp: list_all2_append1 list_all2_Cons1)
    then show ?thesis using snoc by (auto simp: extend_last_def echoes_def intro!: list_all2_appendI)
  qed (use qr in \<open>auto simp: extend_last_def\<close>)
qed

lemma response_framed: "framed_like h (response_framing h)"
  by (auto simp: response_framing_def)

text \<open>One step: what it adds to the requests it adds to the responses.\<close>

lemma http_step_echo:
  assumes "expects s e" and "http_session s e = (as, c)" and "list_all2 echoes qs rs"
  shows "list_all2 echoes (add_request qs e) (foldl add_response rs as)"
  using assms
proof (cases "(s, e)" rule: http_session.cases)
  case (2 ec h)
  with assms show ?thesis
    by (auto simp: echoes_def response_framed intro!: list_all2_appendI)
next
  case (4 ec data unused d)
  have "data = []" if "data_size \<le> unused" using assms(1) 4 that by (auto simp: length_0_conv [symmetric] simp del: length_0_conv)
  then show ?thesis using 4 assms echoes_extend [OF assms(3), of data]
    by (auto simp: http_loop_def http_abort_def Let_def split: if_splits)
qed (auto simp: http_loop_def http_abort_def split: if_splits)

lemma http_step_writes:
  assumes "http_session s e = (as, c)" and "expects s e"
  shows "(\<forall>bs. AsyncWriteBody bs True \<in> set as \<longrightarrow> bs \<noteq> []) \<and> AssertFailed \<notin> set as
    \<and> (\<forall>ec data unused d. e = BodyRead ec data unused d \<and> http_fatal ec \<longrightarrow> as = [] \<and> c = Threw (SystemError ec))"
  using assms
  by (cases "(s, e)" rule: http_session.cases) (auto simp: http_loop_def http_abort_def Let_def split: if_splits)

lemma http_run:
  assumes "http_answers c es" and "drive http_session c es = (as, c')" and "list_all2 echoes qs rs"
  shows "list_all2 echoes (foldl add_request qs es) (foldl add_response rs as)
    \<and> (\<forall>bs. AsyncWriteBody bs True \<in> set as \<longrightarrow> bs \<noteq> []) \<and> AssertFailed \<notin> set as
    \<and> (\<forall>ec data unused d. BodyRead ec data unused d \<in> set es \<and> http_fatal ec \<longrightarrow> c' = Threw (SystemError ec))"
  using assms
proof (induction es arbitrary: c as qs rs)
  case (Cons e es)
  then obtain s where c: "c = Suspended s" "expects s e" by (cases c) auto
  obtain bs c1 where b: "http_session s e = (bs, c1)" by fastforce
  obtain as' where run: "drive http_session c1 es = (as', c')" "as = bs @ as'"
    using Cons.prems(2) b c(1) by (auto split: prod.splits)
  have ok: "http_answers c1 es" using Cons.prems(1) b c(1) by simp
  note w = http_step_writes [OF b c(2)]
  note IH = Cons.IH [OF ok run(1) http_step_echo [OF c(2) b Cons.prems(3)]]
  have "c' = Threw (SystemError ec)" if "e = BodyRead ec data unused d" "http_fatal ec" for ec data unused d
    using w that run(1) ok by (cases es) auto
  with IH have "c' = Threw (SystemError ec)" if "BodyRead ec data unused d \<in> set (e # es)" "http_fatal ec" for ec data unused d
    using that by (metis set_ConsD)
  with IH w run(2) show ?case by (simp only: foldl_append foldl.simps set_append Un_iff) blast
qed auto

section \<open>The schema\<close>

text \<open>The schema that a request installs, if it does.\<close>

definition installs :: "('j, 'sch) json_lib \<Rightarrow> string \<times> string \<Rightarrow> 'sch option" where
  "installs J req =
     (case req of (target, body) \<Rightarrow>
        if target = ''/schema''
        then (case json_parse J body of Inl _ \<Rightarrow> None
              | Inr j \<Rightarrow> (case make_schema J j of Inl _ \<Rightarrow> None | Inr sch \<Rightarrow> Some sch))
        else None)"

lemma validator_request_schema:
  "fst (validator_request J schema req) = (case installs J req of Some sch \<Rightarrow> Some sch | None \<Rightarrow> schema)"
  by (auto simp: validator_request_def set_schema_def installs_def Let_def split: prod.splits sum.splits json_exn.splits)

lemma validator_server_schema:
  "snd (validator_server J schema reqs) = fold (\<lambda>req s. case installs J req of Some sch \<Rightarrow> Some sch | None \<Rightarrow> s) reqs schema"
proof (induction reqs arbitrary: schema)
  case (Cons req reqs)
  have "snd (validator_server J schema (req # reqs))
      = snd (validator_server J (fst (validator_request J schema req)) reqs)"
    by (simp add: case_prod_beta)
  then show ?case using Cons.IH validator_request_schema [of J schema req] by simp
qed simp

lemma fold_installs:
  "fold (\<lambda>req s. case installs J req of Some sch \<Rightarrow> Some sch | None \<Rightarrow> s) reqs schema =
     (case List.map_filter (installs J) reqs of [] \<Rightarrow> schema | x # xs \<Rightarrow> Some (last (x # xs)))"
  by (induction reqs arbitrary: schema)
    (auto simp: map_filter_simps split: option.splits list.splits)

lemma validator_server_responses:
  "length (fst (validator_server J schema reqs)) = length reqs
   \<and> (\<forall>i < length reqs. fst (validator_server J schema reqs) ! i
        = snd (validator_request J (snd (validator_server J schema (take i reqs))) (reqs ! i)))"
proof (induction reqs arbitrary: schema)
  case (Cons req reqs)
  obtain s' res where r: "validator_request J schema req = (s', res)" by fastforce
  obtain rs s where v: "validator_server J s' reqs = (rs, s)" by fastforce
  show ?case
  proof (intro conjI allI impI)
    show "length (fst (validator_server J schema (req # reqs))) = length (req # reqs)"
      using Cons.IH [of s'] r v by simp
    fix i assume "i < length (req # reqs)"
    then show "fst (validator_server J schema (req # reqs)) ! i
        = snd (validator_request J (snd (validator_server J schema (take i (req # reqs)))) ((req # reqs) ! i))"
      using Cons.IH [of s'] r v by (cases i) (simp_all split: prod.splits)
  qed
qed simp

section \<open>Properties\<close>

text \<open>C20: The HTTP server echoes requests as a stream: in every run, the n-th response it writes has the
  framing that the n-th request calls for (chunked, the same content length, or length 0) and, so
  far, exactly the bytes of the body of that request, in order, whatever the block boundaries. No
  empty block is written unless it is the last one of its message (an empty chunk would end it), and
  none of the assertions fails. A read error other than \<open>need_buffer\<close> ends the session with that error;
  the bytes that came with it (a truncated body) are not echoed.\<close>

theorem http_echo_streams:
  assumes "http_answers (snd http_start) es" and "drive http_session (snd http_start) es = (as, c)"
  shows "list_all2 echoes (http_requests es) (http_responses as)
    \<and> (\<forall>bs. AsyncWriteBody bs True \<in> set as \<longrightarrow> bs \<noteq> []) \<and> AssertFailed \<notin> set as
    \<and> (\<forall>ec data unused d. BodyRead ec data unused d \<in> set es \<and> http_fatal ec \<longrightarrow> c = Threw (SystemError ec))"
  using http_run [OF assms, of "[]" "[]"] by (simp add: http_requests_def http_responses_def)

theorem http_echo_streams_witness:
  "http_responses (fst (drive http_session (snd http_start)
     [OptionSet Success,
      HeaderRead Success \<lparr>req_chunked = True, req_has_length = False, req_length = None, req_done = False\<rparr>,
      HeaderWritten Success True False False, BodyRead NeedBuffer [] 65536 False, BodyRead NeedBuffer [1, 2] 65534 False,
      BodyWritten NeedBuffer False, BodyRead Success [3] 65535 True, BodyWritten Success True])) = [(Chunked, [1, 2, 3])]"
proof -
  let ?es = "[OptionSet Success,
      HeaderRead Success \<lparr>req_chunked = True, req_has_length = False, req_length = None, req_done = False\<rparr>,
      HeaderWritten Success True False False, BodyRead NeedBuffer [] 65536 False, BodyRead NeedBuffer [1, 2] 65534 False,
      BodyWritten NeedBuffer False, BodyRead Success [3] 65535 True, BodyWritten Success True]"
  obtain as c where r: "drive http_session (snd http_start) ?es = (as, c)" by fastforce
  have a: "http_answers (snd http_start) ?es"
    by (simp add: http_start_def http_loop_def http_fatal_def data_size_def)
  have "http_requests ?es = [(\<lparr>req_chunked = True, req_has_length = False, req_length = None, req_done = False\<rparr>, [1, 2, 3])]"
    by (simp add: http_requests_def extend_last_def http_fatal_def)
  with http_echo_streams [OF a r, THEN conjunct1]
  obtain f where "http_responses as = [(f, [1, 2, 3])]" "framed_like \<lparr>req_chunked = True, req_has_length = False, req_length = None, req_done = False\<rparr> f"
    by (auto simp: echoes_def list_all2_Cons1)
  with r show ?thesis by (cases f) simp_all
qed

text \<open>C37: The schema of the validator is always the one installed by the last successful request to
  \<open>/schema\<close>, and every response is computed from the schema at its turn: the requests of all sessions
  are linearised. A document is refused with 400 until a schema has been installed (unless parsing it
  throws an exception that is no \<open>std::runtime_error\<close>, which leaves the session), and a failed
  request leaves the schema unchanged.\<close>

theorem validator_schema:
  "snd (validator_server J schema reqs) =
     (case List.map_filter (installs J) reqs of [] \<Rightarrow> schema | x # xs \<Rightarrow> Some (last (x # xs)))
   \<and> length (fst (validator_server J schema reqs)) = length reqs
   \<and> (\<forall>i < length reqs. fst (validator_server J schema reqs) ! i
        = snd (validator_request J (snd (validator_server J schema (take i reqs))) (reqs ! i)))
   \<and> (case json_parse J body of
        Inl (OtherException x) \<Rightarrow> snd (validator_request J None (''/'', body)) = Inl x
      | _ \<Rightarrow> map_sum id res_status (snd (validator_request J None (''/'', body))) = Inr BadRequest)
   \<and> (\<forall>req. map_sum id res_status (snd (validator_request J schema req)) \<noteq> Inr StatusOk \<longrightarrow>
        fst (validator_request J schema req) = schema)"
proof -
  have "case json_parse J body of
        Inl (OtherException x) \<Rightarrow> snd (validator_request J None (''/'', body)) = Inl x
      | _ \<Rightarrow> map_sum id res_status (snd (validator_request J None (''/'', body))) = Inr BadRequest"
    by (simp add: validator_request_def validate_document_def split: sum.splits json_exn.splits)
  moreover have "fst (validator_request J schema req) = schema"
    if "map_sum id res_status (snd (validator_request J schema req)) \<noteq> Inr StatusOk" for req
    using that by (auto simp: validator_request_def set_schema_def ok_response_def Let_def
        split: prod.splits sum.splits if_splits)
  ultimately show ?thesis
    using validator_server_schema [of J schema reqs] fold_installs [of J reqs schema]
      validator_server_responses [of J schema reqs] by simp
qed

theorem validator_schema_witness:
  "map_sum id res_status (snd (validator_request \<lparr>json_parse = Inr, make_schema = Inr, schema_validate = (\<lambda>sch j. Inr j), json_pretty = Inr\<rparr>
      None (''/'', ''[]''))) = Inr BadRequest"
  using validator_schema [of "\<lparr>json_parse = Inr, make_schema = Inr, schema_validate = (\<lambda>sch j. Inr j), json_pretty = Inr\<rparr>" None "[]" "''[]''"]
  by simp

end
