(* ===== verification/Server_Programs.thy ===== *)
theory Server_Programs
  imports Echo_Threads Networking Http_Servers Execution
begin

text \<open>
  Whole server programs: an accept loop and the sessions it spawns, all run by one context. \<open>serve\<close>
  composes an accept loop and a session body the way \<open>server\<close> and \<open>main\<close> of the programs do
  (\<open>echo/\<close>, \<open>http/\<close>); the interface \<open>accept_program\<close> gives what every such program promises to each of
  its connections. The blocking servers, where an exception of a session leaves \<open>main\<close> or a thread,
  and the start of threads in a loop over \<open>capacity()\<close> follow.
\<close>

section \<open>Accept loop and sessions on one context\<close>

text \<open>Completions: of \<open>async_accept\<close>, and of the outstanding operation of a session. Sessions are
  numbered in the order in which they are spawned. \<open>Spawn i sock limit\<close> is \<open>co_spawn\<close> with \<open>detached\<close>, or
  with \<open>cancel_after\<close> the given number of seconds.\<close>

datatype ('sock, 'e) prog_event = Connection error_code 'sock | Resume nat 'e

datatype ('sock, 'a) prog_action = Listen | Spawn nat 'sock "nat option" | Do nat 'a

record ('s, 'sock) program =
  listener :: "(unit, unit) ctl"
  running :: "('sock \<times> ('s, unit) ctl) list"

type_synonym ('s, 'sock, 'e, 'a) program_step =
  "(('s, 'sock) program, ('sock, 'e) prog_event, ('sock, 'a) prog_action) stepper"

text \<open>What the accept loop does when it is resumed: a spawned session starts at once.\<close>

fun perform ::
  "nat option \<Rightarrow> 'a list \<times> ('s, unit) ctl \<Rightarrow> 'sock accept_op list \<Rightarrow> ('s, 'sock) program \<Rightarrow>
   ('sock, 'a) prog_action list \<times> ('s, 'sock) program" where
  "perform limit begin_session [] st = ([], st)"
| "perform limit begin_session (AsyncAccept # ops) st =
     (case perform limit begin_session ops st of (as, st') \<Rightarrow> (Listen # as, st'))"
| "perform limit begin_session (CoSpawn sock # ops) st =
     (case perform limit begin_session ops (st\<lparr>running := running st @ [(sock, snd begin_session)]\<rparr>) of
        (as, st') \<Rightarrow>
          (Spawn (length (running st)) sock limit # map (Do (length (running st))) (fst begin_session) @ as, st'))"

text \<open>An exception that leaves the accept loop or a session goes to \<open>detached\<close>, which drops it.\<close>

fun serve ::
  "nat option \<Rightarrow> (unit, error_code \<times> 'sock, 'sock accept_op, unit) body \<Rightarrow> 'a list \<times> ('s, unit) ctl \<Rightarrow>
   ('s, 'e, 'a, unit) body \<Rightarrow> ('s, 'sock, 'e, 'a) program_step" where
  "serve limit loop begin_session session st (Connection ec sock) =
     (case listener st of
        Suspended u \<Rightarrow> (case loop u (ec, sock) of (ops, c) \<Rightarrow> perform limit begin_session ops (st\<lparr>listener := c\<rparr>))
      | _ \<Rightarrow> ([], st))"
| "serve limit loop begin_session session st (Resume i e) =
     (if i < length (running st)
      then (case running st ! i of
              (sock, Suspended s) \<Rightarrow>
                (case session s e of (as, c) \<Rightarrow> (map (Do i) as, st\<lparr>running := (running st)[i := (sock, c)]\<rparr>))
            | _ \<Rightarrow> ([], st))
      else ([], st))"

text \<open>After the accept loop has been started and waits for its first connection.\<close>

definition serve_start :: "('s, 'sock) program" where
  "serve_start = \<lparr>listener = Suspended (), running = []\<rparr>"

text \<open>\<open>context.run()\<close> returns when there is no work left.\<close>

definition serve_done :: "('s, 'sock) program \<Rightarrow> bool" where
  "serve_done st \<longleftrightarrow> finished (listener st) \<and> (\<forall>(sock, c) \<in> set (running st). finished c)"

section \<open>The programs\<close>

text \<open>\<open>echo_coro.cpp\<close>, \<open>echo_coro_tuple.cpp\<close>, \<open>echo_coro_threaded.cpp\<close>, \<open>echo_corosio.cpp\<close> and
  \<open>echo_corosio_threaded.cpp\<close>; \<open>echo_coro_timeout.cpp\<close> limits every session to 60 seconds.\<close>

definition coro_program :: "(echo_state, 'sock, stream_event, stream_op) program_step" where
  "coro_program = serve None server coro_start coro_session"

definition tuple_program :: "(echo_state, 'sock, stream_event, stream_op) program_step" where
  "tuple_program = serve None server coro_start tuple_session"

definition threaded_program :: "(echo_state, 'sock, stream_event, stream_op) program_step" where
  "threaded_program = serve None server coro_start threaded_session"

definition timeout_program :: "(echo_state, 'sock, stream_event, stream_op \<times> nat option) program_step" where
  "timeout_program = serve (Some 60) server (map with_limit (fst coro_start), snd coro_start) timeout_session"

definition corosio_program :: "(echo_state, 'sock, stream_event, stream_op) program_step" where
  "corosio_program = serve None corosio_server coro_start handle_connection"

definition corosio_threaded_program :: "(echo_state, 'sock, stream_event, stream_op) program_step" where
  "corosio_threaded_program = serve None corosio_server coro_start handle_connection_threaded"

text \<open>\<open>http/echo.cpp\<close>.\<close>

definition http_program :: "(http_state, 'sock, http_event, http_action) program_step" where
  "http_program = serve None server http_start http_session"

text \<open>The session of \<open>http/jsoncons_pretty.cpp\<close> and \<open>http/rapidjson_pretty.cpp\<close>: requests are answered one
  by one; errors of reading and writing leave the session. \<open>respond\<close> is the response to a body.\<close>

datatype json_state = JsonRead | JsonWrite

datatype json_event = RequestRead error_code string | ResponseWritten error_code

datatype json_action = ReadRequest | WriteResponse response

fun json_session :: "(string \<Rightarrow> response) \<Rightarrow> (json_state, json_event, json_action, unit) body" where
  "json_session respond JsonRead (RequestRead ec body) =
     (if ec \<noteq> Success then ([], Threw (SystemError ec)) else ([WriteResponse (respond body)], Suspended JsonWrite))"
| "json_session respond JsonWrite (ResponseWritten ec) =
     (if ec \<noteq> Success then ([], Threw (SystemError ec)) else ([ReadRequest], Suspended JsonRead))"
| "json_session respond s e = ([], Suspended s)"

definition json_start :: "json_action list \<times> (json_state, unit) ctl" where
  "json_start = ([ReadRequest], Suspended JsonRead)"

definition pretty_program ::
  "(string \<Rightarrow> string + 'j) \<Rightarrow> ('j \<Rightarrow> string) \<Rightarrow> (json_state, 'sock, json_event, json_action) program_step" where
  "pretty_program parse pretty = serve None server json_start (json_session (pretty_response parse pretty))"

definition rapid_program ::
  "(string \<Rightarrow> (nat \<times> string) + 'j) \<Rightarrow> ('j \<Rightarrow> string) \<Rightarrow> (json_state, 'sock, json_event, json_action) program_step" where
  "rapid_program parse pretty = serve None server json_start (json_session (rapid_response parse pretty))"

text \<open>\<open>http/jsoncons_validator.cpp\<close>: as before, but the sessions share the static variable \<open>schema\<close>. A request is
  handled between two suspensions, so the handling of two requests of different connections does not
  overlap on one thread; on several threads the mutex orders it.\<close>

datatype val_event = ValRead error_code string string | ValWritten error_code

fun validator_session ::
  "('j, 'sch) json_lib \<Rightarrow> 'sch option \<Rightarrow> json_state \<Rightarrow> val_event \<Rightarrow> 'sch option \<times> json_action list \<times> (json_state, unit) ctl" where
  "validator_session J schema JsonRead (ValRead ec target body) =
     (if ec \<noteq> Success then (schema, [], Threw (SystemError ec))
      else (case validator_request J schema (target, body) of
              (schema', Inr r) \<Rightarrow> (schema', [WriteResponse r], Suspended JsonWrite)
            | (schema', Inl x) \<Rightarrow> (schema', [], Threw x)))"
| "validator_session J schema JsonWrite (ValWritten ec) =
     (schema, if ec \<noteq> Success then ([], Threw (SystemError ec)) else ([ReadRequest], Suspended JsonRead))"
| "validator_session J schema s e = (schema, [], Suspended s)"

record ('sch, 'sock) validator =
  shared_schema :: "'sch option"
  val_program :: "(json_state, 'sock) program"

fun validator_program ::
  "('j, 'sch) json_lib \<Rightarrow> (('sch, 'sock) validator, ('sock, val_event) prog_event, ('sock, json_action) prog_action) stepper" where
  "validator_program J v (Connection ec sock) =
     (case listener (val_program v) of
        Suspended u \<Rightarrow>
          (case server u (ec, sock) of
             (ops, c) \<Rightarrow>
               (case perform None json_start ops ((val_program v)\<lparr>listener := c\<rparr>) of
                  (as, p) \<Rightarrow> (as, v\<lparr>val_program := p\<rparr>)))
      | _ \<Rightarrow> ([], v))"
| "validator_program J v (Resume i e) =
     (if i < length (running (val_program v))
      then (case running (val_program v) ! i of
              (sock, Suspended s) \<Rightarrow>
                (case validator_session J (shared_schema v) s e of
                   (schema', as, c) \<Rightarrow>
                     (map (Do i) as,
                      \<lparr>shared_schema = schema',
                       val_program = (val_program v)\<lparr>running := (running (val_program v))[i := (sock, c)]\<rparr>\<rparr>))
            | _ \<Rightarrow> ([], v))
      else ([], v))"

definition proxy_server :: "(unit, error_code \<times> 'sock, 'sock accept_op, unit) body" where
  "proxy_server = server"

section \<open>What a program promises to a connection\<close>

fun does :: "nat \<Rightarrow> ('sock, 'a) prog_action list \<Rightarrow> 'a list" where
  "does i [] = []"
| "does i (Do j a # as) = (if j = i then a # does i as else does i as)"
| "does i (_ # as) = does i as"

fun resumes :: "nat \<Rightarrow> ('sock, 'e) prog_event list \<Rightarrow> 'e list" where
  "resumes i [] = []"
| "resumes i (Resume j e # es) = (if j = i then e # resumes i es else resumes i es)"
| "resumes i (_ # es) = resumes i es"

lemma does_append [simp]: "does i (as @ bs) = does i as @ does i bs"
  by (induction as rule: does.induct) auto

lemma does_map_Do [simp]: "does i (map (Do j) as) = (if j = i then as else [])"
  by (induction as) auto

lemma perform_running:
  assumes "perform limit begin_session ops st = (as, st')"
  shows "running st' = running st @ map (\<lambda>sock. (sock, snd begin_session)) (spawned ops)
    \<and> listener st' = listener st \<and> (\<forall>i < length (running st). does i as = [])
    \<and> (\<forall>i \<ge> length (running st'). does i as = [])"
  using assms
proof (induction ops arbitrary: st as st' rule: spawned.induct)
  case (2 sock ops)
  then show ?case by (fastforce split: prod.splits)
qed (auto split: prod.splits)

lemma serve_step_running:
  assumes "serve limit loop bs session st ev = (as, st')"
  shows "length (running st) \<le> length (running st') \<and> (\<forall>i \<ge> length (running st'). does i as = [])"
proof (cases ev)
  case (Connection ec sock)
  with assms show ?thesis
    by (auto split: ctl.splits prod.splits dest!: perform_running)
next
  case (Resume i e)
  with assms show ?thesis by (auto split: if_splits prod.splits ctl.splits)
qed

lemma serve_step_session:
  assumes "serve limit loop bs session st ev = (as, st')"
    and "i < length (running st)" and "running st ! i = (sock, c)"
  shows "does i as = fst (drive session c (resumes i [ev]))
    \<and> running st' ! i = (sock, snd (drive session c (resumes i [ev])))"
proof (cases ev)
  case (Connection ec s)
  with assms show ?thesis
    by (cases "listener st") (auto simp: nth_append split: prod.splits dest!: perform_running)
next
  case (Resume j e)
  with assms show ?thesis
    by (cases c) (auto simp: nth_list_update split: if_splits prod.splits ctl.splits)
qed

text \<open>A session sees exactly its own completions: what the other sessions and the accept loop do in
  between has no influence on it.\<close>

lemma resumes_append [simp]: "resumes i (es @ fs) = resumes i es @ resumes i fs"
  by (induction es rule: resumes.induct) auto

lemma serve_session:
  assumes "steps (serve limit loop bs session) st es = (as, st')"
    and "i < length (running st)" and "running st ! i = (sock, c)"
  shows "does i as = fst (drive session c (resumes i es))
    \<and> i < length (running st') \<and> running st' ! i = (sock, snd (drive session c (resumes i es)))"
  using assms
proof (induction es arbitrary: st as c)
  case Nil
  then show ?case by simp
next
  case (Cons ev es)
  obtain as1 st1 where s: "serve limit loop bs session st ev = (as1, st1)" by fastforce
  obtain as2 where r: "steps (serve limit loop bs session) st1 es = (as2, st')" and as: "as = as1 @ as2"
    using Cons.prems(1) s by (auto simp del: serve.simps split: prod.splits)
  note one = serve_step_session [OF s Cons.prems(2,3)]
  have len: "i < length (running st1)" using serve_step_running [OF s] Cons.prems(2) by simp
  note IH = Cons.IH [OF r len one [THEN conjunct2]]
  have "resumes i (ev # es) = resumes i [ev] @ resumes i es" by (cases ev) auto
  with one IH as show ?case by (simp add: drive_append case_prod_beta)
qed

lemma serve_unborn:
  assumes "steps (serve limit loop bs session) st es = (as, st')"
  shows "length (running st) \<le> length (running st') \<and> (\<forall>i \<ge> length (running st'). does i as = [])"
  using assms
proof (induction es arbitrary: st as)
  case Nil
  then show ?case by simp
next
  case (Cons ev es)
  obtain as1 st1 where s: "serve limit loop bs session st ev = (as1, st1)" by fastforce
  obtain as2 where r: "steps (serve limit loop bs session) st1 es = (as2, st')" and as: "as = as1 @ as2"
    using Cons.prems(1) s by (auto simp del: serve.simps split: prod.splits)
  from serve_step_running [OF s] Cons.IH [OF r] as show ?case by auto
qed

text \<open>The interface: an accept loop that spawns a session for an accepted connection and accepts again.\<close>

locale accept_program =
  fixes limit :: "nat option"
    and loop :: "(unit, error_code \<times> 'sock, 'sock accept_op, unit) body"
    and begin_session :: "'a list \<times> ('s, unit) ctl"
    and session :: "('s, 'e, 'a, unit) body"
  assumes accepts: "loop () (Success, sock) = ([CoSpawn sock, AsyncAccept], Suspended ())"
begin

lemma connection_served:
  assumes "steps (serve limit loop begin_session session) st0 es = (as, st)" and "listener st = Suspended ()"
    and "steps (serve limit loop begin_session session) st (Connection Success sock # fs) = (bs, st')"
  shows "does (length (running st)) (as @ bs) =
      fst begin_session @ fst (drive session (snd begin_session) (resumes (length (running st)) fs))
    \<and> length (running st) < length (running st')
    \<and> running st' ! length (running st) = (sock, snd (drive session (snd begin_session) (resumes (length (running st)) fs)))"
proof -
  let ?i = "length (running st)"
  obtain as1 st1 where s: "serve limit loop begin_session session st (Connection Success sock) = (as1, st1)"
    and as1: "does ?i as1 = fst begin_session" and st1: "running st1 = running st @ [(sock, snd begin_session)]"
    using assms(2) accepts [of sock] by (auto simp: Cons_eq_append_conv split: prod.splits)
  then obtain as2 where r: "steps (serve limit loop begin_session session) st1 fs = (as2, st')" and bs: "bs = as1 @ as2"
    using assms(3) by (auto simp del: serve.simps split: prod.splits)
  have "does ?i as = []" using serve_unborn [OF assms(1)] by simp
  with serve_session [OF r, of ?i sock "snd begin_session"] as1 bs st1 show ?thesis by simp
qed

end

interpretation coro_prog: accept_program None server coro_start coro_session
  by unfold_locales (simp add: server_def)

interpretation tuple_prog: accept_program None server coro_start tuple_session
  by unfold_locales (simp add: server_def)

interpretation timeout_prog: accept_program "Some 60" server "(map with_limit (fst coro_start), snd coro_start)" timeout_session
  by unfold_locales (simp add: server_def)

interpretation corosio_prog: accept_program None corosio_server coro_start handle_connection
  by unfold_locales (simp add: corosio_server_def)

interpretation http_prog: accept_program None server http_start http_session
  by unfold_locales (simp add: server_def)

interpretation json_prog: accept_program None server json_start "json_session respond" for respond
  by unfold_locales (simp add: server_def)

section \<open>Blocking servers\<close>

text \<open>\<open>echo_sync.cpp\<close>: the sessions run inside the accept loop, one after the other. No exception is
  caught: those of \<open>accept\<close> and of \<open>write\<close> leave \<open>main\<close>, which terminates the program (\<open>Threw\<close>).\<close>

datatype sync_state = SyncAccept | SyncServe echo_state

datatype 'sock sync_event = SyncAccepted error_code 'sock | SyncStream stream_event

datatype sync_action = CallAccept | SyncOp stream_op

definition sync_begin :: "sync_action list \<times> (sync_state, unit) ctl" where
  "sync_begin = ([SyncOp (AsyncReadSome Peer echo_buffer)], Suspended (SyncServe AtRead))"

fun sync_server :: "(sync_state, 'sock sync_event, sync_action, unit) body" where
  "sync_server SyncAccept (SyncAccepted ec sock) =
     (if ec \<noteq> Success then ([], Threw (SystemError ec)) else sync_begin)"
| "sync_server (SyncServe s) (SyncStream e) =
     (case sync_session s e of
        (ops, Suspended s') \<Rightarrow> (map SyncOp ops, Suspended (SyncServe s'))
      | (ops, Returned _) \<Rightarrow> (map SyncOp ops @ [CallAccept], Suspended SyncAccept)
      | (ops, Threw x) \<Rightarrow> (map SyncOp ops, Threw x))"
| "sync_server s e = ([], Suspended s)"

text \<open>\<open>echo_sync_threaded.cpp\<close>: \<open>main\<close> accepts and starts a detached thread for every session. An
  exception that leaves a thread, or \<open>main\<close>, terminates the program: the result is \<open>Inl\<close>.\<close>

fun first_thrown :: "('sock \<times> ('s, unit) ctl) list \<Rightarrow> exn option" where
  "first_thrown [] = None"
| "first_thrown ((sock, Threw x) # ss) = Some x"
| "first_thrown (_ # ss) = first_thrown ss"

definition escaped :: "('s, 'sock) program \<Rightarrow> exn option" where
  "escaped st = (case listener st of Threw x \<Rightarrow> Some x | _ \<Rightarrow> first_thrown (running st))"

definition sync_threaded_step ::
  "(exn + (echo_state, 'sock) program, ('sock, stream_event) prog_event, ('sock, stream_op) prog_action) stepper" where
  "sync_threaded_step p ev =
     (case p of
        Inl x \<Rightarrow> ([], Inl x)
      | Inr st \<Rightarrow>
          (case serve None server coro_start sync_threaded_session st ev of
             (as, st') \<Rightarrow> (as, case escaped st' of Some x \<Rightarrow> Inl x | None \<Rightarrow> Inr st')))"

section \<open>Starting threads\<close>

text \<open>\<open>echo_coro_threaded.cpp\<close>, \<open>echo_corosio_threaded.cpp\<close>: after \<open>reserve(hardware_concurrency())\<close>, the
  loop \<open>for (i = 0; i < threads.capacity(); ++i) threads.emplace_back(...)\<close>. A vector is its size and its
  capacity; how the capacity grows when it is exhausted is up to the library (\<open>grow\<close>). The capacity
  is read again in every round, so that the loop would not end if the vector grew.\<close>

definition emplace_back :: "(nat \<Rightarrow> nat) \<Rightarrow> nat \<times> nat \<Rightarrow> nat \<times> nat" where
  "emplace_back grow v = (case v of (sz, cap) \<Rightarrow> (sz + 1, if sz < cap then cap else grow cap))"

partial_function (option) start_loop :: "(nat \<Rightarrow> nat) \<Rightarrow> nat \<Rightarrow> nat \<times> nat \<Rightarrow> (nat \<times> nat) option" where
  "start_loop grow i v = (if i < snd v then start_loop grow (i + 1) (emplace_back grow v) else Some v)"

text \<open>The threads that run the context, \<open>main\<close> included; \<open>reserve\<close> is the capacity the library provides.\<close>

definition threaded_main :: "(nat \<Rightarrow> nat) \<Rightarrow> (nat \<Rightarrow> nat) \<Rightarrow> nat \<Rightarrow> nat option" where
  "threaded_main reserve grow hardware_concurrency =
     map_option (\<lambda>v. fst v + 1) (start_loop grow 0 (0, reserve hardware_concurrency))"

lemma start_loop_ends:
  assumes "i \<le> cap"
  shows "start_loop grow i (i, cap) = Some (cap, cap)"
  using assms
proof (induction "cap - i" arbitrary: i)
  case 0
  then show ?case by (subst start_loop.simps) simp
next
  case (Suc n)
  then show ?case by (subst start_loop.simps) (simp add: emplace_back_def)
qed

section \<open>Facts used by the properties\<close>

lemma serve_accept_error:
  "listener st = Suspended () \<Longrightarrow> ec \<noteq> Success \<Longrightarrow>
   serve limit server bs session st (Connection ec sock) = ([], st\<lparr>listener := Threw (SystemError ec)\<rparr>)"
  by (simp add: server_def)

text \<open>Once the accept loop has ended no session is added.\<close>

lemma serve_no_more:
  assumes "steps (serve limit loop bs session) st es = (as, st')" and "finished (listener st)"
  shows "length (running st') = length (running st) \<and> finished (listener st')"
  by (rule steps_invariant [OF assms(1), where I = "\<lambda>s. length (running s) = length (running st) \<and> finished (listener s)"])
     (use assms(2) in \<open>auto elim!: serve.elims split: ctl.splits if_splits prod.splits\<close>)

lemma first_thrown_exists: "(sock, Threw x) \<in> set ss \<Longrightarrow> \<exists>y. first_thrown ss = Some y"
  by (induction ss rule: first_thrown.induct) auto

lemma escaped_thrown: "(sock, Threw x) \<in> set (running st) \<Longrightarrow> \<exists>y. escaped st = Some y"
  by (auto simp: escaped_def split: ctl.splits dest: first_thrown_exists)

lemma sync_threaded_stuck: "steps sync_threaded_step (Inl x) es = ([], Inl x)"
  by (induction es) (auto simp: sync_threaded_step_def)

lemma json_run:
  assumes "drive (json_session respond) (Suspended JsonRead)
      (concat (map (\<lambda>r. [RequestRead Success r, ResponseWritten Success]) rs)) = (as, c)"
  shows "as = concat (map (\<lambda>r. [WriteResponse (respond r), ReadRequest]) rs) \<and> c = Suspended JsonRead"
  using assms by (induction rs arbitrary: as c) (auto split: prod.splits)

subsection \<open>The validator\<close>

text \<open>The request an event delivers, if it delivers one, and the responses in a list of actions.\<close>

fun delivered :: "('sch, 'sock) validator \<Rightarrow> ('sock, val_event) prog_event \<Rightarrow> (string \<times> string) list" where
  "delivered v (Resume i (ValRead ec target body)) =
     (if i < length (running (val_program v)) \<and> snd (running (val_program v) ! i) = Suspended JsonRead \<and> ec = Success
      then [(target, body)] else [])"
| "delivered v _ = []"

fun deliveries :: "('j, 'sch) json_lib \<Rightarrow> ('sch, 'sock) validator \<Rightarrow> ('sock, val_event) prog_event list \<Rightarrow> (string \<times> string) list" where
  "deliveries J v [] = []"
| "deliveries J v (ev # es) = delivered v ev @ deliveries J (snd (validator_program J v ev)) es"

fun responses :: "('sock, json_action) prog_action list \<Rightarrow> response list" where
  "responses [] = []"
| "responses (Do i (WriteResponse r) # as) = r # responses as"
| "responses (_ # as) = responses as"

lemma responses_append [simp]: "responses (as @ bs) = responses as @ responses bs"
  by (induction as rule: responses.induct) auto

lemma perform_no_response: "perform limit json_start ops p = (as, p') \<Longrightarrow> responses as = []"
proof (induction ops arbitrary: p as p' rule: spawned.induct)
  case (2 sock ops)
  then show ?case by (fastforce simp: json_start_def split: prod.splits)
qed (auto split: prod.splits)

text \<open>The requests that are answered.\<close>

fun answered :: "(exn + response) list \<Rightarrow> response list" where
  "answered [] = []"
| "answered (Inr r # rs) = r # answered rs"
| "answered (Inl x # rs) = answered rs"

lemma answered_append [simp]: "answered (rs @ rs') = answered rs @ answered rs'"
  by (induction rs rule: answered.induct) auto

lemma validator_server_append:
  "validator_server J schema (xs @ ys) =
     (case validator_server J schema xs of (rs, s) \<Rightarrow> (case validator_server J s ys of (rs', s') \<Rightarrow> (rs @ rs', s')))"
  by (induction xs arbitrary: schema) (auto split: prod.splits)

lemma validator_session_one:
  "validator_session J schema s e = (schema', as, c) \<Longrightarrow>
   (responses (map (Do i) as), schema') = map_prod answered id
     (validator_server J schema (case e of ValRead ec target body \<Rightarrow>
       if s = JsonRead \<and> ec = Success then [(target, body)] else [] | _ \<Rightarrow> []))"
  by (cases s; cases e) (auto split: if_splits prod.splits sum.splits)

lemma validator_step:
  assumes "validator_program J v ev = (as, v')"
  shows "(responses as, shared_schema v') = map_prod answered id (validator_server J (shared_schema v) (delivered v ev))"
proof (cases ev)
  case (Connection ec sock)
  with assms show ?thesis
    by (auto split: ctl.splits prod.splits dest: perform_no_response)
next
  case (Resume i e)
  show ?thesis
  proof (cases "\<exists>sock s. i < length (running (val_program v)) \<and> running (val_program v) ! i = (sock, Suspended s)")
    case True
    then obtain sock s where s: "i < length (running (val_program v))" "running (val_program v) ! i = (sock, Suspended s)" by blast
    obtain schema' as1 c where o: "validator_session J (shared_schema v) s e = (schema', as1, c)" by (metis prod_cases3)
    have "as = map (Do i) as1" "shared_schema v' = schema'" using assms Resume s o by auto
    with validator_session_one [OF o, of i] s Resume show ?thesis by (cases e) auto
  next
    case False
    with assms Resume show ?thesis by (cases e) (auto split: if_splits prod.splits ctl.splits)
  qed
qed

section \<open>Properties\<close>


text \<open>A library whose documents are strings, and whose schemas accept everything.\<close>

definition echo_lib :: "(string, string) json_lib" where
  "echo_lib = \<lparr>json_parse = Inr, make_schema = Inr, schema_validate = (\<lambda>sch j. Inr j), json_pretty = Inr\<rparr>"


text \<open>C18: The whole program \<open>echo_coro.cpp\<close>. As long as the accept loop runs, each accepted connection gets
  its own session, and whatever the accept loop and the other sessions do in between, that session
  sends on its socket exactly the bytes received there, in order, and its state is the one a single
  session would have reached.\<close>

theorem coro_program_exact:
  assumes "steps coro_program serve_start es = (as, st)" and "listener st = Suspended ()"
    and "steps coro_program st (Connection Success sock # fs) = (bs, st')"
    and "answers any_error True (resumes (length (running st)) fs)"
  shows "sent (does (length (running st)) (as @ bs)) = received (resumes (length (running st)) fs)
    \<and> running st' ! length (running st)
        = (sock, snd (drive coro_session (snd coro_start) (resumes (length (running st)) fs)))"
proof -
  note served = coro_prog.connection_served [OF assms(1) [unfolded coro_program_def] assms(2)
      assms(3) [unfolded coro_program_def]]
  obtain ops c where r: "drive coro_session (Suspended AtRead) (resumes (length (running st)) fs) = (ops, c)"
    by fastforce
  from coro.relay_sent [OF refl assms(4) r] served r show ?thesis by (simp add: coro_start_def)
qed

theorem coro_program_exact_witness:
  "sent (does 1 (fst (steps coro_program serve_start [Connection Success ''a'', Resume 0 (ReadDone Success [1])])
      @ fst (steps coro_program (snd (steps coro_program serve_start [Connection Success ''a'', Resume 0 (ReadDone Success [1])]))
        [Connection Success ''b'', Resume 1 (ReadDone Success [7]), Resume 0 (WriteDone Success 1),
         Resume 1 (WriteDone Success 1), Resume 1 (ReadDone Success [8])]))) = [7, 8]"
proof -
  let ?es = "[Connection Success ''a'', Resume 0 (ReadDone Success [1])]"
  let ?fs = "[Resume 1 (ReadDone Success [7]), Resume 0 (WriteDone Success 1),
         Resume 1 (WriteDone Success 1), Resume 1 (ReadDone Success [8])]"
  obtain as st where r: "steps coro_program serve_start ?es = (as, st)" by fastforce
  then have st: "listener st = Suspended ()" "length (running st) = 1"
    by (auto simp: coro_program_def serve_start_def coro_start_def server_def)
  obtain bs st' where r': "steps coro_program st (Connection Success ''b'' # ?fs) = (bs, st')" by fastforce
  have "answers any_error True (resumes (length (running st)) ?fs)" using st by simp
  from coro_program_exact [OF r st(1) r' this] st(2) have "sent (does 1 (as @ bs)) = [7, 8]" by simp
  with r r' show ?thesis by (simp only: fst_conv snd_conv)
qed

text \<open>An error of \<open>async_accept\<close> ends the accept loop of \<open>echo_coro.cpp\<close> but no session: every session
  goes on with its own completions as before, no session is added, and the program ends exactly
  when the last of the sessions has ended.\<close>

lemma accept_error_isolated:
  assumes "listener st = Suspended ()" and "ec \<noteq> Success"
    and "steps coro_program st (Connection ec sock # fs) = (as, st')"
  shows "length (running st') = length (running st)
    \<and> (\<forall>i < length (running st). running st' ! i
         = (fst (running st ! i), snd (drive coro_session (snd (running st ! i)) (resumes i fs))))
    \<and> (serve_done st' \<longleftrightarrow>
         (\<forall>i < length (running st). finished (snd (drive coro_session (snd (running st ! i)) (resumes i fs)))))"
proof -
  let ?st = "st\<lparr>listener := Threw (SystemError ec)\<rparr>"
  have r: "steps (serve None server coro_start coro_session) ?st fs = (as, st')"
    using assms(3) by (simp add: coro_program_def serve_accept_error [OF assms(1,2)] del: serve.simps split: prod.splits)
  have n: "length (running st') = length (running st)" "finished (listener st')"
    using serve_no_more [OF r] by simp_all
  have s: "running st' ! i = (fst (running st ! i), snd (drive coro_session (snd (running st ! i)) (resumes i fs)))"
    if "i < length (running st)" for i
    using serve_session [OF r, of i "fst (running st ! i)" "snd (running st ! i)"] that by simp
  have "serve_done st' \<longleftrightarrow> (\<forall>i < length (running st). finished (snd (running st' ! i)))"
    using n by (auto simp: serve_done_def all_set_conv_all_nth case_prod_beta)
  with n s show ?thesis by auto
qed

text \<open>C33: A write error of one connection. In \<open>echo_coro.cpp\<close> it ends that session only. In the blocking
  servers it terminates the program: in \<open>echo_sync.cpp\<close> the exception leaves \<open>main\<close>, in
  \<open>echo_sync_threaded.cpp\<close> it leaves the thread of the session, and all other sessions are lost.\<close>

theorem write_error_scope:
  assumes "ec \<noteq> Success" and "i < length (running st)" and "running st ! i = (sock, Suspended AtWrite)"
  shows "coro_program st (Resume i (WriteDone ec n))
       = ([], st\<lparr>running := (running st)[i := (sock, Threw (SystemError ec))]\<rparr>)
    \<and> sync_server (SyncServe AtWrite) (SyncStream (WriteDone ec n) :: 'sock sync_event) = ([], Threw (SystemError ec))
    \<and> (\<exists>x. \<forall>es. steps sync_threaded_step (Inr st) (Resume i (WriteDone ec n) # es) = ([], Inl x))"
proof (intro conjI)
  show "coro_program st (Resume i (WriteDone ec n))
       = ([], st\<lparr>running := (running st)[i := (sock, Threw (SystemError ec))]\<rparr>)"
    and "sync_server (SyncServe AtWrite) (SyncStream (WriteDone ec n) :: 'sock sync_event) = ([], Threw (SystemError ec))"
    using assms by (simp_all add: coro_program_def)
  let ?st = "st\<lparr>running := (running st)[i := (sock, Threw (SystemError ec))]\<rparr>"
  have one: "serve None server coro_start sync_threaded_session st (Resume i (WriteDone ec n)) = ([], ?st)"
    using assms by (simp add: sync_threaded_session_def)
  have "(sock, Threw (SystemError ec)) \<in> set (running ?st)" using assms(2) by (simp add: set_update_memI)
  from escaped_thrown [OF this] obtain x where x: "escaped ?st = Some x" ..
  show "\<exists>x. \<forall>es. steps sync_threaded_step (Inr st) (Resume i (WriteDone ec n) # es) = ([], Inl x)"
  proof (intro exI allI)
    fix es
    have "sync_threaded_step (Inr st) (Resume i (WriteDone ec n)) = ([], Inl x)"
      using one x by (simp add: sync_threaded_step_def del: serve.simps)
    then show "steps sync_threaded_step (Inr st) (Resume i (WriteDone ec n) # es) = ([], Inl x)"
      by (simp add: sync_threaded_stuck)
  qed
qed

theorem write_error_scope_witness:
  "\<exists>x. steps sync_threaded_step (Inr \<lparr>listener = Suspended (), running = [(''a'', Suspended AtWrite), (''b'', Suspended AtRead)]\<rparr>)
     [Resume 0 (WriteDone (OtherError 104) 0), Resume 1 (ReadDone Success [7])] = ([], Inl x)"
proof -
  let ?st = "\<lparr>listener = Suspended (), running = [(''a'', Suspended AtWrite), (''b'', Suspended AtRead)]\<rparr>
    :: (echo_state, string) program"
  have "OtherError 104 \<noteq> Success" "0 < length (running ?st)" "running ?st ! 0 = (''a'', Suspended AtWrite)" by simp_all
  from write_error_scope [OF this, of 0] show ?thesis by blast
qed

text \<open>The loop that starts the threads of \<open>echo_coro_threaded.cpp\<close> and \<open>echo_corosio_threaded.cpp\<close> reads
  \<open>threads.capacity()\<close> in every round. It ends, however the vector would grow, because no round
  exceeds the reserved capacity; the context is then run by at least \<open>hardware_concurrency()\<close> threads
  besides \<open>main\<close>.\<close>

lemma threaded_main_ends:
  assumes "\<And>n. n \<le> reserve n"
  shows "\<exists>n. threaded_main reserve grow hc = Some n \<and> hc < n \<and> n = reserve hc + 1"
  using assms [of hc] by (simp add: threaded_main_def start_loop_ends)

text \<open>The pretty-printing servers answer the requests of a connection one by one and in order, each
  with its own response, whatever other connections do.\<close>

lemma json_program_responses:
  assumes "steps (pretty_program parse pretty) serve_start es = (as, st)" and "listener st = Suspended ()"
    and "steps (pretty_program parse pretty) st (Connection Success sock # fs) = (bs, st')"
    and "resumes (length (running st)) fs = concat (map (\<lambda>r. [RequestRead Success r, ResponseWritten Success]) rs)"
  shows "does (length (running st)) (as @ bs)
      = ReadRequest # concat (map (\<lambda>r. [WriteResponse (pretty_response parse pretty r), ReadRequest]) rs)"
proof -
  obtain ops c where r: "drive (json_session (pretty_response parse pretty)) (Suspended JsonRead)
      (concat (map (\<lambda>r. [RequestRead Success r, ResponseWritten Success]) rs)) = (ops, c)"
    by fastforce
  from json_prog.connection_served [OF assms(1) [unfolded pretty_program_def] assms(2)
      assms(3) [unfolded pretty_program_def]] assms(4) json_run [OF r] r
  show ?thesis by (simp add: json_start_def)
qed

end
