(* ===== verification/Context_Pool.thy ===== *)
theory Context_Pool
  imports Server_Programs
begin

text \<open>
  \<open>echo/echo_coro_context_pool.cpp\<close> as a whole: the accept loop on the main context and one context with a
  thread of its own per processor. A session is spawned on the context chosen before the accept; its
  first step and all later ones are run by the thread of that context. Accept loop and sessions are composed by
  \<open>serve\<close> (theory \<open>Server_Programs\<close>); each action carries the context that performs it.

  The vector of threads is a local variable of the accept loop. When an error leaves the loop its
  elements are destroyed while their threads are joinable, which calls \<open>std::terminate\<close>.
\<close>

section \<open>The program\<close>

text \<open>A session: posted to its context, or running.\<close>

datatype pool_task = Posted | PoolEcho echo_state

datatype pool_event = PoolStart | PoolStream stream_event

fun pool_session :: "(pool_task, pool_event, stream_op, unit) body" where
  "pool_session Posted PoolStart = (fst coro_start, Suspended (PoolEcho AtRead))"
| "pool_session (PoolEcho s) (PoolStream e) =
     (case coro_session s e of
        (ops, Suspended s') \<Rightarrow> (ops, Suspended (PoolEcho s'))
      | (ops, Returned r) \<Rightarrow> (ops, Returned r)
      | (ops, Threw x) \<Rightarrow> (ops, Threw x))"
| "pool_session s e = ([], Suspended s)"

text \<open>\<open>contexts\<close>: the context of every session; \<open>chosen\<close>: that of the next one.\<close>

record 'sock pool =
  pool_base :: "(pool_task, 'sock) program"
  contexts :: "size_t list"
  chosen :: size_t
  terminated :: bool

datatype place = MainContext | PoolContext size_t

type_synonym 'sock context_pool_step =
  "('sock pool, ('sock, pool_event) prog_event, place \<times> ('sock, stream_op) prog_action) stepper"

text \<open>\<open>threads.size()\<close> is \<open>n\<close>. Choosing a context with \<open>n = 0\<close> is undefined behaviour (\<open>None\<close>).\<close>

definition pool_start :: "size_t \<Rightarrow> 'sock pool option" where
  "pool_start n =
     map_option (\<lambda>ex. \<lparr>pool_base = serve_start, contexts = [], chosen = ex, terminated = False\<rparr>) (pool_pick n 0)"

definition pool_serve :: "(pool_task, 'sock, pool_event, stream_op) program_step" where
  "pool_serve = serve None server ([], Suspended Posted) pool_session"

text \<open>The accepted socket is handed over to the chosen context: what \<open>release()\<close> and \<open>assign()\<close> answer is a
  parameter. Both throw on an error, which leaves the loop like an error of \<open>async_accept\<close>.\<close>

type_synonym 'sock handover = "'sock \<Rightarrow> error_code \<times> error_code"

definition handover_error :: "'sock handover \<Rightarrow> error_code \<Rightarrow> 'sock \<Rightarrow> error_code" where
  "handover_error H ec sock =
     (if ec \<noteq> Success then ec
      else (case H sock of (rel, asg) \<Rightarrow> if rel \<noteq> Success then rel else asg))"

fun pool_program :: "'sock handover \<Rightarrow> size_t \<Rightarrow> 'sock context_pool_step" where
  "pool_program H n st (Connection ec sock) =
     (if terminated st then ([], st)
      else (case pool_serve (pool_base st) (Connection (handover_error H ec sock) sock) of
              (as, base) \<Rightarrow>
                (map (Pair MainContext) as,
                 if finished (listener base) then st\<lparr>pool_base := base, terminated := True\<rparr>
                 else st\<lparr>pool_base := base, contexts := contexts st @ [chosen st],
                         chosen := (case pool_pick n (of_nat (length (contexts st)) + 1) of Some ex \<Rightarrow> ex | None \<Rightarrow> chosen st)\<rparr>)))"
| "pool_program H n st (Resume j e) =
     (if terminated st \<or> length (contexts st) \<le> j then ([], st)
      else (case pool_serve (pool_base st) (Resume j e) of
              (as, base) \<Rightarrow> (map (Pair (PoolContext (contexts st ! j))) as, st\<lparr>pool_base := base\<rparr>)))"

section \<open>Contexts\<close>

text \<open>Sessions go round the contexts; the counter is \<open>i\<close> of the source, which wraps around after \<open>2 ^ 64\<close>
  connections.\<close>

definition pool_ok :: "size_t \<Rightarrow> 'sock pool \<Rightarrow> bool" where
  "pool_ok n st \<longleftrightarrow> n \<noteq> 0 \<and> length (contexts st) = length (running (pool_base st))
     \<and> (\<forall>j < length (contexts st). contexts st ! j = of_nat j mod n) \<and> chosen st = of_nat (length (contexts st)) mod n
     \<and> (terminated st \<longleftrightarrow> finished (listener (pool_base st)))"

lemma pool_start_ok: "pool_start n = Some st \<Longrightarrow> pool_ok n st"
  by (auto simp: pool_start_def pool_pick_def pool_ok_def serve_start_def split: if_splits)

lemma serve_connection:
  assumes "pool_serve st (Connection ec sock) = (as, st')" and "\<not> finished (listener st)"
  shows "running st' = (if ec = Success then running st @ [(sock, Suspended Posted)] else running st)
    \<and> (finished (listener st') \<longleftrightarrow> ec \<noteq> Success)
    \<and> (ec = Success \<longrightarrow> as = [Spawn (length (running st)) sock None, Listen])"
  using assms by (cases "listener st") (auto simp: pool_serve_def server_def)

lemma serve_resume:
  assumes "pool_serve st (Resume j e) = (as, st')"
  shows "length (running st') = length (running st) \<and> listener st' = listener st \<and> (\<exists>ops. as = map (Do j) ops)"
  using assms by (auto simp: pool_serve_def split: if_splits prod.splits ctl.splits)

lemma pool_ok_step:
  assumes "pool_ok n st" and "pool_program H n st ev = (as, st')"
  shows "pool_ok n st'"
proof (cases ev)
  case (Connection ec sock)
  show ?thesis
  proof (cases "terminated st")
    case False
    obtain bs base where s: "pool_serve (pool_base st) (Connection (handover_error H ec sock) sock) = (bs, base)" by fastforce
    have "\<not> finished (listener (pool_base st))" using False assms(1) by (simp add: pool_ok_def)
    note c = serve_connection [OF s this]
    show ?thesis
    proof (cases "handover_error H ec sock = Success")
      case True
      then have "st' = st\<lparr>pool_base := base, contexts := contexts st @ [chosen st],
          chosen := (of_nat (length (contexts st)) + 1) mod n\<rparr>"
        using assms False Connection s c by (auto simp: pool_pick_def pool_ok_def)
      with True c False assms(1) show ?thesis by (auto simp: pool_ok_def nth_append less_Suc_eq ac_simps)
    next
      case err: False
      then have "st' = st\<lparr>pool_base := base, terminated := True\<rparr>" using assms(2) False Connection s c by auto
      with err c False assms(1) show ?thesis by (auto simp: pool_ok_def)
    qed
  qed (use assms Connection in simp)
next
  case (Resume j e)
  with assms show ?thesis by (auto simp: pool_ok_def split: prod.splits if_splits dest!: serve_resume)
qed

lemma pool_refines_serve:
  assumes "steps (pool_program H n) st es = (as, st')" and "pool_ok n st" and "\<not> terminated st"
    and "\<forall>ec sock. Connection ec sock \<in> set es \<longrightarrow> handover_error H ec sock = Success"
  shows "steps pool_serve (pool_base st) es = (map snd as, pool_base st') \<and> pool_ok n st' \<and> \<not> terminated st'"
  using assms
proof (induction es arbitrary: st as)
  case (Cons ev es)
  obtain as1 st1 where s: "pool_program H n st ev = (as1, st1)" by fastforce
  obtain as2 where r: "steps (pool_program H n) st1 es = (as2, st')" "as = as1 @ as2"
    using Cons.prems(1) s by (auto simp del: pool_program.simps split: prod.splits)
  have "pool_serve (pool_base st) ev = (map snd as1, pool_base st1) \<and> \<not> terminated st1"
  proof (cases ev)
    case (Connection ec sock)
    have "handover_error H ec sock = Success" using Cons.prems(4) Connection by simp
    then have ok: "handover_error H ec sock = Success" "ec = Success" by (auto simp: handover_error_def split: if_splits)
    obtain bs base where b: "pool_serve (pool_base st) (Connection Success sock) = (bs, base)" by fastforce
    have "\<not> finished (listener (pool_base st))" using Cons.prems(2,3) by (simp add: pool_ok_def)
    from serve_connection [OF b this] Cons.prems(3) Connection ok s b show ?thesis by (auto simp: o_def)
  next
    case (Resume j e)
    obtain bs base where b: "pool_serve (pool_base st) (Resume j e) = (bs, base)" by fastforce
    show ?thesis
    proof (cases "j < length (contexts st)")
      case True
      with s b Resume Cons.prems(3) show ?thesis by (auto simp: o_def)
    next
      case False
      then have "pool_serve (pool_base st) (Resume j e) = ([], pool_base st)"
        using Cons.prems(2) by (simp add: pool_ok_def pool_serve_def)
      with False s Resume Cons.prems(3) show ?thesis by auto
    qed
  qed
  moreover from this have "pool_ok n st1" "\<not> terminated st1" using pool_ok_step [OF Cons.prems(2) s] by simp_all
  moreover have "\<forall>ec sock. Connection ec sock \<in> set es \<longrightarrow> handover_error H ec sock = Success" using Cons.prems(4) by auto
  ultimately show ?case using Cons.IH [OF r(1)] r(2) by simp
qed simp

text \<open>Sessions run on their own context.\<close>

definition placed :: "size_t \<Rightarrow> place \<times> ('sock, stream_op) prog_action \<Rightarrow> bool" where
  "placed n a = (case a of (pl, Do j op) \<Rightarrow> pl = PoolContext (of_nat j mod n) | (pl, _) \<Rightarrow> pl = MainContext)"

lemma pool_step_placed:
  assumes "pool_ok n st" and "pool_program H n st ev = (as, st')"
  shows "\<forall>a \<in> set as. placed n a"
proof (cases ev)
  case (Connection ec sock)
  have "\<forall>a \<in> set bs. \<forall>j op. a \<noteq> Do j op" if "pool_serve (pool_base st) (Connection ec' sock) = (bs, base)" for ec' bs base
    using that by (cases "listener (pool_base st)") (auto simp: pool_serve_def server_def split: if_splits)
  with assms(2) Connection show ?thesis
    by (fastforce simp: placed_def split: if_splits prod.splits prog_action.splits)
next
  case (Resume j e)
  with assms show ?thesis
    by (auto simp: placed_def pool_ok_def split: if_splits prod.splits dest!: serve_resume)
qed

lemma pool_run_placed:
  assumes "steps (pool_program H n) st es = (as, st')" and "pool_ok n st"
  shows "\<forall>a \<in> set as. placed n a"
  using assms
proof (induction es arbitrary: st as)
  case (Cons ev es)
  obtain as1 st1 where s: "pool_program H n st ev = (as1, st1)" by fastforce
  obtain as2 where r: "steps (pool_program H n) st1 es = (as2, st')" "as = as1 @ as2"
    using Cons.prems(1) s by (auto simp del: pool_program.simps split: prod.splits)
  from pool_step_placed [OF Cons.prems(2) s] Cons.IH [OF r(1) pool_ok_step [OF Cons.prems(2) s]] r(2) show ?case by auto
qed simp

section \<open>Sessions\<close>

fun pool_ctl :: "(echo_state, unit) ctl \<Rightarrow> (pool_task, unit) ctl" where
  "pool_ctl (Suspended s) = Suspended (PoolEcho s)"
| "pool_ctl (Returned r) = Returned r"
| "pool_ctl (Threw x) = Threw x"

lemma pool_session_drive:
  "drive pool_session (pool_ctl c) (map PoolStream es) = (fst (drive coro_session c es), pool_ctl (snd (drive coro_session c es)))"
proof (induction es arbitrary: c)
  case (Cons e es)
  show ?case
  proof (cases c)
    case (Suspended s)
    obtain ops c' where "coro_session s e = (ops, c')" by fastforce
    with Suspended Cons.IH [of c'] show ?thesis by (cases c') (auto split: prod.splits)
  qed simp_all
qed simp

interpretation pool_prog: accept_program None server "([], Suspended Posted)" pool_session
  by unfold_locales (simp add: server_def)

lemma terminated_run:
  assumes "terminated st"
  shows "steps (pool_program H n) st es = ([], st)"
proof (induction es)
  case (Cons e es)
  with assms show ?case by (cases e) auto
qed simp

section \<open>Properties\<close>

text \<open>C24: The server with a pool of contexts. As long as no accept fails and every accepted socket can be handed over to its context, the \<open>j\<close>-th connection (from 0, up to \<open>2 ^ 64\<close>) is served by
  the thread of context \<open>j mod n\<close> only, which performs all its reads and writes, and once that thread has started the session it echoes exactly,
  whatever the other contexts do in between. But one failed accept, or one failed \<open>release\<close> or \<open>assign\<close>, terminates the
  program: no session does anything any more.\<close>

theorem context_pool_sessions:
  fixes es fs gs :: "('sock, pool_event) prog_event list"
  assumes "pool_start n = Some st0"
    and "steps (pool_program H n) st0 es = (as, st)" and "steps (pool_program H n) st (Connection Success sock1 # fs) = (bs, st')"
    and "\<forall>ec sock. Connection ec sock \<in> set (es @ Connection Success sock1 # fs) \<longrightarrow> handover_error H ec sock = Success"
    and "resumes (length (contexts st)) fs = PoolStart # map PoolStream cs" and "answers any_error True cs"
    and "handover_error H ec sock' \<noteq> Success"
  shows "(\<forall>pl j op. (pl, Do j op) \<in> set (as @ bs) \<longrightarrow> pl = PoolContext (of_nat j mod n))
    \<and> sent (does (length (contexts st)) (map snd (as @ bs))) = received cs
    \<and> steps (pool_program H n) st' (Connection ec sock' # gs)
        = ([], st'\<lparr>pool_base := (pool_base st')\<lparr>listener := Threw (SystemError (handover_error H ec sock'))\<rparr>, terminated := True\<rparr>)"
proof -
  have ok: "pool_ok n st0" "\<not> terminated st0" "pool_base st0 = serve_start"
    using assms(1) pool_start_ok by (auto simp: pool_start_def)
  note r1 = pool_refines_serve [OF assms(2) ok(1,2)]
  have s1: "steps pool_serve serve_start es = (map snd as, pool_base st)" and st: "pool_ok n st" "\<not> terminated st"
    using r1 assms(4) ok(3) by auto
  have s2: "steps pool_serve (pool_base st) (Connection Success sock1 # fs) = (map snd bs, pool_base st')"
    and st': "pool_ok n st'" "\<not> terminated st'"
    using pool_refines_serve [OF assms(3) st] assms(4) by auto
  have len: "length (running (pool_base st)) = length (contexts st)" using st(1) by (simp add: pool_ok_def)
  have lis: "\<not> finished (listener (pool_base q))" if "pool_ok n q" "\<not> terminated q" for q :: "'sock pool"
    using that by (simp add: pool_ok_def)
  have susp: "listener (pool_base q) = Suspended ()" if "pool_ok n q" "\<not> terminated q" for q :: "'sock pool"
    using lis [OF that] by (cases "listener (pool_base q)") simp_all
  have "does (length (contexts st)) (map snd (as @ bs)) =
      fst (drive pool_session (Suspended Posted) (PoolStart # map PoolStream cs))"
    using pool_prog.connection_served [OF s1 [unfolded pool_serve_def] susp [OF st] s2 [unfolded pool_serve_def]] len assms(5) by simp
  also have "\<dots> = fst coro_start @ fst (drive coro_session (Suspended AtRead) cs)"
    using pool_session_drive [of "Suspended AtRead" cs] by (simp split: prod.splits)
  finally have "sent (does (length (contexts st)) (map snd (as @ bs))) = sent (fst (drive coro_session (Suspended AtRead) cs))"
    by (simp add: coro_start_def)
  also have "\<dots> = received cs"
    using coro.relay_sent [OF _ assms(6), of AtRead] by (cases "drive coro_session (Suspended AtRead) cs") simp
  finally have e: "sent (does (length (contexts st)) (map snd (as @ bs))) = received cs" .
  have "placed n a" if "a \<in> set (as @ bs)" for a
    using that pool_run_placed [OF assms(2) ok(1)] pool_run_placed [OF assms(3) st(1)] by auto
  then have "\<forall>pl j op. (pl, Do j op) \<in> set (as @ bs) \<longrightarrow> pl = PoolContext (of_nat j mod n)" by (fastforce simp: placed_def)
  moreover have "pool_program H n st' (Connection ec sock')
      = ([], st'\<lparr>pool_base := (pool_base st')\<lparr>listener := Threw (SystemError (handover_error H ec sock'))\<rparr>, terminated := True\<rparr>)"
    using susp [OF st'] st'(2) assms(7) by (simp add: pool_serve_def server_def)
  ultimately show ?thesis using e by (simp add: terminated_run del: pool_program.simps)
qed

theorem context_pool_sessions_witness:
  "\<exists>st0 as st. pool_start 2 = Some st0
    \<and> steps (pool_program (\<lambda>_. (Success, Success)) 2) st0 [Connection Success ''a'', Connection Success ''b'', Resume 1 PoolStart,
        Resume 0 PoolStart, Resume 1 (PoolStream (ReadDone Success [7]))] = (as, st)
    \<and> sent (does 1 (map snd as)) = [7] \<and> (\<forall>pl op. (pl, Do 1 op) \<in> set as \<longrightarrow> pl = PoolContext 1)"
proof -
  let ?es = "[Connection Success ''a''] :: (string, pool_event) prog_event list"
  let ?fs = "[Resume 1 PoolStart, Resume 0 PoolStart, Resume 1 (PoolStream (ReadDone Success [7]))] :: (string, pool_event) prog_event list"
  obtain st0 :: "string pool" where s0: "pool_start 2 = Some st0" by (simp add: pool_start_def pool_pick_def)
  obtain as st where r: "steps (pool_program (\<lambda>_. (Success, Success)) 2) st0 ?es = (as, st)" by fastforce
  obtain bs st' where r2: "steps (pool_program (\<lambda>_. (Success, Success)) 2) st (Connection Success ''b'' # ?fs) = (bs, st')" by fastforce
  have l: "length (contexts st) = 1"
    using r s0 by (auto simp: pool_start_def pool_pick_def pool_serve_def server_def serve_start_def handover_error_def)
  have h: "\<forall>ec sock. Connection ec sock \<in> set (?es @ Connection Success ''b'' # ?fs) \<longrightarrow>
      handover_error (\<lambda>_. (Success, Success)) ec sock = Success"
    "resumes (length (contexts st)) ?fs = PoolStart # map PoolStream [ReadDone Success [7]]"
    "answers any_error True [ReadDone Success [7 :: byte]]" "handover_error (\<lambda>_. (Success, Success)) Eof ''c'' \<noteq> Success"
    using l by (auto simp: handover_error_def)
  note c = context_pool_sessions [OF s0 r r2 h, of "[]"]
  have "sent (does 1 (map snd (as @ bs))) = [7]" using c l by simp
  moreover have "of_nat 1 mod 2 = (1 :: size_t)" by simp
  then have "\<forall>pl op. (pl, Do 1 op) \<in> set (as @ bs) \<longrightarrow> pl = PoolContext 1" using c by metis
  moreover have "steps (pool_program (\<lambda>_. (Success, Success)) 2) st0 (?es @ (Connection Success ''b'' # ?fs)) = (as @ bs, st')"
    by (rule steps_appendI [OF r r2])
  ultimately show ?thesis using s0 unfolding append_Cons append_Nil by blast
qed

end
