(* ===== verification/Program_Equivalence.thy ===== *)
theory Program_Equivalence
  imports Server_Programs
begin

text \<open>
  The echo programs compared as wholes: \<open>echo_coro.cpp\<close>, \<open>echo_coro_tuple.cpp\<close> and the callback program
  \<open>echo_async.cpp\<close>. The interface \<open>session_simulation\<close> lifts a simulation between two session bodies to the programs
  that \<open>serve\<close> builds from them.
\<close>

section \<open>Programs with equivalent sessions\<close>

text \<open>\<open>echo_async.cpp\<close>: the constructor of \<open>server\<close> and the handler of each accept call \<open>do_accept\<close>.\<close>

definition async_program :: "(async_session, 'sock, stream_event, stream_op) program_step" where
  "async_program = serve None do_accept async_start async_complete"

interpretation async_prog: accept_program None do_accept async_start async_complete
  by unfold_locales (simp add: do_accept_def)

definition same_running ::
  "(('s, unit) ctl \<Rightarrow> ('t, unit) ctl \<Rightarrow> bool) \<Rightarrow> ('s, 'sock) program \<Rightarrow> ('t, 'sock) program \<Rightarrow> bool" where
  "same_running R p q \<longleftrightarrow> listener p = listener q \<and> list_all2 (\<lambda>(a, c) (b, d). a = b \<and> R c d) (running p) (running q)"

text \<open>The interface of two session bodies that perform the same operations.\<close>

locale session_simulation =
  fixes begin1 :: "'a list \<times> ('s, unit) ctl" and session1 :: "('s, 'e, 'a, unit) body"
    and begin2 :: "'a list \<times> ('t, unit) ctl" and session2 :: "('t, 'e, 'a, unit) body"
    and R :: "('s, unit) ctl \<Rightarrow> ('t, unit) ctl \<Rightarrow> bool"
  assumes starts: "fst begin1 = fst begin2 \<and> R (snd begin1) (snd begin2)"
    and step: "R (Suspended s) d \<Longrightarrow>
      \<exists>t. d = Suspended t \<and> fst (session1 s e) = fst (session2 t e) \<and> R (snd (session1 s e)) (snd (session2 t e))"
    and ends: "R c d \<Longrightarrow> finished c \<Longrightarrow> finished d"
begin

lemma perform_simulated:
  assumes "same_running R p q"
  shows "fst (perform limit begin1 ops p) = fst (perform limit begin2 ops q)
    \<and> same_running R (snd (perform limit begin1 ops p)) (snd (perform limit begin2 ops q))"
  using assms
proof (induction ops arbitrary: p q rule: spawned.induct)
  case (2 sock ops)
  let ?p = "p\<lparr>running := running p @ [(sock, snd begin1)]\<rparr>" and ?q = "q\<lparr>running := running q @ [(sock, snd begin2)]\<rparr>"
  have "same_running R ?p ?q" using 2(2) starts by (simp add: same_running_def list_all2_appendI)
  moreover have "length (running p) = length (running q)" using 2(2) by (auto simp: same_running_def dest: list_all2_lengthD)
  ultimately show ?case using 2(1) [of ?p ?q] starts by (auto split: prod.splits)
next
  case (3 ops)
  from 3(1) [OF 3(2)] show ?case by (auto split: prod.splits)
qed simp

lemma serve_simulated:
  assumes "same_running R p q" and "\<And>u ec sock. ev = Connection ec sock \<Longrightarrow> l1 u (ec, sock) = l2 u (ec, sock)"
  shows "fst (serve limit l1 begin1 session1 p ev) = fst (serve limit l2 begin2 session2 q ev)
    \<and> same_running R (snd (serve limit l1 begin1 session1 p ev)) (snd (serve limit l2 begin2 session2 q ev))"
proof (cases ev)
  case (Connection ec sock)
  show ?thesis
  proof (cases "listener p")
    case (Suspended u)
    then have u: "listener q = Suspended u" using assms(1) by (simp add: same_running_def)
    obtain ops c where l: "l1 u (ec, sock) = (ops, c)" "l2 u (ec, sock) = (ops, c)"
      using assms(2) [OF Connection, of u] by (cases "l2 u (ec, sock)") auto
    have "same_running R (p\<lparr>listener := c\<rparr>) (q\<lparr>listener := c\<rparr>)" using assms(1) by (simp add: same_running_def)
    from perform_simulated [OF this] Connection Suspended u l show ?thesis by simp
  qed (use assms(1) Connection in \<open>auto simp: same_running_def split: ctl.splits\<close>)
next
  case (Resume i e)
  have len: "length (running p) = length (running q)" using assms(1) by (auto simp: same_running_def dest: list_all2_lengthD)
  show ?thesis
  proof (cases "i < length (running p)")
    case True
    obtain sock c where c: "running p ! i = (sock, c)" by fastforce
    obtain d where d: "running q ! i = (sock, d)" "R c d"
      using assms(1) True c list_all2_nthD [of _ "running p" "running q" i] by (fastforce simp: same_running_def)
    show ?thesis
    proof (cases "finished c")
      case fin: True
      then have "finished d" using d(2) ends by blast
      with fin c d True len Resume assms(1) show ?thesis by (cases c; cases d) auto
    next
      case False
      then obtain s where s: "c = Suspended s" by (cases c) auto
      then obtain t where t: "d = Suspended t" "fst (session1 s e) = fst (session2 t e)"
        "R (snd (session1 s e)) (snd (session2 t e))" using step d(2) by blast
      have "list_all2 (\<lambda>(a, c) (b, d). a = b \<and> R c d) ((running p)[i := (sock, snd (session1 s e))])
          ((running q)[i := (sock, snd (session2 t e))])"
        using assms(1) t(3) by (auto simp: same_running_def intro: list_all2_update_cong)
      with t c d s True len Resume assms(1) show ?thesis by (auto simp: same_running_def split: prod.splits)
    qed
  qed (use assms(1) Resume len in auto)
qed

lemma run_simulated:
  assumes "same_running R p q" and "\<And>u ec sock. Connection ec sock \<in> set es \<Longrightarrow> l1 u (ec, sock) = l2 u (ec, sock)"
  shows "fst (steps (serve limit l1 begin1 session1) p es) = fst (steps (serve limit l2 begin2 session2) q es)
    \<and> same_running R (snd (steps (serve limit l1 begin1 session1) p es)) (snd (steps (serve limit l2 begin2 session2) q es))"
  using assms
proof (induction es arbitrary: p q)
  case (Cons ev es)
  obtain as1 p1 where p1: "serve limit l1 begin1 session1 p ev = (as1, p1)" by fastforce
  obtain as2 q1 where q1: "serve limit l2 begin2 session2 q ev = (as2, q1)" by fastforce
  have "as1 = as2 \<and> same_running R p1 q1"
    using serve_simulated [OF Cons.prems(1), of ev l1 l2 limit] Cons.prems(2) p1 q1 by simp
  with Cons.IH [of p1 q1] Cons.prems(2) p1 q1 show ?case by (auto simp del: serve.simps split: prod.splits)
qed simp

end

definition both_wait :: "('s, unit) ctl \<Rightarrow> ('s, unit) ctl \<Rightarrow> bool" where
  "both_wait c d \<longleftrightarrow> (\<forall>s. c = Suspended s \<longleftrightarrow> d = Suspended s)"

interpretation tuple_coro: session_simulation coro_start tuple_session coro_start coro_session both_wait
proof unfold_locales
  fix s :: echo_state and e d
  assume "both_wait (Suspended s) d"
  then have "d = Suspended s" by (auto simp: both_wait_def)
  with tuple_coro_step [of s e] show "\<exists>t. d = Suspended t \<and> fst (tuple_session s e) = fst (coro_session t e)
      \<and> both_wait (snd (tuple_session s e)) (snd (coro_session t e))" by (auto simp: both_wait_def)
next
  fix c d :: "(echo_state, unit) ctl"
  assume "both_wait c d" "finished c"
  then show "finished d" by (cases d) (auto simp: both_wait_def finished_def)
qed (simp add: both_wait_def)

interpretation async_tuple: session_simulation async_start async_complete coro_start tuple_session
  "\<lambda>c d. async_ok c \<and> abs_ctl c = d"
proof unfold_locales
  show "fst async_start = fst coro_start \<and> async_ok (snd async_start) \<and> abs_ctl (snd async_start) = snd coro_start"
    using async_start_ok by (simp add: coro_start_def)
next
  fix s e d
  assume a: "async_ok (Suspended s) \<and> abs_ctl (Suspended s) = d"
  then obtain h where "owned_by h s" "d = Suspended h" by (auto simp: async_ok_def owned_by_def)
  with async_step [of h s e] show "\<exists>t. d = Suspended t \<and> fst (async_complete s e) = fst (tuple_session t e)
      \<and> async_ok (snd (async_complete s e)) \<and> abs_ctl (snd (async_complete s e)) = snd (tuple_session t e)" by auto
next
  fix c d
  assume "async_ok c \<and> abs_ctl c = d" "finished c"
  then show "finished d" by (cases c) auto
qed

lemma async_listens:
  assumes "listener p = Suspended ()" and "async_program p ev = (as, p')"
  shows "listener p' = Suspended ()"
proof (cases ev)
  case (Connection ec sock)
  with assms perform_running [of None async_start _ "p\<lparr>listener := Suspended ()\<rparr>" as p'] show ?thesis
    by (auto simp: async_program_def do_accept_def)
next
  case (Resume i e)
  with assms show ?thesis by (auto simp: async_program_def split: if_splits prod.splits ctl.splits)
qed

lemma coro_stops:
  assumes "steps coro_program p es = (as, p')"
    and "finished (listener p) \<or> (\<exists>ec sock. Connection ec sock \<in> set es \<and> ec \<noteq> Success)"
  shows "finished (listener p')"
  using assms
proof (induction es arbitrary: p as)
  case (Cons ev es)
  obtain as1 p1 where s: "coro_program p ev = (as1, p1)" by fastforce
  then obtain as2 where r: "steps coro_program p1 es = (as2, p')" using Cons.prems(1) by (auto split: prod.splits)
  have "finished (listener p1)" if "finished (listener p) \<or> (\<exists>ec sock. ev = Connection ec sock \<and> ec \<noteq> Success)"
    using s that
    by (cases ev; cases "listener p")
       (auto simp: coro_program_def server_def split: if_splits prod.splits ctl.splits)
  with Cons.IH [OF r] Cons.prems(2) show ?case by auto
qed simp

section \<open>Properties\<close>

text \<open>C11: The echo programs are equivalent: for any connections and completions, in any order, \<open>echo_coro.cpp\<close> and
  \<open>echo_coro_tuple.cpp\<close> perform the same operations, and so does the callback program
  \<open>echo_async.cpp\<close> as long as no accept fails. After a failed accept the callback program still accepts,
  while the coroutine programs only serve their sessions to the end.\<close>

theorem echo_programs_equivalent:
  fixes es :: "('sock, stream_event) prog_event list"
  shows "fst (steps tuple_program serve_start es) = fst (steps coro_program serve_start es)
    \<and> ((\<forall>ec sock. Connection ec sock \<in> set es \<longrightarrow> ec = Success) \<longrightarrow>
        fst (steps async_program serve_start es) = fst (steps coro_program serve_start es))
    \<and> listener (snd (steps async_program serve_start es)) = Suspended ()
    \<and> ((\<exists>ec sock. Connection ec sock \<in> set es \<and> ec \<noteq> Success) \<longrightarrow>
        finished (listener (snd (steps coro_program serve_start es))))"
proof (intro conjI impI)
  have start: "same_running R (serve_start :: ('s, 'sock) program) (serve_start :: ('t, 'sock) program)" for R
    by (simp add: same_running_def serve_start_def)
  show tc: "fst (steps tuple_program serve_start es) = fst (steps coro_program serve_start es)"
    using tuple_coro.run_simulated [OF start] by (simp add: tuple_program_def coro_program_def)
  assume ok: "\<forall>ec sock. Connection ec sock \<in> set es \<longrightarrow> ec = Success"
  have "fst (steps async_program serve_start es) = fst (steps tuple_program serve_start es)"
    unfolding async_program_def tuple_program_def
    by (rule async_tuple.run_simulated [OF start, THEN conjunct1]) (use ok in \<open>auto simp: do_accept_def server_def\<close>)
  with tc show "fst (steps async_program serve_start es) = fst (steps coro_program serve_start es)" by simp
next
  obtain as st where r: "steps async_program serve_start es = (as, st)" by fastforce
  have "listener st = Suspended ()"
    by (rule steps_invariant [OF r, where I = "\<lambda>p. listener p = Suspended ()"])
       (simp add: serve_start_def, rule async_listens)
  with r show "listener (snd (steps async_program serve_start es)) = Suspended ()" by simp
next
  assume "\<exists>ec sock. Connection ec sock \<in> set es \<and> ec \<noteq> Success"
  moreover obtain as st where "steps coro_program serve_start es = (as, st)" by fastforce
  ultimately show "finished (listener (snd (steps coro_program serve_start es)))"
    using coro_stops [of serve_start es as st] by simp
qed

theorem echo_programs_equivalent_witness:
  "fst (steps async_program serve_start [Connection Success ''a'', Resume 0 (ReadDone Success [1]), Resume 0 (WriteDone Eof 0)])
   = fst (steps coro_program serve_start [Connection Success ''a'', Resume 0 (ReadDone Success [1]), Resume 0 (WriteDone Eof 0)])"
  using echo_programs_equivalent [of "[Connection Success ''a'', Resume 0 (ReadDone Success [1]), Resume 0 (WriteDone Eof 0)]"]
  by (simp del: steps.simps)

end
