(* ===== verification/Cobalt_Examples.thy ===== *)
theory Cobalt_Examples
  imports Asio_Coro
begin

text \<open>
  The examples of \<open>cobalt/\<close>: eager promises and lazy tasks, the guard that sets the executor and the
  memory resource of the current thread, and the resource that logs. \<open>race\<close>, \<open>spawn\<close> and \<open>with\<close> are
  operations of Boost.Cobalt: actions and completions.
\<close>

section \<open>Sleeping\<close>

datatype cobalt_action =
    Print string
  | StartTimer string nat
  | CreateTask string nat
  | AwaitSleep string
  | AwaitRace string string

text \<open>The coroutine \<open>sleep\<close>: the error code of the wait is ignored, so it always returns.\<close>

definition cobalt_sleep_start :: "string \<Rightarrow> nat \<Rightarrow> cobalt_action list \<times> (string, unit) ctl" where
  "cobalt_sleep_start message ms =
     ([Print (''sleeping: '' @ message @ ''...''), StartTimer message ms], Suspended message)"

definition cobalt_sleep :: "(error_code \<Rightarrow> string) \<Rightarrow> (string, error_code, cobalt_action, unit) body" where
  "cobalt_sleep ec_message message ec =
     ([Print (''sleeping: '' @ message @ ''... done ('' @ ec_message ec @ '')'')], Returned ())"

definition pmr_sleep :: "(error_code \<Rightarrow> string) \<Rightarrow> (string, error_code, cobalt_action, unit) body" where
  "pmr_sleep = cobalt_sleep"

definition main_sleep :: "(error_code \<Rightarrow> string) \<Rightarrow> (string, error_code, cobalt_action, unit) body" where
  "main_sleep = cobalt_sleep"

definition with_sleep :: "(error_code \<Rightarrow> string) \<Rightarrow> (string, error_code, cobalt_action, unit) body" where
  "with_sleep = cobalt_sleep"

definition task_sleep :: "(error_code \<Rightarrow> string) \<Rightarrow> (string, error_code, cobalt_action, unit) body" where
  "task_sleep = cobalt_sleep"

section \<open>Promises start eagerly, tasks lazily\<close>

datatype demo_state = AwaitingDelay | AwaitingRace

text \<open>The coroutine \<open>task\<close> with promises (\<open>spawn_promise.cpp\<close>): calling \<open>sleep\<close> starts it. The completions
  are those of the delay and of \<open>race\<close>.\<close>

definition promise_demo_start :: "cobalt_action list \<times> (demo_state, unit) ctl" where
  "promise_demo_start =
     (fst (cobalt_sleep_start ''long time'' 10000) @ fst (cobalt_sleep_start ''delay'' 1000) @ [AwaitSleep ''delay''],
      Suspended AwaitingDelay)"

fun promise_demo :: "(demo_state, unit, cobalt_action, unit) body" where
  "promise_demo AwaitingDelay e =
     (fst (cobalt_sleep_start ''short time'' 1000) @ [AwaitRace ''long time'' ''short time''], Suspended AwaitingRace)"
| "promise_demo AwaitingRace e = ([], Returned ())"

definition pmr_demo :: "(demo_state, unit, cobalt_action, unit) body" where
  "pmr_demo = promise_demo"

text \<open>\<open>co_main\<close> of \<open>spawn_cobalt_main.cpp\<close> also returns an exit code.\<close>

fun main_demo :: "(demo_state, unit, cobalt_action, int) body" where
  "main_demo AwaitingDelay e =
     (fst (cobalt_sleep_start ''short time'' 1000) @ [AwaitRace ''long time'' ''short time''], Suspended AwaitingRace)"
| "main_demo AwaitingRace e = ([], Returned 0)"

text \<open>The same with tasks (\<open>spawn_task.cpp\<close>): calling \<open>sleep\<close> only creates the coroutine; awaiting it, or
  \<open>race\<close>, starts it.\<close>

definition lazy_name :: string where
  "lazy_name = ''long time -- this is NOT started eagerly''"

definition task_demo_start :: "cobalt_action list \<times> (demo_state, unit) ctl" where
  "task_demo_start =
     (CreateTask lazy_name 10000 # CreateTask ''delay'' 1000 # AwaitSleep ''delay'' # fst (cobalt_sleep_start ''delay'' 1000),
      Suspended AwaitingDelay)"

fun task_demo :: "(demo_state, unit, cobalt_action, unit) body" where
  "task_demo AwaitingDelay e =
     (CreateTask ''short time'' 1000 # AwaitRace lazy_name ''short time''
        # fst (cobalt_sleep_start lazy_name 10000) @ fst (cobalt_sleep_start ''short time'' 1000), Suspended AwaitingRace)"
| "task_demo AwaitingRace e = ([], Returned ())"

fun timers :: "cobalt_action list \<Rightarrow> string list" where
  "timers [] = []"
| "timers (StartTimer n ms # as) = n # timers as"
| "timers (a # as) = timers as"

lemma timers_append [simp]: "timers (xs @ ys) = timers xs @ timers ys"
  by (induction xs rule: timers.induct) auto

text \<open>The long timer is the first to start with promises; with tasks it starts only after the delay.\<close>

lemma eager_and_lazy:
  "timers (fst promise_demo_start) = [''long time'', ''delay'']"
  "timers (fst (drive promise_demo (snd promise_demo_start) [(), ()])) = [''short time'']"
  "timers (fst task_demo_start) = [''delay'']"
  "timers (fst (drive task_demo (snd task_demo_start) [(), ()])) = [lazy_name, ''short time'']"
  "snd (drive main_demo (Suspended AwaitingDelay) [(), ()]) = Returned 0"
  by (simp_all add: promise_demo_start_def task_demo_start_def cobalt_sleep_start_def)

section \<open>with.cpp\<close>

datatype worker_action = Tick int nat char | WorkerSleep

definition worker_start :: "int \<Rightarrow> worker_action list \<times> (nat, unit) ctl" where
  "worker_start n = ([Tick n 0 CHR ''A'', WorkerSleep], Suspended 0)"

definition worker :: "int \<Rightarrow> (nat, unit, worker_action, unit) body" where
  "worker n i e =
     (if i + 1 < 10 then ([Tick n i CHR ''V'', Tick n (i + 1) CHR ''A'', WorkerSleep], Suspended (i + 1))
      else ([Tick n i CHR ''V''], Returned ()))"

lemma worker_runs:
  assumes "k < 10"
  shows "snd (drive (worker n) (Suspended 0) (replicate k ())) = Suspended k"
  using assms
proof (induction k)
  case (Suc k)
  have "replicate (Suc k) () = replicate k () @ [()]" by (simp add: replicate_append_same)
  with Suc show ?case by (auto simp: drive_append worker_def split: prod.splits)
qed simp

text \<open>A worker ends after exactly ten sleeps.\<close>

lemma worker_ten: "snd (drive (worker n) (Suspended 0) (replicate 10 ())) = Returned ()"
proof -
  have "replicate 10 () = replicate 9 () @ [()]" by (simp add: replicate_append_same numeral_eq_Suc)
  with worker_runs [of 9 n] show ?thesis by (auto simp: drive_append worker_def split: prod.splits)
qed

text \<open>\<open>main_task\<close>: the body of the scope races two workers and then sleeps; however it ends, the teardown is
  called with its exception (or none) and prints it; what \<open>cobalt::with\<close> answers then is a completion.
  \<open>main\<close> cancels the task after 300 milliseconds and prints its result.\<close>

datatype with_state = WithRace | WithSleep | WithTeardown

datatype with_event = WithBody exception_ptr | WithEnded exception_ptr

datatype with_action = RaceWorkers "int list" | ScopeSleep string nat | WithLine string | TeardownDone | CancelScopeAfter nat

definition with_teardown :: "(error_code \<Rightarrow> string) \<Rightarrow> exception_ptr \<Rightarrow> with_action list" where
  "with_teardown message ep =
     (case what message ep of
        Inl x \<Rightarrow> []
      | Inr w \<Rightarrow> [WithLine (''teardown: '' @ w), TeardownDone])"

definition main_task_start :: "with_action list \<times> (with_state, unit) ctl" where
  "main_task_start = ([RaceWorkers [1, 2]], Suspended WithRace)"

fun main_task :: "(error_code \<Rightarrow> string) \<Rightarrow> (with_state, with_event, with_action, unit) body" where
  "main_task message WithRace (WithBody ep) =
     (if ep \<noteq> None then (with_teardown message ep, Suspended WithTeardown)
      else ([ScopeSleep ''8000ms'' 800], Suspended WithSleep))"
| "main_task message WithSleep (WithBody ep) =
     (if ep \<noteq> None then (with_teardown message ep, Suspended WithTeardown)
      else (WithLine ''leaving scope'' # with_teardown message None, Suspended WithTeardown))"
| "main_task message WithTeardown (WithEnded ep) =
     (case ep of Some x \<Rightarrow> ([], Threw x) | None \<Rightarrow> ([WithLine ''scope fully cleaned up''], Returned ()))"
| "main_task message s e = ([], Suspended s)"

definition with_main_start :: "with_action list \<times> (with_state, unit) ctl" where
  "with_main_start = (CancelScopeAfter 300 # fst main_task_start, snd main_task_start)"

definition with_completed :: "(error_code \<Rightarrow> string) \<Rightarrow> exception_ptr \<Rightarrow> exn + string" where
  "with_completed message ep = map_sum id (\<lambda>w. ''completed ('' @ w @ '')'') (what message ep)"

text \<open>The teardown runs exactly once, however the body of the scope ends, and before the task ends.\<close>

definition body_exn_ok :: "with_event \<Rightarrow> bool" where
  "body_exn_ok e = (case e of WithBody ep \<Rightarrow> ep \<noteq> Some ForeignException \<and> (\<forall>q. ep \<noteq> Some (MultipleExceptions q)) | _ \<Rightarrow> True)"

lemma with_teardown_once:
  assumes "drive (main_task message) (snd main_task_start) es = (as, c)" and "\<forall>e \<in> set es. body_exn_ok e"
  shows "count_list as TeardownDone = (if finished c \<or> c = Suspended WithTeardown then 1 else 0)"
proof -
  have one: "count_list (with_teardown message ep) TeardownDone = 1"
    if "ep \<noteq> Some ForeignException" "\<forall>q. ep \<noteq> Some (MultipleExceptions q)" for ep
    using that by (cases ep; cases "the ep") (auto simp: with_teardown_def)
  have "(\<forall>e \<in> set es. body_exn_ok e) \<longrightarrow>
      count_list as TeardownDone = (if finished c \<or> c = Suspended WithTeardown then 1 else 0)"
    using assms(1)
    by (rule drive_invariant [where I = "\<lambda>es as c. (\<forall>e \<in> set es. body_exn_ok e) \<longrightarrow>
          count_list as TeardownDone = (if finished c \<or> c = Suspended WithTeardown then 1 else 0)"])
       (auto simp: main_task_start_def body_exn_ok_def one elim!: main_task.elims split: if_splits option.splits)
  with assms(2) show ?thesis by simp
qed

section \<open>spawn\_promise\_pmr.cpp: the logging resource\<close>

datatype pmr_line = Allocated nat nat nat | Deallocated nat nat nat

record 'm resource =
  upstream_allocate :: "nat \<Rightarrow> nat \<Rightarrow> 'm \<Rightarrow> nat \<times> 'm"
  upstream_deallocate :: "nat \<Rightarrow> nat \<Rightarrow> nat \<Rightarrow> 'm \<Rightarrow> 'm"

definition logging_allocate :: "'m resource \<Rightarrow> nat \<Rightarrow> nat \<Rightarrow> 'm \<times> pmr_line list \<Rightarrow> nat \<times> 'm \<times> pmr_line list" where
  "logging_allocate U bytes alignment st =
     (case upstream_allocate U bytes alignment (fst st) of (p, m) \<Rightarrow> (p, m, snd st @ [Allocated bytes alignment p]))"

definition logging_deallocate :: "'m resource \<Rightarrow> nat \<Rightarrow> nat \<Rightarrow> nat \<Rightarrow> 'm \<times> pmr_line list \<Rightarrow> 'm \<times> pmr_line list" where
  "logging_deallocate U p bytes alignment st =
     (upstream_deallocate U p bytes alignment (fst st), snd st @ [Deallocated bytes alignment p])"

text \<open>Logging changes nothing but the log.\<close>

lemma logging_transparent:
  "fst (logging_allocate U b a (m, ls)) = fst (upstream_allocate U b a m)"
  "fst (snd (logging_allocate U b a (m, ls))) = snd (upstream_allocate U b a m)"
  "fst (logging_deallocate U p b a (m, ls)) = upstream_deallocate U p b a m"
  by (auto simp: logging_allocate_def logging_deallocate_def split: prod.splits)

section \<open>spawn\_promise\_pmr.cpp: the guard\<close>

text \<open>What Cobalt keeps per thread; \<open>get_executor\<close> throws when none is set.\<close>

record ('res, 'ex) thread_context =
  default_resource :: 'res
  thread_executor :: "'ex option"

record ('res, 'ex) context_guard =
  previous_resource :: 'res
  previous_executor :: "'ex option"

definition guard_enter ::
  "'ex \<Rightarrow> 'res \<Rightarrow> ('res, 'ex) thread_context \<Rightarrow> ('res, 'ex) context_guard \<times> ('res, 'ex) thread_context" where
  "guard_enter exec res ctx =
     (\<lparr>previous_resource = default_resource ctx, previous_executor = thread_executor ctx\<rparr>,
      \<lparr>default_resource = res, thread_executor = Some exec\<rparr>)"

definition guard_leave :: "('res, 'ex) context_guard \<Rightarrow> ('res, 'ex) thread_context \<Rightarrow> ('res, 'ex) thread_context" where
  "guard_leave g ctx =
     (let ctx = ctx\<lparr>default_resource := previous_resource g\<rparr>
      in case previous_executor g of Some ex \<Rightarrow> ctx\<lparr>thread_executor := Some ex\<rparr> | None \<Rightarrow> ctx)"

text \<open>Entering and leaving a scope restores the thread, also when scopes are nested, provided that an
  executor was set; if none was, the executor of the scope stays behind.\<close>

lemma guard_roundtrip:
  fixes ctx :: "('res, 'ex) thread_context"
  shows "thread_executor ctx = Some ex0 \<Longrightarrow>
      guard_leave (fst (guard_enter ex res ctx)) (snd (guard_enter ex res ctx)) = ctx"
    and "thread_executor ctx = None \<Longrightarrow>
      guard_leave (fst (guard_enter ex res ctx)) (snd (guard_enter ex res ctx)) = ctx\<lparr>thread_executor := Some ex\<rparr>"
    and "case guard_enter ex1 res1 ctx of (g1, c1) \<Rightarrow> case guard_enter ex2 res2 c1 of (g2, c2) \<Rightarrow>
      guard_leave g1 (guard_leave g2 c2) = guard_leave g1 c1"
  by (cases ctx; auto simp: guard_enter_def guard_leave_def Let_def split: option.splits)+

text \<open>\<open>main\<close>: the guard is entered, the context runs, and the guard is left. \<open>run\<close> is what the context does to
  the thread's settings.\<close>

definition pmr_main ::
  "'ex \<Rightarrow> 'res \<Rightarrow> (('res, 'ex) thread_context \<Rightarrow> ('res, 'ex) thread_context) \<Rightarrow> ('res, 'ex) thread_context \<Rightarrow> ('res, 'ex) thread_context" where
  "pmr_main ex res run t = (case guard_enter ex res t of (g, t') \<Rightarrow> guard_leave g (run t'))"

text \<open>\<open>do_is_equal\<close> of the logging resource compares identities.\<close>

definition logging_is_equal :: "nat \<Rightarrow> nat \<Rightarrow> bool" where
  "logging_is_equal this other \<longleftrightarrow> this = other"

text \<open>\<open>main\<close> of \<open>spawn_promise.cpp\<close> gives the thread an executor before it spawns the task (that of
  \<open>spawn_task.cpp\<close> does not): the settings of the thread when the task starts.\<close>

definition spawn_promise_main :: "'ex \<Rightarrow> ('res, 'ex) thread_context \<Rightarrow> ('res, 'ex) thread_context" where
  "spawn_promise_main ex t = t\<lparr>thread_executor := Some ex\<rparr>"

text \<open>A promise starts when it is created and needs the executor of the thread then; a task does not. Both
  programs with promises provide one.\<close>

lemma promise_mains_executor:
  "thread_executor (spawn_promise_main ex t) = Some ex"
  "thread_executor (snd (guard_enter ex res t)) = Some ex"
  by (simp_all add: spawn_promise_main_def guard_enter_def)

section \<open>corosio\_hello.cpp\<close>

definition say_hello :: "string list \<times> (unit, unit) ctl" where
  "say_hello = ([''Hello from Corosio!'' @ [CHR 0x0A]], Returned ())"

text \<open>\<open>main\<close> returns after the destructor of the pool has waited for the task.\<close>

definition hello_main :: "string list \<times> int" where
  "hello_main = (fst say_hello, 0)"

end
