(* ===== verification/Issue_Cases.thy ===== *)
theory Issue_Cases
  imports Formatters Session_Registry Execution
begin

text \<open>
  The programs of \<open>issues/\<close> that have logic of their own: tasks with a cancellation filter in a
  parallel group (\<open>asio_issue_cancellation.cpp\<close>, its minimal version and \<open>boost_asio_issue_458.cpp\<close>),
  the variants of \<open>asio_issue_1705.cpp\<close>, the life time of a referenced resource
  (\<open>asio_issue_promise.cpp\<close>) and the default filter (\<open>asio_issue_spawn_cancellation.cpp\<close>).
\<close>

section \<open>Tasks with a filter\<close>

definition task_filter :: "cancellation_type \<Rightarrow> cancellation_type \<Rightarrow> cancellation_type" where
  "task_filter flt ty = ty AND flt"

datatype filter_event = TaskSignal cancellation_type | TaskTimer error_code

datatype filter_action = StartTaskTimer nat | SignalTimer cancellation_type

definition filter_task_start :: "filter_action list \<times> (unit, unit) ctl" where
  "filter_task_start = ([StartTaskTimer 2000], Suspended ())"

text \<open>\<open>task(filter)\<close>: what passes the filter reaches the timer; an error of the wait is thrown.\<close>

fun filter_task :: "cancel_enum \<Rightarrow> cancellation_type \<Rightarrow> (unit, filter_event, filter_action, unit) body" where
  "filter_task E flt s (TaskSignal ty) =
     ((if task_filter flt ty = ct_none E then [] else [SignalTimer (task_filter flt ty)]), Suspended s)"
| "filter_task E flt s (TaskTimer ec) =
     ([], if ec \<noteq> Success then Threw (SystemError ec) else Returned ())"

definition issue_task :: "cancel_enum \<Rightarrow> cancellation_type \<Rightarrow> (unit, filter_event, filter_action, unit) body" where
  "issue_task = filter_task"

definition minimal_task :: "cancel_enum \<Rightarrow> cancellation_type \<Rightarrow> (unit, filter_event, filter_action, unit) body" where
  "minimal_task = filter_task"

text \<open>The filters of the two tasks of \<open>group()\<close>.\<close>

definition group_filters :: "cancel_enum \<Rightarrow> cancellation_type list" where
  "group_filters E = [ct_terminal E OR ct_partial E OR ct_total E, ct_terminal E]"

text \<open>What a cancellation of the group does to each of its tasks.\<close>

definition group_signal :: "cancel_enum \<Rightarrow> cancellation_type \<Rightarrow> filter_action list list" where
  "group_signal E ty = map (\<lambda>flt. fst (filter_task E flt () (TaskSignal ty))) (group_filters E)"

text \<open>A total cancellation reaches only the first task; a terminal one reaches both.\<close>

lemma group_signal_types:
  assumes "cancel_enum_ok E"
  shows "group_signal E (ct_total E) = [[SignalTimer (ct_total E)], []]"
    and "group_signal E (ct_terminal E) = [[SignalTimer (ct_terminal E)], [SignalTimer (ct_terminal E)]]"
proof -
  let ?m = "ct_terminal E OR ct_partial E OR ct_total E"
  have "ct_total E AND ?m = ct_total E" "ct_terminal E AND ?m = ct_terminal E"
    by (auto simp: bit_eq_iff bit_simps)
  moreover have "ct_total E AND ct_terminal E = 0" "ct_total E \<noteq> 0" "ct_terminal E \<noteq> 0" "ct_none E = 0"
    using assms by (simp_all add: cancel_enum_ok_def ac_simps)
  ultimately show "group_signal E (ct_total E) = [[SignalTimer (ct_total E)], []]"
    "group_signal E (ct_terminal E) = [[SignalTimer (ct_terminal E)], [SignalTimer (ct_terminal E)]]"
    by (simp_all add: group_signal_def group_filters_def task_filter_def)
qed

subsection \<open>Parallel groups\<close>

text \<open>\<open>group()\<close>: both tasks in a parallel group. A cancellation of the group goes to every member that still
  runs; when a member ends, the condition of \<open>async_wait\<close> says with which type the others are
  cancelled (\<open>none\<close>: not at all). The conditions are library code; their documented behaviour is
  \<open>wait_for_one_ok\<close> and \<open>wait_for_one_error_ok\<close>.\<close>

datatype group_event = GroupCancelled cancellation_type | MemberDone nat error_code

datatype group_action = MemberDoes nat filter_action

type_synonym group_state = "(cancellation_type \<times> (unit, unit) ctl) list"

type_synonym wait_condition = "error_code \<Rightarrow> cancellation_type"

definition wait_for_one_ok :: "cancel_enum \<Rightarrow> wait_condition \<Rightarrow> bool" where
  "wait_for_one_ok E cond \<longleftrightarrow> (\<forall>ec. cond ec = ct_all E)"

definition wait_for_one_error_ok :: "cancel_enum \<Rightarrow> wait_condition \<Rightarrow> bool" where
  "wait_for_one_error_ok E cond \<longleftrightarrow> cond Success = ct_none E \<and> (\<forall>ec. ec \<noteq> Success \<longrightarrow> cond ec = ct_all E)"

definition group_start :: "cancel_enum \<Rightarrow> group_state" where
  "group_start E = map (\<lambda>flt. (flt, snd filter_task_start)) (group_filters E)"

definition signal_members :: "cancel_enum \<Rightarrow> cancellation_type \<Rightarrow> group_state \<Rightarrow> group_action list" where
  "signal_members E ty g =
     concat (map (\<lambda>i. map (MemberDoes i) (fst (drive (filter_task E (fst (g ! i))) (snd (g ! i)) [TaskSignal ty])))
       [0..<length g])"

fun group_step :: "cancel_enum \<Rightarrow> wait_condition \<Rightarrow> (group_state, group_event, group_action) stepper" where
  "group_step E cond g (GroupCancelled ty) = (signal_members E ty g, g)"
| "group_step E cond g (MemberDone i ec) =
     (if i < length g \<and> \<not> finished (snd (g ! i))
      then
        (let g' = g[i := (fst (g ! i), snd (drive (filter_task E (fst (g ! i))) (snd (g ! i)) [TaskTimer ec]))]
         in ((if cond ec = ct_none E then [] else signal_members E (cond ec) g'), g'))
      else ([], g))"

text \<open>\<open>main\<close> of the minimal version and of \<open>boost_asio_issue_458.cpp\<close>: the group is cancelled with \<open>total\<close> after one
  millisecond; \<open>es\<close> are the completions that follow.\<close>

definition issue_cancellation_main :: "cancel_enum \<Rightarrow> wait_condition \<Rightarrow> group_event list \<Rightarrow> group_action list \<times> group_state" where
  "issue_cancellation_main E cond es = steps (group_step E cond) (group_start E) (GroupCancelled (ct_total E) # es)"

definition minimal_main :: "cancel_enum \<Rightarrow> wait_condition \<Rightarrow> group_event list \<Rightarrow> group_action list \<times> group_state" where
  "minimal_main = issue_cancellation_main"

definition issue_458_main :: "cancel_enum \<Rightarrow> wait_condition \<Rightarrow> group_event list \<Rightarrow> group_action list \<times> group_state" where
  "issue_458_main = minimal_main"

text \<open>With the documented conditions, a total cancellation of the group first reaches only the task that
  accepts it; the end of that task then cancels the other one.\<close>

lemma group_cancels_both:
  assumes "cancel_enum_ok E" and "wait_for_one_ok E cond \<or> wait_for_one_error_ok E cond"
  shows "steps (group_step E cond) (group_start E) [GroupCancelled (ct_total E), MemberDone 0 OperationAborted]
    = ([MemberDoes 0 (SignalTimer (ct_total E)), MemberDoes 1 (SignalTimer (ct_terminal E))],
       [(ct_terminal E OR ct_partial E OR ct_total E, Threw (SystemError OperationAborted)), (ct_terminal E, Suspended ())])"
proof -
  let ?m = "ct_terminal E OR ct_partial E OR ct_total E"
  have c: "cond OperationAborted = ct_all E" using assms(2) by (auto simp: wait_for_one_ok_def wait_for_one_error_ok_def)
  have m: "ct_terminal E = ?m AND ct_terminal E" "ct_total E AND ?m = ct_total E"
    by (auto simp: bit_eq_iff bit_simps)
  have ok: "ct_all E AND ?m = ?m" "ct_none E = 0" "ct_terminal E \<noteq> 0" "ct_total E \<noteq> 0" "ct_total E AND ct_terminal E = 0"
    using assms(1) by (simp_all add: cancel_enum_ok_def ac_simps)
  have "ct_all E AND ct_terminal E = (ct_all E AND ?m) AND ct_terminal E" by (metis m(1) and.assoc)
  then have "ct_all E AND ct_terminal E = ct_terminal E" using ok(1) m(1) by simp
  moreover from this have "ct_all E \<noteq> 0" using ok(3) by auto
  ultimately have t: "ct_all E AND ct_terminal E = ct_terminal E" "ct_all E \<noteq> 0" by simp_all
  show ?thesis
    using c t m ok by (simp add: group_start_def group_filters_def filter_task_start_def signal_members_def task_filter_def
        upt_rec [of 0 2] upt_rec [of "Suc 0" 2] numeral_2_eq_2)
qed

subsection \<open>asio\_issue\_cancellation.cpp\<close>

text \<open>\<open>throw_error\<close> yields and then throws an \<open>error_code\<close>, which is not a \<open>std::exception\<close>.\<close>

definition throw_error_start :: "timer_op list \<times> (unit, unit) ctl" where
  "throw_error_start = yield_start"

definition throw_error :: "(unit, unit, string, unit) body" where
  "throw_error s e = ([''throwing''], Threw ForeignException)"

text \<open>\<open>run\<close> of this program has the loop of \<open>runDebug\<close>, without the first line.\<close>

definition issue_run ::
  "bool \<Rightarrow> ('ctx \<Rightarrow> ('ctx \<times> size_t) option) \<Rightarrow> 'ctx run_one \<Rightarrow> 'ctx \<Rightarrow> ('ctx \<times> size_t) option" where
  "issue_run ndebug context_run run_one ctx =
     (if ndebug then context_run ctx else map_option (\<lambda>(c, n, ls). (c, n)) (debug_loop run_one ctx 0))"

lemma issue_run_same: "issue_run ndebug context_run run_one ctx = run ndebug context_run run_one ctx"
  by (cases "debug_loop run_one ctx 0") (auto simp: issue_run_def run_def runDebug_def)

section \<open>asio\_issue\_1705.cpp\<close>

datatype await_variant = CancelAfter | CoSpawnCancelAfter | ParallelGroup

text \<open>The conditions of \<open>cancel_promise\<close> as they are written; \<open>None\<close>: no branch is taken.\<close>

definition cancel_promise_variant :: "string \<Rightarrow> await_variant option" where
  "cancel_promise_variant variant =
     (if variant = ''cancel_after'' then Some CancelAfter
      else if variant = ''co_spawn'' then Some CoSpawnCancelAfter
      else if variant = ''cancel_after'' then Some ParallelGroup
      else None)"

text \<open>\<open>main\<close> starts the coroutine three times.\<close>

definition issue_1705_main :: "(string \<times> await_variant option) list" where
  "issue_1705_main =
     map (\<lambda>v. (v, cancel_promise_variant v)) [''cancel_after'', ''co_spawn'', ''parallel group'']"

lemma issue_1705_variants:
  "map snd issue_1705_main = [Some CancelAfter, Some CoSpawnCancelAfter, None]"
  by (simp add: issue_1705_main_def cancel_promise_variant_def)

lemma parallel_group_unreachable:
  "cancel_promise_variant v \<noteq> Some ParallelGroup" "cancel_promise_variant ''parallel group'' = None"
  by (auto simp: cancel_promise_variant_def)

section \<open>asio\_issue\_promise.cpp\<close>

text \<open>The parent owns the resource and awaits the subtask; the subtask uses it in its cancellation
  handler and after it has been resumed. \<open>bad_use\<close>: a use of the destroyed resource. \<open>awaits\<close>: whether
  the parent awaits the promise after cancelling it, as the code does.\<close>

record promise_case =
  resource_alive :: bool
  subtask_running :: bool
  bad_use :: bool

datatype promise_event = SubtaskCancelled | SubtaskResumed

definition use_resource :: "promise_case \<Rightarrow> promise_case" where
  "use_resource st = st\<lparr>bad_use := bad_use st \<or> \<not> resource_alive st\<rparr>"

definition cancel_promise :: "bool \<Rightarrow> promise_case" where
  "cancel_promise awaits =
     (let st = use_resource \<lparr>resource_alive = True, subtask_running = True, bad_use = False\<rparr>
      in if awaits then st else st\<lparr>resource_alive := False\<rparr>)"

fun subtask :: "promise_case \<Rightarrow> promise_event \<Rightarrow> promise_case" where
  "subtask st SubtaskCancelled = (if subtask_running st then use_resource st else st)"
| "subtask st SubtaskResumed =
     (if subtask_running st then (use_resource st)\<lparr>subtask_running := False, resource_alive := False\<rparr> else st)"

text \<open>Because the parent awaits the promise, no use comes too late; without that, the subtask's
  resumption would.\<close>

lemma awaiting_keeps_alive: "\<not> bad_use (foldl subtask (cancel_promise True) es)"
proof -
  have "\<not> bad_use st \<and> (subtask_running st \<longrightarrow> resource_alive st) \<Longrightarrow> \<not> bad_use (foldl subtask st es)" for st
  proof (induction es arbitrary: st)
    case (Cons e es)
    then show ?case by (cases e) (auto simp: use_resource_def)
  qed simp
  then show ?thesis by (simp add: cancel_promise_def use_resource_def)
qed

lemma not_awaiting_is_late: "bad_use (subtask (cancel_promise False) SubtaskResumed)"
  by (simp add: cancel_promise_def use_resource_def)

text \<open>\<open>main\<close> runs two of these in one group; each parent awaits its promise.\<close>

definition promise_main :: "promise_case \<times> promise_case" where
  "promise_main = (cancel_promise True, cancel_promise True)"

section \<open>asio\_issue\_spawn\_cancellation.cpp\<close>

text \<open>Whether a wait of two seconds is cut short by a cancellation after one millisecond: the filter of
  the coroutine is the default one (terminal only) unless it enables total cancellation.\<close>

definition cut_short :: "cancel_enum \<Rightarrow> bool \<Rightarrow> cancellation_type \<Rightarrow> bool" where
  "cut_short E enable_total ty \<longleftrightarrow>
     ty AND (if enable_total then ct_terminal E OR ct_partial E OR ct_total E else ct_terminal E) \<noteq> ct_none E"

definition spawn_cancellation_main :: "cancel_enum \<Rightarrow> (string \<times> bool) list" where
  "spawn_cancellation_main E =
     [(''total: '', \<not> cut_short E False (ct_total E)),
      (''terminal: '', \<not> cut_short E False (ct_terminal E)),
      (''wrapped total: '', \<not> cut_short E True (ct_terminal E))]"

lemma spawn_cancellation_prints:
  assumes "cancel_enum_ok E"
  shows "map snd (spawn_cancellation_main E) = [True, False, False]"
proof -
  have "ct_terminal E AND (ct_terminal E OR ct_partial E OR ct_total E) = ct_terminal E"
    by (auto simp: bit_eq_iff bit_simps)
  then show ?thesis
    using assms by (simp add: spawn_cancellation_main_def cut_short_def cancel_enum_ok_def ac_simps)
qed

section \<open>boost\_process\_fork.cpp\<close>

text \<open>The number of threads: at least one besides the main thread.\<close>

definition fork_threads :: "nat \<Rightarrow> nat" where
  "fork_threads hw = max 1 hw"

text \<open>\<open>execute\<close> of this program waits for the child only; \<open>main\<close> starts one hundred of them.\<close>

definition fork_execute :: "(unit, error_code \<times> int, unit, int) body" where
  "fork_execute s e = (case e of (ec, status) \<Rightarrow> ([], if ec \<noteq> Success then Threw (SystemError ec) else Returned status))"

definition fork_main :: "nat \<Rightarrow> (string \<times> string list) list \<times> nat" where
  "fork_main hw = (replicate 100 (''/usr/bin/sleep'', [''1'']), fork_threads hw + 1)"

section \<open>Programs that only call the library\<close>

text \<open>\<open>asio_issue_1705b.cpp\<close>, \<open>boost_process_issue_503.cpp\<close> and \<open>boost_process_issue_516.cpp\<close>: the operations they initiate, and
  what their handlers print; which completion the promise or the child delivers while the context runs is an input.\<close>

datatype issue_action =
    TimerForever
  | AwaitPromiseFor nat cancellation_type
  | LaunchChild string "string list" "string list option"
  | WaitForChild
  | TerminateChild
  | PrintLine string

definition issue_1705b_start :: "cancel_enum \<Rightarrow> issue_action list" where
  "issue_1705b_start E = [TimerForever, AwaitPromiseFor 1 (ct_total E), PrintLine ''running IO context...'']"

definition issue_1705b_run :: "(error_code \<Rightarrow> string) \<Rightarrow> error_code option \<Rightarrow> issue_action list" where
  "issue_1705b_run message completion =
     (case completion of Some ec \<Rightarrow> [PrintLine (''completed with '' @ message ec)] | None \<Rightarrow> [])
       @ [PrintLine ''running IO context... done'']"

definition issue_503_start :: "issue_action list" where
  "issue_503_start = [LaunchChild ''/usr/bin/sleep'' [''10''] None, WaitForChild, TerminateChild]"

text \<open>The handler of the wait prints the status and ignores the error code.\<close>

definition issue_503_handler :: "(int \<Rightarrow> string) \<Rightarrow> error_code \<Rightarrow> int \<Rightarrow> issue_action list" where
  "issue_503_handler show_int ec status = [PrintLine (show_int status)]"

definition issue_516_main :: "issue_action list" where
  "issue_516_main = [LaunchChild ''/usr/bin/true'' [] (Some [''X=Y''])]"

end
