(* ===== verification/Spec2Isabelle.thy ===== *)
theory Spec2Isabelle
  imports Stream_Utils Log_Lines Client_Report Echo_Network Signal_Program Promise_Sessions Socket_Program Session_Spec
    Command_Line_Tools Networking Execution Ping_Program Server_Programs Context_Pool Program_Equivalence
    Cobalt_Examples Issue_Cases
begin

text \<open>
  A verification development for \<^emph>\<open>asio-coro\<close>, a collection of C++ coroutine programs on Boost.Asio:
  echo servers in many styles, load generators, servers that end cleanly on signals, helpers for
  streams, pipes, child processes and formatting, and small programs around them.

  \<^bold>\<open>How the program is modelled.\<close> Boost (Asio, Beast, Process, Cobalt, Corosio) and the JSON libraries
  are not part of the repository. No definition of theirs is made up: a coroutine only
  \<^emph>\<open>initiates\<close> an operation (an element of an action list) and is resumed by a \<^emph>\<open>completion\<close>, an input
  of the model. A coroutine is a body \<open>state \<Rightarrow> completion \<Rightarrow> actions \<times> ctl\<close>, where \<open>ctl\<close> says whether it is
  suspended (with its live variables), has returned or has thrown; \<open>drive\<close> runs a body over a list of
  completions, so a statement about all runs is a statement about all lists. Servers with several
  activities are step functions over the completions of all of them (\<open>steps\<close>). Where threads interleave
  (the thread pool, the callback server on several threads, the report of the load generator) the model is a
  relation of atomic steps of single threads, and the theorems hold for every schedule. What the code relies on in the libraries is a named predicate on the
  inputs (\<open>answers\<close>, \<open>read_until_ok\<close>, \<open>timely\<close>, \<open>completes_once\<close>, \<open>timer_ok\<close>, \<open>http_answers\<close>) or on a parameter
  (\<open>cancel_enum_ok\<close>, \<open>filter_ok\<close>, \<open>chunk_ok\<close>, \<open>channel_ok\<close>, \<open>or_ok\<close>, \<open>context_run_ok\<close>, \<open>wait_for_one_ok\<close>,
  \<open>wait_for_one_success_ok\<close>, \<open>throws_ok\<close>, \<open>react_ok\<close>); each property that has such a hypothesis is
  followed by a witness with a concrete instance. Values of type \<open>size_t\<close> are 64-bit words and wrap
  around. Diagnostic output is not recorded except where printing is the purpose of a function.

  \<^bold>\<open>Theories.\<close>
  \<^item> \<open>Prelude\<close>: error codes, exceptions, coroutine bodies and \<open>drive\<close>, streams, \<open>size_t\<close> sums.
  \<^item> \<open>Relay\<close>: the interfaces (locales) of loops that move bytes: \<open>relay_loop\<close> (what is read is written),
    \<open>counting_relay\<close> (and counted), \<open>byte_counter\<close> (only counted).
  \<^item> \<open>Session_Registry\<close>: \<open>std::map\<close> and the interfaces of servers with a table of sessions,
    \<open>session_ids\<close> and \<open>session_registry\<close>.
  \<^item> \<open>Asio_Coro\<close> (\<open>include/asio-coro.hpp\<close>): \<open>code\<close>, \<open>what\<close>, cancellation masks, \<open>sleep\<close>, the concepts on streams and
    awaitable types, the process group initializer.
  \<^item> \<open>Formatters\<close> (\<open>include/formatters.hpp\<close>, \<open>literals.hpp\<close>): all formatters.
  \<^item> \<open>Echo_Sessions\<close> (\<open>echo/\<close>, \<open>corosio/\<close>): every session and accept loop. Sessions are interpretations
    of \<open>relay_loop\<close>; the callback version is proved to refine the coroutine version.
  \<^item> \<open>Echo_Threads\<close> (\<open>echo/echo_async_threaded.cpp\<close>): the callback server on several threads without a strand.
    A thread enters a handler, runs its body and releases the session in separate steps; reference counts
    and the trace of each session are invariants of all schedules.
  \<^item> \<open>Server_Programs\<close> (\<open>server\<close> and \<open>main\<close> of \<open>echo/\<close>, \<open>http/\<close>, \<open>net/proxy.cpp\<close>): \<open>serve\<close> composes an accept
    loop and sessions on one context; the interface \<open>accept_program\<close> gives each connection its own session.
    The blocking servers, the validator with its shared schema, and the loop that starts threads.
  \<^item> \<open>Context_Pool\<close> (\<open>echo/echo_coro_context_pool.cpp\<close>): the program with a context per thread, as an instance of
    \<open>accept_program\<close>. \<open>Program_Equivalence\<close>: the interface \<open>session_simulation\<close> lifts a simulation of
    sessions to whole programs, for the coroutine, tuple and callback variants.
  \<^item> \<open>Stream_Utils\<close> (\<open>include/stream_utils.hpp\<close>): chunked writes, \<open>count\<close>, \<open>cat\<close>.
  \<^item> \<open>Log_Lines\<close> (\<open>lib/log.cpp\<close>, \<open>include/log.hpp\<close>): logging of lines from a pipe, with cancellation.
  \<^item> \<open>Echo_Client\<close> (\<open>bin/client.cpp\<close>, \<open>bin/corosio_client.cpp\<close>): the load generators; \<open>Client_Report\<close>: how
    \<open>main\<close> of the latter reads the shared counter while tasks on other contexts still add to it.
  \<^item> \<open>Pipeline\<close>: coroutines that copy bytes in a row, joined by connections of bounded capacity (interface
    \<open>relay_pipeline\<close>). \<open>Echo_Network\<close>: either load generator connected to an echo session, directly or through any number
    of proxies. Client and session meet in the interfaces \<open>load_client\<close> and \<open>echo_peer\<close>, joined by \<open>echo_connection\<close>; a
    session with its proxies is a \<open>relay_pipeline\<close>. The connections (in order, without loss) are the environment, given by the
    guards of \<open>stage_exec\<close> and \<open>net_exec\<close>.
  \<^item> \<open>Signal_Servers\<close> (\<open>cancellation/echo_coro_signal.cpp\<close>, \<open>echo_coro_signal_advanced.cpp\<close>) and
    \<open>Promise_Servers\<close> (\<open>cancellation/echo_coro_signal_cancellation.cpp\<close>, \<open>echo_class.cpp\<close>): tables of
    sessions, signals, cancellation, and the moments at which a table may be used.
  \<^item> \<open>Signal_Program\<close>: \<open>echo_coro_signal_advanced.cpp\<close> as a whole: signal handler, server and sessions
    connected by cancellation signals.
  \<^item> \<open>Promise_Programs\<close>: \<open>echo_coro_signal_cancellation.cpp\<close> and \<open>echo_class.cpp\<close> as wholes: a signal ends the accept loop
    or destroys the server object, the promises cancel the tasks, and the cancellation reaches the coroutine
    that reads and writes. Both are interpretations of the interface \<open>promise_shutdown\<close>. \<open>Promise_Sessions\<close>: what their
    sessions echo while that happens (interface \<open>promise_tasks\<close>).
  \<^item> \<open>Socket_Program\<close>: \<open>echo_coro_signal.cpp\<close> as a whole, with the sessions and the life cycle of the handler that uses
    the frame of the server by reference.
  \<^item> \<open>Session_Spec\<close>: one abstract specification, a labelled transition system on the running sessions and the mode,
    of which the trace of every run of the four servers of \<open>cancellation/\<close> is a trace (interface
    \<open>session_server\<close>); and the exact content of their tables (interface \<open>session_registry\<close>).
  \<^item> \<open>Command_Line_Tools\<close> (\<open>bin/handle_signal.cpp\<close>, \<open>wait_for_port.cpp\<close>, \<open>file_io.cpp\<close>).
  \<^item> \<open>Networking\<close> (\<open>net/\<close>): Happy Eyeballs and the proxy.
  \<^item> \<open>Execution\<close> (\<open>lib/run.cpp\<close>, \<open>lib/program_options.cpp\<close>, \<open>include/run_sync.hpp\<close>,
    \<open>include/async_invoke.hpp\<close>, \<open>threading/\<close>).
  \<^item> \<open>Process_Exec\<close> (\<open>process/\<close>): child processes; \<open>execute\<close> embeds \<open>log\<close> of \<open>Log_Lines\<close>. \<open>Ping_Program\<close>:
    \<open>ping_signal_advanced.cpp\<close> as a whole: signal handler, child, the logs of both pipes and the timer.
  \<^item> \<open>Http_Servers\<close> (\<open>http/\<close>): the streaming echo and the JSON servers.
  \<^item> \<open>Cobalt_Examples\<close> (\<open>cobalt/\<close>) and \<open>Issue_Cases\<close> (\<open>issues/\<close>): the remaining examples.

  \<^bold>\<open>What the theorems show.\<close> The properties are the theorems whose comment begins with \<open>C\<close> and a number.
  They fall into these groups: exact transport of bytes and lines (echo sessions, \<open>cat\<close>, chunked
  writes, proxy, HTTP echo, \<open>log\<close>, \<open>execute\<close>); client, proxies and
  server that never block each other; exact counting within 64 bits, or the precise point where
  it goes wrong (the write loop of \<open>client.cpp\<close>); life cycle of sessions (tables hold exactly the
  running sessions, servers end exactly when all sessions have ended, no notification is lost, no
  table or child is used after its end); reaction to signals and cancellation types; race of
  connection attempts; threads (no data race, no use after destruction and exact echo under every
  interleaving); graceful shutdown of all four servers of \<open>cancellation/\<close>
  end to end, for every interleaving of the completions; output and escalation of signals of a program that runs a child; refinement of the sequential by the concurrent version (callback
  sessions, validator, servers with tables); round trips of text (\<open>split_lines\<close>, \<open>parse_duration\<close>); equivalence of
  \<open>runDebug\<close> with \<open>run\<close> and of the variants of a program. Several properties and lemmas state a defect exactly as
  the code has it: the swapped subtraction in \<open>client.cpp\<close>, read errors that spin, an accepted connection that
  escapes a signal, repeated output on repeated cancellation, a handler that outlives its child process, a
  client that terminates a blocking server, a report printed before the other threads have been joined, an accept
  error that terminates the program with its joinable threads, a signal handler that outlives its server.

  \<^bold>\<open>Bounds.\<close> No fuel is used. \<open>runDebug\<close> and the loop that starts threads, the only loops that may run
  for ever without an input, are partial functions; the termination of the former is characterised exactly, that of
  the latter is proved. Statements on identifiers of sessions
  hold up to \<open>2 ^ 64\<close> connections, where \<open>size_t\<close> wraps around; this bound is a hypothesis,
  as is the bound of an \<open>int\<close> counter in \<open>handle_signal.cpp\<close>.

  \<^bold>\<open>Coroutines that are spawned.\<close> \<open>co_spawn\<close> dispatches to the executor. In \<open>Signal_Program\<close> a session is spawned by a coroutine
  that runs on the same executor, and so runs at once up to its first suspension. In \<open>Promise_Programs\<close> and \<open>Context_Pool\<close> the first
  step of a spawned coroutine is an event of its own, which may come at once or later; their theorems cover both.

  \<^bold>\<open>Not modelled:\<close> the option tables and help texts, \<open>include/config.hpp\<close> (a namespace alias), the body of the branch of
  \<open>async_invoke\<close> for void results (its constraints are modelled and exclude it), the JSON decoder behind \<open>decode\<close> in \<open>jsoncons_pr_658.cpp\<close> (its requests to the resource are an argument),
  and the defects of the libraries that the programs in \<open>issues/\<close> reproduce (the completions that they lead to are inputs). \<open>double\<close> values are rationals
  (sizes and durations). Data races between threads are considered where handlers
  or coroutines move between threads (\<open>Echo_Threads\<close>, \<open>threading/\<close>, \<open>async_invoke\<close>, \<open>Client_Report\<close>); elsewhere one
  thread, or a strand, runs all handlers of a component. Memory is sequentially consistent.
\<close>

section \<open>Composition: client, proxy and echo server\<close>

text \<open>C28: Client, proxy and echo server together. Let a byte stream arrive at the proxy, let what the proxy
  writes upstream arrive at an echo session, what the session writes arrive at the proxy's other
  direction, and what that writes arrive at the client, each time cut into blocks in any way. Then
  the client receives the original stream, its read loop returns its length, and the proxy reports
  the same count for both directions when the streams end.\<close>

theorem echo_through_proxy:
  assumes "answers any_error True up" and "drive (forward Success) (snd forward_start) up = (ops_up, Suspended u)"
    and "answers any_error True echoed" and "drive coro_session (snd coro_start) echoed = (ops_echo, c)"
    and "answers any_error True down" and "drive (forward Success) (snd forward_start) down = (ops_down, Suspended d)"
    and "received echoed = sent ops_up" and "received down = sent ops_echo"
    and "concat blocks = sent ops_down" and "fwd_reads u" and "fwd_reads d"
  shows "concat blocks = received up
    \<and> snd (drive (client_read cfg) (snd (client_read_start cfg)) (map (ReadDone Success) blocks @ [ReadDone Eof []]))
        = Returned (of_nat (length (received up)))
    \<and> snd (drive (forward Success) (snd forward_start) (up @ [ReadDone Eof []])) = Returned (of_nat (length (received up)))
    \<and> snd (drive (forward Success) (snd forward_start) (down @ [ReadDone Eof []])) = Returned (of_nat (length (received up)))"
proof -
  note start = forward_start_def coro_start_def client_read_start_def
  have "sent ops_up = received up" "sent ops_down = received down"
    using fwd_loop.relay_sent [OF _ assms(1), of "FwdRead 0"] fwd_loop.relay_sent [OF _ assms(5), of "FwdRead 0"]
      assms(2,6) by (simp_all add: start)
  moreover have "sent ops_echo = received echoed"
    using coro.relay_sent [OF _ assms(3), of AtRead] assms(4) by (simp add: start)
  ultimately have all: "concat blocks = received up" "received down = received up"
    using assms(7-9) by simp_all
  have "snd (drive (client_read cfg) (Suspended 0) (map (ReadDone Success) blocks @ [ReadDone Eof []]))
      = Returned (0 + of_nat (length (concat blocks)))"
    by (rule client_reader.tally_total) simp_all
  moreover have "snd (drive (forward Success) (snd forward_start) (up @ [ReadDone Eof []])) = Returned (of_nat (length (received up)))"
    using fwd_loop.count_at_eof [OF _ assms(1), of "FwdRead 0" ops_up u] assms(2,10) by (simp add: start)
  moreover have "snd (drive (forward Success) (snd forward_start) (down @ [ReadDone Eof []])) = Returned (of_nat (length (received down)))"
    using fwd_loop.count_at_eof [OF _ assms(5), of "FwdRead 0" ops_down d] assms(6,11) by (simp add: start)
  ultimately show ?thesis using all by (simp add: start)
qed

theorem echo_through_proxy_witness:
  "snd (drive (client_read default_ClientConfig) (snd (client_read_start default_ClientConfig))
     (map (ReadDone Success) [[7], [8]] @ [ReadDone Eof []])) = Returned (of_nat (length [7, 8 :: byte]))"
proof -
  let ?up = "[ReadDone Success [7, 8], WriteDone Success 2]"
  let ?down = "[ReadDone Success [7], WriteDone Success 1, ReadDone Success [8], WriteDone Success 1]"
  have a: "answers any_error True ?up" "answers any_error True ?down" by simp_all
  have r: "drive (forward Success) (snd forward_start) ?up
      = ([AsyncWrite Sink [7, 8], AsyncReadSome Source (64 * 1024)], Suspended (FwdRead 2))"
    "drive coro_session (snd coro_start) ?down
      = ([AsyncWrite Peer [7], AsyncReadSome Peer echo_buffer, AsyncWrite Peer [8], AsyncReadSome Peer echo_buffer], Suspended AtRead)"
    "drive (forward Success) (snd forward_start) ?down
      = ([AsyncWrite Sink [7], AsyncReadSome Source (64 * 1024), AsyncWrite Sink [8], AsyncReadSome Source (64 * 1024)],
         Suspended (FwdRead 2))"
    by (simp_all add: forward_start_def coro_start_def)
  show ?thesis
    using echo_through_proxy [OF a(1) r(1) a(2) r(2) a(2) r(3), of "[[7], [8]]" default_ClientConfig] by simp
qed

end
